(* ===== verification/Uring_Prelude.thy ===== *)
theory Uring_Prelude
  imports Main "HOL-Library.Word"
begin

text \<open>
  Shared vocabulary of the development.

  Rust's \<^verbatim>\<open>usize\<close> is a \<^typ>\<open>nat\<close>; the target is a 64-bit Linux, so \<open>usize_max\<close> is
  \<open>2 ^ 64 - 1\<close> and it is written out wherever the code checks for overflow.  Fixed-width
  integers are words of their width.  A Rust function returning \<^verbatim>\<open>io::Result<T>\<close> is modelled
  by a value of \<open>'a res\<close>: a value, an \<open>io_error\<close>, or a panic (slice index out of range,
  arithmetic underflow in an unchecked subtraction).

  The theory also holds \<^verbatim>\<open>std::io::Error\<close> as far as the crate uses it (constructors,
  \<^verbatim>\<open>kind()\<close>, \<^verbatim>\<open>raw_os_error()\<close>, \<^verbatim>\<open>to_string()\<close>), slice access with its panics, and the list
  lemmas the components share.
\<close>

unbundle bit_operations_syntax

section \<open>Collections of facts\<close>

named_theorems res_simps \<open>rewriting of the result type and of slice operations\<close>
named_theorems inv_intros \<open>an operation keeps the invariant of its component\<close>

section \<open>Machine integers\<close>

type_synonym u8 = "8 word"
type_synonym u16 = "16 word"
type_synonym u32 = "32 word"
type_synonym u64 = "64 word"
type_synonym i32 = int
type_synonym usize = nat
type_synonym bytes = "u8 list"

definition usize_max :: nat where
  "usize_max = 2 ^ 64 - 1"

definition u32_max :: nat where
  "u32_max = 2 ^ 32 - 1"

definition i32_max :: nat where
  "i32_max = 2 ^ 31 - 1"

text \<open>\<^verbatim>\<open>usize::checked_add\<close> and the truncating casts \<^verbatim>\<open>as u16\<close>, \<^verbatim>\<open>as u32\<close>.\<close>

definition checked_add :: "nat \<Rightarrow> nat \<Rightarrow> nat option" where
  "checked_add a b = (if a + b \<le> usize_max then Some (a + b) else None)"

definition checked_mul :: "nat \<Rightarrow> nat \<Rightarrow> nat option" where
  "checked_mul a b = (if a * b \<le> usize_max then Some (a * b) else None)"

lemma checked_add_Some_iff: "checked_add a b = Some c \<longleftrightarrow> c = a + b \<and> a + b \<le> usize_max"
  by (auto simp: checked_add_def)

lemma checked_add_None_iff: "checked_add a b = None \<longleftrightarrow> usize_max < a + b"
  by (auto simp: checked_add_def)

lemma checked_mul_Some_iff: "checked_mul a b = Some c \<longleftrightarrow> c = a * b \<and> a * b \<le> usize_max"
  by (auto simp: checked_mul_def)

lemma unat_u8_less: "unat (w :: u8) < 256"
  using unsigned_less [of w] by simp

lemma unat_u16_less: "unat (w :: u16) < 65536"
  using unsigned_less [of w] by simp

lemma unat_u32_less: "unat (w :: u32) < 4294967296"
  using unsigned_less [of w] by simp

lemma unat_u64_less: "unat (w :: u64) < 18446744073709551616"
  using unsigned_less [of w] by simp

lemmas unat_bounds = unat_u8_less unat_u16_less unat_u32_less unat_u64_less

lemma unat_of_nat_u8: "n < 256 \<Longrightarrow> unat (of_nat n :: u8) = n"
  by (subst unat_of_nat) simp

lemma unat_of_nat_u16: "n < 65536 \<Longrightarrow> unat (of_nat n :: u16) = n"
  by (subst unat_of_nat) simp

lemma unat_of_nat_u32: "n < 4294967296 \<Longrightarrow> unat (of_nat n :: u32) = n"
  by (subst unat_of_nat) simp

text \<open>Bitwise complement of a 16-bit word, as a number.\<close>

lemma unat_not_u16: "unat (NOT (w :: u16)) = 65535 - unat w"
proof -
  have "NOT w = - 1 - w" by (simp add: not_eq_complement)
  moreover have "unat (- 1 - w) = unat (- 1 :: u16) - unat w"
    by (rule unat_sub) simp
  ultimately show ?thesis by (simp add: unsigned_minus_1_eq_mask mask_eq_exp_minus_1)
qed

section \<open>Errors\<close>

text \<open>
  \<^verbatim>\<open>std::io::ErrorKind\<close>: the kinds the crate constructs or tests.  Every kind it never
  mentions is merged into \<open>Uncategorized\<close>.
\<close>

datatype error_kind =
    NotFound | PermissionDenied | InvalidInput | InvalidData | TimedOut | Interrupted | WouldBlock
  | BrokenPipe | Unsupported | OtherKind | Uncategorized

text \<open>
  The representations of \<^verbatim>\<open>std::io::Error\<close>: an OS error code (\<^verbatim>\<open>from_raw_os_error\<close>), a bare
  kind (\<^verbatim>\<open>io::Error::from(kind)\<close>), and a kind with a message (\<^verbatim>\<open>io::Error::new\<close>).
\<close>

datatype io_error = Os int | Simple error_kind | Custom error_kind string

text \<open>Linux error numbers used by the crate.\<close>

definition EPERM :: int where "EPERM = 1"
definition ENOENT :: int where "ENOENT = 2"
definition EINTR :: int where "EINTR = 4"
definition EAGAIN :: int where "EAGAIN = 11"
definition EACCES :: int where "EACCES = 13"
definition ENODEV :: int where "ENODEV = 19"
definition EINVAL :: int where "EINVAL = 22"
definition EPIPE :: int where "EPIPE = 32"
definition ENOSYS :: int where "ENOSYS = 38"
definition EOPNOTSUPP :: int where "EOPNOTSUPP = 95"
definition ENOBUFS :: int where "ENOBUFS = 105"
definition ETIMEDOUT :: int where "ETIMEDOUT = 110"
definition ECANCELED :: int where "ECANCELED = 125"

lemmas errno_defs = EPERM_def ENOENT_def EINTR_def EAGAIN_def EACCES_def ENODEV_def EINVAL_def EPIPE_def ENOSYS_def
  EOPNOTSUPP_def ENOBUFS_def ETIMEDOUT_def ECANCELED_def

text \<open>The classification \<^verbatim>\<open>std\<close> gives an OS error code on Linux, on the kinds above.\<close>

definition decode_error_kind :: "int \<Rightarrow> error_kind" where
  "decode_error_kind c =
     (if c = ENOENT then NotFound
      else if c = EPERM \<or> c = EACCES then PermissionDenied
      else if c = EINTR then Interrupted
      else if c = EAGAIN then WouldBlock
      else if c = EINVAL then InvalidInput
      else if c = EPIPE then BrokenPipe
      else if c = ENOSYS \<or> c = EOPNOTSUPP then Unsupported
      else if c = ETIMEDOUT then TimedOut
      else Uncategorized)"

fun kind :: "io_error \<Rightarrow> error_kind" where
  "kind (Os c) = decode_error_kind c"
| "kind (Simple k) = k"
| "kind (Custom k m) = k"

fun raw_os_error :: "io_error \<Rightarrow> int option" where
  "raw_os_error (Os c) = Some c"
| "raw_os_error _ = None"

fun kind_description :: "error_kind \<Rightarrow> string" where
  "kind_description NotFound = ''entity not found''"
| "kind_description PermissionDenied = ''permission denied''"
| "kind_description InvalidInput = ''invalid input parameter''"
| "kind_description InvalidData = ''invalid data''"
| "kind_description TimedOut = ''timed out''"
| "kind_description Interrupted = ''operation interrupted''"
| "kind_description WouldBlock = ''operation would block''"
| "kind_description BrokenPipe = ''broken pipe''"
| "kind_description Unsupported = ''unsupported''"
| "kind_description OtherKind = ''other error''"
| "kind_description Uncategorized = ''uncategorized error''"

text \<open>
  \<^verbatim>\<open>to_string()\<close> of an error that carries no OS code.  The text of an OS error comes from
  the C library and is not modelled; the crate never reads it.
\<close>

fun error_text :: "io_error \<Rightarrow> string" where
  "error_text (Os c) = ''''"
| "error_text (Simple k) = kind_description k"
| "error_text (Custom k m) = m"

section \<open>Results\<close>

datatype 'a res = Ok 'a | Err io_error | Panic

text \<open>What polling a future returns.\<close>

datatype 'a Poll = Ready 'a | Pending

fun bind_res :: "'a res \<Rightarrow> ('a \<Rightarrow> 'b res) \<Rightarrow> 'b res" where
  "bind_res (Ok x) f = f x"
| "bind_res (Err e) f = Err e"
| "bind_res Panic f = Panic"

fun ok_or :: "'a option \<Rightarrow> io_error \<Rightarrow> 'a res" where
  "ok_or (Some x) e = Ok x"
| "ok_or None e = Err e"

definition is_ok :: "'a res \<Rightarrow> bool" where
  "is_ok r = (case r of Ok _ \<Rightarrow> True | _ \<Rightarrow> False)"

lemma is_ok_simps [simp]: "is_ok (Ok x)" "\<not> is_ok (Err e)" "\<not> is_ok Panic"
  by (simp_all add: is_ok_def)

lemma bind_res_Ok_iff [res_simps]: "bind_res m f = Ok y \<longleftrightarrow> (\<exists>x. m = Ok x \<and> f x = Ok y)"
  by (cases m) auto

lemma bind_res_Err_iff [res_simps]:
  "bind_res m f = Err e \<longleftrightarrow> m = Err e \<or> (\<exists>x. m = Ok x \<and> f x = Err e)"
  by (cases m) auto

lemma bind_res_Panic_iff [res_simps]:
  "bind_res m f = Panic \<longleftrightarrow> m = Panic \<or> (\<exists>x. m = Ok x \<and> f x = Panic)"
  by (cases m) auto

lemma ok_or_Ok_iff [res_simps]: "ok_or x e = Ok y \<longleftrightarrow> x = Some y"
  by (cases x) auto

lemma map_res_Ok: "map_res f r = Ok y \<longleftrightarrow> (\<exists>x. r = Ok x \<and> y = f x)"
  by (cases r) auto

lemma ok_or_not_Panic [simp]: "ok_or x e \<noteq> Panic"
  by (cases x) auto

section \<open>Slices with their panics\<close>

text \<open>\<open>xs[i]\<close>, \<open>xs[i] = v\<close>, \<open>&xs[a..b]\<close> and \<open>xs[a..b].copy_from_slice(src)\<close>.\<close>

definition idx :: "'a list \<Rightarrow> nat \<Rightarrow> 'a res" where
  "idx xs i = (if i < length xs then Ok (xs ! i) else Panic)"

definition put :: "'a list \<Rightarrow> nat \<Rightarrow> 'a \<Rightarrow> 'a list res" where
  "put xs i v = (if i < length xs then Ok (xs[i := v]) else Panic)"

definition slice :: "'a list \<Rightarrow> nat \<Rightarrow> nat \<Rightarrow> 'a list res" where
  "slice xs a b = (if a \<le> b \<and> b \<le> length xs then Ok (take (b - a) (drop a xs)) else Panic)"

definition patch :: "'a list \<Rightarrow> nat \<Rightarrow> 'a list \<Rightarrow> 'a list" where
  "patch xs a src = take a xs @ src @ drop (a + length src) xs"

definition copy_into :: "'a list \<Rightarrow> nat \<Rightarrow> nat \<Rightarrow> 'a list \<Rightarrow> 'a list res" where
  "copy_into xs a b src =
     (if a \<le> b \<and> b \<le> length xs \<and> length src = b - a then Ok (patch xs a src) else Panic)"

lemma idx_Ok [res_simps]: "i < length xs \<Longrightarrow> idx xs i = Ok (xs ! i)"
  by (simp add: idx_def)

lemma put_Ok [res_simps]: "i < length xs \<Longrightarrow> put xs i v = Ok (xs[i := v])"
  by (simp add: put_def)

lemma slice_Ok [res_simps]:
  "a \<le> b \<Longrightarrow> b \<le> length xs \<Longrightarrow> slice xs a b = Ok (take (b - a) (drop a xs))"
  by (simp add: slice_def)

lemma copy_into_Ok [res_simps]:
  "a \<le> b \<Longrightarrow> b \<le> length xs \<Longrightarrow> length src = b - a \<Longrightarrow> copy_into xs a b src = Ok (patch xs a src)"
  by (simp add: copy_into_def)

lemma length_patch [simp]: "a + length src \<le> length xs \<Longrightarrow> length (patch xs a src) = length xs"
  by (simp add: patch_def)

lemma patch_nth:
  assumes "a + length src \<le> length xs" "i < length xs"
  shows "patch xs a src ! i =
           (if i < a then xs ! i else if i < a + length src then src ! (i - a) else xs ! i)"
  using assms by (auto simp: patch_def nth_append min_def)

lemma take_patch: "a \<le> length xs \<Longrightarrow> n \<le> a \<Longrightarrow> take n (patch xs a src) = take n xs"
  by (simp add: patch_def min_def)

lemma drop_patch:
  "a + length src \<le> length xs \<Longrightarrow> a + length src \<le> n \<Longrightarrow> drop n (patch xs a src) = drop n xs"
  by (simp add: patch_def)

lemma patch_read:
  "a + length src \<le> length xs \<Longrightarrow> take (length src) (drop a (patch xs a src)) = src"
  by (simp add: patch_def)

text \<open>A memory that holds a list at address 0 reads back as that list.\<close>

lemma map_memory_of_list: "map (\<lambda>n. if n < length xs then xs ! n else d) [0 ..< 0 + length xs] = xs"
  by (rule nth_equalityI) simp_all

section \<open>Loops over an index range\<close>

lemma fold_upt_induct [consumes 0, case_names start step]:
  assumes "P 0 s" "\<And>i s. i < n \<Longrightarrow> P i s \<Longrightarrow> P (Suc i) (f i s)"
  shows "P n (fold f [0 ..< n] s)"
  using assms
proof (induction n)
  case (Suc n)
  then have "P n (fold f [0 ..< n] s)" by simp
  with Suc.prems(2) [of n] show ?case by simp
qed simp

section \<open>Counting entries of a list\<close>

definition count_if :: "('a \<Rightarrow> bool) \<Rightarrow> 'a list \<Rightarrow> nat" where
  "count_if P xs = length (filter P xs)"

lemma count_if_simps [simp]:
  "count_if P [] = 0"
  "count_if P (x # xs) = (if P x then Suc (count_if P xs) else count_if P xs)"
  by (simp_all add: count_if_def)

lemma count_if_append [simp]: "count_if P (xs @ ys) = count_if P xs + count_if P ys"
  by (simp add: count_if_def)

lemma count_if_le: "count_if P xs \<le> length xs"
  by (simp add: count_if_def)

lemma count_if_replicate [simp]: "count_if P (replicate n x) = (if P x then n else 0)"
  by (induction n) auto

lemma count_if_update:
  "i < length xs \<Longrightarrow>
   count_if P (xs[i := v]) + (if P (xs ! i) then 1 else 0) = count_if P xs + (if P v then 1 else 0)"
proof (induction xs arbitrary: i)
  case (Cons x xs)
  then show ?case
  proof (cases i)
    case (Suc j)
    then show ?thesis using Cons.IH [of j] Cons.prems by (auto split: if_splits)
  qed auto
qed simp

lemma count_if_update_in:
  assumes "i < length xs" "\<not> P (xs ! i)" "P v"
  shows "count_if P (xs[i := v]) = Suc (count_if P xs)"
  using count_if_update [of i xs P v] assms by simp

lemma count_if_update_out:
  assumes "i < length xs" "P (xs ! i)" "\<not> P v"
  shows "count_if P (xs[i := v]) = count_if P xs - 1" "0 < count_if P xs"
  using count_if_update [of i xs P v] assms by simp_all

lemma count_if_update_same:
  assumes "i < length xs" "P (xs ! i) = P v"
  shows "count_if P (xs[i := v]) = count_if P xs"
  using count_if_update [of i xs P v] assms by (simp split: if_splits)

lemma count_if_full_iff: "count_if P xs = length xs \<longleftrightarrow> (\<forall>i < length xs. P (xs ! i))"
proof -
  have "count_if P xs = length xs \<longleftrightarrow> (\<forall>x \<in> set xs. P x)"
  proof (induction xs)
    case (Cons x xs)
    then show ?case using count_if_le [of P xs] by auto
  qed simp
  then show ?thesis by (simp add: all_set_conv_all_nth)
qed

lemma count_if_pos_iff: "0 < count_if P xs \<longleftrightarrow> (\<exists>i < length xs. P (xs ! i))"
  by (induction xs) (auto simp: Ex_less_Suc2)

lemma count_if_zero_iff: "count_if P xs = 0 \<longleftrightarrow> (\<forall>i < length xs. \<not> P (xs ! i))"
  using count_if_pos_iff [of P xs] by auto

text \<open>\<^const>\<open>List.map_filter\<close> on appended, updated and plain lists.\<close>

lemma map_filter_app [simp]: "List.map_filter f (xs @ ys) = List.map_filter f xs @ List.map_filter f ys"
  by (induction xs) (simp_all add: map_filter_simps split: option.split)

lemma map_filter_Some [simp]: "List.map_filter id (map Some xs) = xs"
  by (induction xs) (simp_all add: map_filter_simps)

lemma set_map_filter: "set (List.map_filter f xs) = {y. \<exists>x \<in> set xs. f x = Some y}"
  by (induction xs) (auto simp: map_filter_simps split: option.split)

lemma map_filter_split:
  assumes "i < length xs"
  shows "List.map_filter f xs = List.map_filter f (take i xs) @
      (case f (xs ! i) of None \<Rightarrow> [] | Some a \<Rightarrow> [a]) @ List.map_filter f (drop (Suc i) xs)"
    and "List.map_filter f (xs[i := y]) = List.map_filter f (take i xs) @
      (case f y of None \<Rightarrow> [] | Some a \<Rightarrow> [a]) @ List.map_filter f (drop (Suc i) xs)"
proof -
  show "List.map_filter f xs = List.map_filter f (take i xs) @
      (case f (xs ! i) of None \<Rightarrow> [] | Some a \<Rightarrow> [a]) @ List.map_filter f (drop (Suc i) xs)"
    by (subst id_take_nth_drop [OF assms]) (simp add: map_filter_simps split: option.split)
  show "List.map_filter f (xs[i := y]) = List.map_filter f (take i xs) @
      (case f y of None \<Rightarrow> [] | Some a \<Rightarrow> [a]) @ List.map_filter f (drop (Suc i) xs)"
    by (subst upd_conv_take_nth_drop [OF assms]) (simp add: map_filter_simps split: option.split)
qed

lemma distinct_map_filter_update:
  assumes "distinct (List.map_filter f xs)" "i < length xs"
    and "\<And>a. f y = Some a \<Longrightarrow> f (xs ! i) = Some a \<or> a \<notin> set (List.map_filter f xs)"
  shows "distinct (List.map_filter f (xs[i := y]))"
  using assms(1,3) unfolding map_filter_split [OF assms(2)] by (auto split: option.splits)

end
