(* ===== verification/Io_Error.thy ===== *)
theory Io_Error
  imports Uring_Prelude
begin

text \<open>
  The error constructors of \<^verbatim>\<open>src/src/core/error.rs\<close>.  Every fault the crate reports to a
  caller is built here, and \<open>clone_io_error\<close> is how a fault recorded once (in the RX state, in a
  batch) is handed out several times.
\<close>

definition invalid_input :: "string \<Rightarrow> io_error" where
  "invalid_input message = Custom InvalidInput message"

definition invalid_config :: "string \<Rightarrow> string \<Rightarrow> io_error" where
  "invalid_config field message =
     invalid_input (''invalid `config.'' @ field @ ''`: '' @ message)"

definition unsupported :: "string \<Rightarrow> io_error" where
  "unsupported message = Custom Unsupported message"

definition no_async_backend :: io_error where
  "no_async_backend =
     unsupported ''no async backend enabled; enable feature `async_tokio` or `async_io`''"

definition rx_fast_poll_required :: io_error where
  "rx_fast_poll_required = unsupported ''rx io_uring requires IORING_FEAT_FAST_POLL''"

definition rx_stopped :: io_error where
  "rx_stopped = Custom BrokenPipe ''rx stopped''"

definition rx_driver_closed :: io_error where
  "rx_driver_closed = Custom BrokenPipe ''rx driver closed''"

definition rx_buffers_exhausted :: io_error where
  "rx_buffers_exhausted = Os ENOBUFS"

definition clone_io_error :: "io_error \<Rightarrow> io_error" where
  "clone_io_error error =
     (case raw_os_error error of
        Some code \<Rightarrow> Os code
      | None \<Rightarrow> Custom (kind error) (error_text error))"

lemmas error_defs = invalid_input_def invalid_config_def unsupported_def no_async_backend_def
  rx_fast_poll_required_def rx_stopped_def rx_driver_closed_def rx_buffers_exhausted_def

lemma clone_simps [simp]:
  "clone_io_error (Os c) = Os c"
  "clone_io_error (Custom k m) = Custom k m"
  "clone_io_error (Simple k) = Custom k (kind_description k)"
  by (simp_all add: clone_io_error_def)

text \<open>What a cloned error keeps: everything the crate or its callers look at.\<close>

lemma kind_clone [simp]: "kind (clone_io_error e) = kind e"
  by (cases e) simp_all

lemma raw_os_error_clone [simp]: "raw_os_error (clone_io_error e) = raw_os_error e"
  by (cases e) simp_all

lemma error_text_clone [simp]: "error_text (clone_io_error e) = error_text e"
  by (cases e) simp_all

lemma clone_idem [simp]: "clone_io_error (clone_io_error e) = clone_io_error e"
  by (cases e) simp_all

text \<open>Only the errors of an empty running queue and of an exhausted fd are \<open>WouldBlock\<close>.\<close>

lemma kind_error_defs [simp]:
  "kind rx_stopped = BrokenPipe"
  "kind rx_driver_closed = BrokenPipe"
  "kind rx_buffers_exhausted = Uncategorized"
  "kind (invalid_input m) = InvalidInput"
  "kind (unsupported m) = Unsupported"
  by (simp_all add: error_defs decode_error_kind_def errno_defs)

end
