(* ===== verification/Checksum.thy ===== *)
theory Checksum
  imports Io_Error
begin

text \<open>
  Byte-order access and the Internet checksum of \<^verbatim>\<open>src/src/core/packet.rs\<close>
  (\<open>read_u16_be\<close> to \<open>write_u32_be\<close>, \<open>checksum_no_fold\<close>, \<open>checksum\<close>,
  \<open>pseudo_header_checksum_no_fold\<close>, \<open>gso_none_checksum\<close>).

  The code sums 32-bit words into a 64-bit accumulator and folds it; the reference is the
  one's-complement sum of 16-bit words of RFC 1071 (\<open>sum16\<close>, \<open>ones_sum\<close>).  The accumulator is a
  64-bit word whose addition wraps, as in a release build; the theorems carry the bound under
  which it does not wrap (slices below 4 GiB).
\<close>

section \<open>Big-endian access\<close>

definition u16_from_be_bytes :: "u8 \<Rightarrow> u8 \<Rightarrow> u16" where
  "u16_from_be_bytes a b = of_nat (256 * unat a + unat b)"

definition u16_to_be_bytes :: "u16 \<Rightarrow> bytes" where
  "u16_to_be_bytes v = [of_nat (unat v div 256), of_nat (unat v mod 256)]"

definition u32_from_be_bytes :: "u8 \<Rightarrow> u8 \<Rightarrow> u8 \<Rightarrow> u8 \<Rightarrow> u32" where
  "u32_from_be_bytes a b c d =
     of_nat (16777216 * unat a + 65536 * unat b + 256 * unat c + unat d)"

definition u32_to_be_bytes :: "u32 \<Rightarrow> bytes" where
  "u32_to_be_bytes v =
     [of_nat (unat v div 16777216), of_nat (unat v div 65536 mod 256),
      of_nat (unat v div 256 mod 256), of_nat (unat v mod 256)]"

definition read_u16_be :: "bytes \<Rightarrow> nat \<Rightarrow> u16 res" where
  "read_u16_be bs offset =
     bind_res (idx bs offset) (\<lambda>a. bind_res (idx bs (offset + 1)) (\<lambda>b. Ok (u16_from_be_bytes a b)))"

definition write_u16_be :: "bytes \<Rightarrow> nat \<Rightarrow> u16 \<Rightarrow> bytes res" where
  "write_u16_be bs offset value = copy_into bs offset (offset + 2) (u16_to_be_bytes value)"

definition read_u32_be :: "bytes \<Rightarrow> nat \<Rightarrow> u32 res" where
  "read_u32_be bs offset =
     bind_res (idx bs offset) (\<lambda>a. bind_res (idx bs (offset + 1)) (\<lambda>b.
     bind_res (idx bs (offset + 2)) (\<lambda>c. bind_res (idx bs (offset + 3)) (\<lambda>d.
       Ok (u32_from_be_bytes a b c d)))))"

definition write_u32_be :: "bytes \<Rightarrow> nat \<Rightarrow> u32 \<Rightarrow> bytes res" where
  "write_u32_be bs offset value = copy_into bs offset (offset + 4) (u32_to_be_bytes value)"

section \<open>The checksum\<close>

text \<open>The \<^verbatim>\<open>while bytes.len() >= 4\<close> loop of \<^verbatim>\<open>checksum_no_fold\<close>, then its two tails.\<close>

fun checksum_words :: "bytes \<Rightarrow> u64 \<Rightarrow> bytes \<times> u64" where
  "checksum_words (a # b # c # d # rest) accumulator =
     checksum_words rest (accumulator + ucast (u32_from_be_bytes a b c d))"
| "checksum_words bs accumulator = (bs, accumulator)"

definition checksum_no_fold :: "bytes \<Rightarrow> u64 \<Rightarrow> u64" where
  "checksum_no_fold bs accumulator =
     (let (bs, accumulator) = checksum_words bs accumulator;
          (bs, accumulator) =
            (case bs of
               a # b # rest \<Rightarrow> (rest, accumulator + ucast (u16_from_be_bytes a b))
             | _ \<Rightarrow> (bs, accumulator))
      in case bs of
           [] \<Rightarrow> accumulator
         | byte # _ \<Rightarrow> accumulator + push_bit 8 (ucast byte))"

text \<open>One round of folding a sum into 16 bits, at any width.\<close>

lemma word_halves:
  fixes a :: "'a::len word"
  shows "unat (a AND 0xffff) = unat a mod 65536" "unat (drop_bit 16 a) = unat a div 65536"
proof -
  have "a AND 0xffff = take_bit 16 a" by (simp add: take_bit_eq_mask mask_numeral)
  moreover have "unat (take_bit 16 a) = unat a mod 65536"
    by (simp only: unsigned_take_bit_eq) (simp add: take_bit_eq_mod)
  ultimately show "unat (a AND 0xffff) = unat a mod 65536" by simp
  show "unat (drop_bit 16 a) = unat a div 65536" by (simp only: unat_drop_bit_eq) (simp add: drop_bit_eq_div)
qed

lemma halves_decrease: "65535 < n \<Longrightarrow> n mod 65536 + n div 65536 < (n :: nat)"
  using div_mult_mod_eq [of n 65536] by linarith

lemma word_fold_step:
  fixes a :: "'a::len word"
  assumes "65535 < unat a"
  shows "unat ((a AND 0xffff) + drop_bit 16 a) = unat a mod 65536 + unat a div 65536"
  using less_trans [OF halves_decrease [OF assms] unsigned_less [of a]] by (simp add: unat_word_ariths word_halves)

lemma fold_step_decreases:
  fixes a :: u64
  assumes "a > 0xffff"
  shows "unat ((a AND 0xffff) + drop_bit 16 a) = unat a mod 65536 + unat a div 65536"
    and "unat a mod 65536 + unat a div 65536 < unat a"
proof -
  have "65535 < unat a" using assms by (simp add: word_less_nat_alt)
  then show "unat ((a AND 0xffff) + drop_bit 16 a) = unat a mod 65536 + unat a div 65536"
    and "unat a mod 65536 + unat a div 65536 < unat a"
    by (fact word_fold_step, fact halves_decrease)
qed

text \<open>The \<^verbatim>\<open>while accumulator > 0xffff\<close> loop of \<^verbatim>\<open>checksum\<close>.\<close>

function checksum_fold :: "u64 \<Rightarrow> u64" where
  "checksum_fold accumulator =
     (if accumulator > 0xffff
      then checksum_fold ((accumulator AND 0xffff) + drop_bit 16 accumulator)
      else accumulator)"
  by pat_completeness auto
termination
  by (relation "measure unat") (simp_all only: wf_measure in_measure fold_step_decreases)

declare checksum_fold.simps [simp del]

definition checksum :: "bytes \<Rightarrow> u64 \<Rightarrow> u16" where
  "checksum bs initial = ucast (checksum_fold (checksum_no_fold bs initial))"

definition pseudo_header_checksum_no_fold :: "u8 \<Rightarrow> bytes \<Rightarrow> bytes \<Rightarrow> u16 \<Rightarrow> u64" where
  "pseudo_header_checksum_no_fold protocol src_addr dst_addr total_len =
     (let sum = checksum_no_fold src_addr 0;
          sum = checksum_no_fold dst_addr sum;
          len_bytes = u16_to_be_bytes total_len
      in checksum_no_fold ([0, protocol] @ len_bytes) sum)"

definition gso_none_checksum :: "bytes \<Rightarrow> u16 \<Rightarrow> u16 \<Rightarrow> bytes res" where
  "gso_none_checksum packet csum_start csum_offset =
     (let checksum_at = unat csum_start + unat csum_offset in
      bind_res (map_res ucast (read_u16_be packet checksum_at)) (\<lambda>initial.
      bind_res (put packet checksum_at 0) (\<lambda>packet.
      bind_res (put packet (checksum_at + 1) 0) (\<lambda>packet.
      bind_res (slice packet (unat csum_start) (length packet)) (\<lambda>covered.
        write_u16_be packet checksum_at (NOT (checksum covered initial)))))))"

section \<open>Reference: the one's-complement sum of RFC 1071\<close>

fun sum16 :: "bytes \<Rightarrow> nat" where
  "sum16 (a # b # rest) = 256 * unat a + unat b + sum16 rest"
| "sum16 [a] = 256 * unat a"
| "sum16 [] = 0"

text \<open>The end-around-carry representative of a sum: \<open>0\<close> only for \<open>0\<close>, else in \<open>1 .. 65535\<close>.\<close>

definition ones_sum :: "nat \<Rightarrow> nat" where
  "ones_sum n = (if n = 0 then 0 else Suc ((n - 1) mod 65535))"

lemma ones_sum_le: "ones_sum n \<le> 65535"
  by (simp add: ones_sum_def Suc_le_eq)

lemma ones_sum_small: "n \<le> 65535 \<Longrightarrow> ones_sum n = n"
  by (cases n) (auto simp: ones_sum_def)

lemma ones_sum_cong:
  assumes "m mod 65535 = n mod 65535" "m = 0 \<longleftrightarrow> n = 0"
  shows "ones_sum m = ones_sum n"
proof (cases "m = 0")
  case False
  with assms(2) obtain m' n' where "m = Suc m'" "n = Suc n'"
    by (cases m; cases n) auto
  with assms(1) have "(m' + 1) mod 65535 = (n' + 1) mod 65535" by simp
  then have "(m' + 1 + 65534) mod 65535 = (n' + 1 + 65534) mod 65535"
    by (rule mod_add_cong) simp
  then have "m' mod 65535 = n' mod 65535" by simp
  with \<open>m = Suc m'\<close> \<open>n = Suc n'\<close> show ?thesis by (simp add: ones_sum_def)
qed (use assms in \<open>simp add: ones_sum_def\<close>)

lemma ones_sum_complement: "ones_sum (n + (65535 - ones_sum n)) = 65535"
proof (cases n)
  case (Suc m)
  have "n + (65535 - ones_sum n) = 65535 * Suc (m div 65535)"
  proof -
    define q r where "q = m div 65535" and "r = m mod 65535"
    then have "r < 65535" and "m = 65535 * q + r" by simp_all
    moreover have "ones_sum n = Suc r" by (simp add: Suc ones_sum_def r_def)
    ultimately show ?thesis by (simp add: Suc flip: q_def)
  qed
  then show ?thesis by (simp add: ones_sum_def mod_Suc)
qed (simp add: ones_sum_def)


section \<open>Byte order\<close>

lemma unat_u16_from_be: "unat (u16_from_be_bytes a b) = 256 * unat a + unat b"
proof -
  have "256 * unat a + unat b < 65536"
    using unat_u8_less [of a] unat_u8_less [of b] by linarith
  then show ?thesis unfolding u16_from_be_bytes_def by (rule unat_of_nat_u16)
qed

lemma unat_u32_from_be:
  "unat (u32_from_be_bytes a b c d) = 16777216 * unat a + 65536 * unat b + 256 * unat c + unat d"
proof -
  have "16777216 * unat a + 65536 * unat b + 256 * unat c + unat d < 4294967296"
    using unat_u8_less [of a] unat_u8_less [of b] unat_u8_less [of c] unat_u8_less [of d]
    by linarith
  then show ?thesis unfolding u32_from_be_bytes_def by (rule unat_of_nat_u32)
qed

lemma length_u16_to_be [simp]: "length (u16_to_be_bytes v) = 2"
  by (simp add: u16_to_be_bytes_def)

lemma length_u32_to_be [simp]: "length (u32_to_be_bytes v) = 4"
  by (simp add: u32_to_be_bytes_def)

lemma sum16_u16_to_be: "sum16 (u16_to_be_bytes v) = unat v"
proof -
  have "unat v div 256 < 256" using unat_u16_less [of v] by (simp add: less_mult_imp_div_less)
  then show ?thesis by (simp add: u16_to_be_bytes_def unat_of_nat)
qed

lemma u16_be_roundtrip: "u16_from_be_bytes (u16_to_be_bytes v ! 0) (u16_to_be_bytes v ! 1) = v"
proof -
  have "unat v div 256 < 256" using unat_u16_less [of v] by (simp add: less_mult_imp_div_less)
  then show ?thesis by (simp add: u16_to_be_bytes_def u16_from_be_bytes_def unat_of_nat)
qed

lemma base256_digits:
  fixes n :: nat
  shows "16777216 * (n div 16777216) + 65536 * (n div 65536 mod 256)
      + 256 * (n div 256 mod 256) + n mod 256 = n"
proof -
  define p q r where "p = n div 256" and "q = p div 256" and "r = q div 256"
  have "n div 65536 = q" "n div 16777216 = r"
    by (simp_all add: p_def q_def r_def flip: div_mult2_eq)
  moreover have "n = 256 * p + n mod 256" "p = 256 * q + p mod 256" "q = 256 * r + q mod 256"
    by (simp_all add: p_def q_def r_def)
  ultimately show ?thesis by (simp only: flip: p_def)
qed

lemma u32_be_roundtrip:
  "u32_from_be_bytes (u32_to_be_bytes v ! 0) (u32_to_be_bytes v ! 1)
     (u32_to_be_bytes v ! 2) (u32_to_be_bytes v ! 3) = v"
proof -
  let ?n = "unat v"
  have "?n div 16777216 < 256" using unat_u32_less [of v] by (simp add: less_mult_imp_div_less)
  then have "unat (u32_from_be_bytes (u32_to_be_bytes v ! 0) (u32_to_be_bytes v ! 1)
      (u32_to_be_bytes v ! 2) (u32_to_be_bytes v ! 3)) =
      16777216 * (?n div 16777216) + 65536 * (?n div 65536 mod 256)
      + 256 * (?n div 256 mod 256) + ?n mod 256"
    by (simp add: unat_u32_from_be u32_to_be_bytes_def unat_of_nat_u8 numeral_2_eq_2
        numeral_3_eq_3 del: of_nat_mod)
  also have "\<dots> = ?n" by (rule base256_digits)
  finally show ?thesis by (rule word_unat_eq_iff [THEN iffD2])
qed

lemma read_u16_be_Ok:
  "offset + 1 < length bs \<Longrightarrow> read_u16_be bs offset = Ok (u16_from_be_bytes (bs ! offset) (bs ! (offset + 1)))"
  by (simp add: read_u16_be_def res_simps)

lemma read_u32_be_Ok:
  "offset + 3 < length bs \<Longrightarrow>
   read_u32_be bs offset =
     Ok (u32_from_be_bytes (bs ! offset) (bs ! (offset + 1)) (bs ! (offset + 2)) (bs ! (offset + 3)))"
  by (simp add: read_u32_be_def res_simps)

lemma write_u16_be_Ok:
  "offset + 2 \<le> length bs \<Longrightarrow> write_u16_be bs offset v = Ok (patch bs offset (u16_to_be_bytes v))"
  by (simp add: write_u16_be_def res_simps)

lemma write_u32_be_Ok:
  "offset + 4 \<le> length bs \<Longrightarrow> write_u32_be bs offset v = Ok (patch bs offset (u32_to_be_bytes v))"
  by (simp add: write_u32_be_def res_simps)

lemmas be_access_Ok = read_u16_be_Ok read_u32_be_Ok write_u16_be_Ok write_u32_be_Ok

lemma read_write_u16_be:
  assumes "offset + 2 \<le> length bs" "write_u16_be bs offset v = Ok bs'"
  shows "read_u16_be bs' offset = Ok v"
proof -
  from assms have bs': "bs' = patch bs offset (u16_to_be_bytes v)" by (simp add: be_access_Ok)
  with assms(1) have len: "length bs' = length bs" by simp
  have "bs' ! offset = u16_to_be_bytes v ! 0" "bs' ! (offset + 1) = u16_to_be_bytes v ! 1"
    using assms(1) by (simp_all add: bs' patch_nth)
  with len assms(1) show ?thesis by (simp add: be_access_Ok u16_be_roundtrip [simplified])
qed

section \<open>The optimised sum equals the reference\<close>

text \<open>The 32-bit-word sum the code computes, as a number.\<close>

fun sum32 :: "bytes \<Rightarrow> nat" where
  "sum32 (a # b # c # d # rest) =
     16777216 * unat a + 65536 * unat b + 256 * unat c + unat d + sum32 rest"
| "sum32 bs = sum16 bs"

lemma sum16_bound: "sum16 bs \<le> 65536 * length bs"
proof (induction bs rule: sum16.induct)
  case (1 a b rest)
  then show ?case using unat_u8_less [of a] unat_u8_less [of b] by simp
next
  case (2 a)
  then show ?case using unat_u8_less [of a] by simp
qed simp

lemma sum32_bound: "sum32 bs \<le> 4294967296 * (length bs div 4 + 1)"
proof (induction bs rule: sum32.induct)
  case (1 a b c d rest)
  have "16777216 * unat a + 65536 * unat b + 256 * unat c + unat d \<le> 4294967296"
    using unat_u8_less [of a] unat_u8_less [of b] unat_u8_less [of c] unat_u8_less [of d]
    by linarith
  moreover have "length (a # b # c # d # rest) div 4 = length rest div 4 + 1" by simp
  ultimately show ?case using 1 by (simp only: sum32.simps distrib_left mult_1_right)
qed (use sum16_bound in \<open>simp_all del: sum16.simps add: order_trans [OF sum16_bound]\<close>)


lemma sum32_mod: "sum32 bs mod 65535 = sum16 bs mod 65535"
proof (induction bs rule: sum32.induct)
  case (1 a b c d rest)
  have "sum32 (a # b # c # d # rest) =
      65535 * (256 * unat a + unat b) + (256 * unat a + unat b + 256 * unat c + unat d + sum32 rest)"
    by simp
  then have "sum32 (a # b # c # d # rest) mod 65535 =
      (256 * unat a + unat b + 256 * unat c + unat d + sum32 rest) mod 65535"
    by (simp only: mod_mult_self4)
  also have "\<dots> = (256 * unat a + unat b + 256 * unat c + unat d + sum16 rest) mod 65535"
    by (rule mod_add_cong [OF refl 1])
  finally show ?case by (simp add: add.assoc)
qed simp_all

lemma sum32_zero_iff: "sum32 bs = 0 \<longleftrightarrow> sum16 bs = 0"
  by (induction bs rule: sum32.induct) auto

lemma ones_sum_sum32: "ones_sum (n + sum32 bs) = ones_sum (n + sum16 bs)"
proof (rule ones_sum_cong)
  show "(n + sum32 bs) mod 65535 = (n + sum16 bs) mod 65535"
    by (rule mod_add_cong [OF refl sum32_mod])
qed (simp add: sum32_zero_iff)

lemma unat_add_u64:
  "unat a + unat b < 18446744073709551616 \<Longrightarrow> unat (a + b :: u64) = unat a + unat b"
  by (simp add: unat_word_ariths)

lemma unat_ucast_u64 [simp]:
  "unat (ucast (w32 :: u32) :: u64) = unat w32"
  "unat (ucast (w16 :: u16) :: u64) = unat w16"
  "unat (ucast (w8 :: u8) :: u64) = unat w8"
  by (simp_all add: unsigned_ucast_eq take_bit_nat_eq_self_iff
      order.strict_trans [OF unat_u32_less] order.strict_trans [OF unat_u16_less]
      order.strict_trans [OF unat_u8_less])

lemma unat_high_byte: "unat (push_bit 8 (ucast (w :: u8)) :: u64) = 256 * unat w"
proof -
  have "push_bit 8 (ucast w) = (256 * ucast w :: u64)" by (simp add: push_bit_eq_mult)
  then show ?thesis using unat_u8_less [of w] by (simp add: unat_word_ariths)
qed

lemma checksum_words_sum:
  assumes "unat acc + sum32 bs < 18446744073709551616"
  shows "\<exists>rest acc'. checksum_words bs acc = (rest, acc') \<and> length rest < 4 \<and>
           unat acc' + sum16 rest = unat acc + sum32 bs"
  using assms
proof (induction bs acc rule: checksum_words.induct)
  case (1 a b c d rest acc)
  let ?w = "ucast (u32_from_be_bytes a b c d) :: u64"
  from 1 have "unat (acc + ?w) = unat acc + unat ?w"
    by (intro unat_add_u64) (simp add: unat_u32_from_be)
  with 1 show ?case by (simp add: unat_u32_from_be add.assoc)
qed simp_all

text \<open>The accumulator after \<^verbatim>\<open>checksum_no_fold\<close>, when it does not wrap.\<close>

lemma unat_checksum_no_fold:
  assumes "unat acc + sum32 bs < 18446744073709551616"
  shows "unat (checksum_no_fold bs acc) = unat acc + sum32 bs"
proof -
  from checksum_words_sum [OF assms] obtain rest acc' where
    w: "checksum_words bs acc = (rest, acc')" "length rest < 4"
    and s: "unat acc' + sum16 rest = unat acc + sum32 bs" by blast
  from w(2) consider "rest = []" | a where "rest = [a]" | a b where "rest = [a, b]"
    | a b c where "rest = [a, b, c]"
    by (auto simp: numeral_eq_Suc less_Suc_eq length_Suc_conv)
  then show ?thesis
    using s assms
    by cases (simp_all add: checksum_no_fold_def w(1) unat_add_u64 unat_high_byte
        unat_u16_from_be)
qed

lemma ones_sum_fold_step:
  assumes "65535 < n"
  shows "ones_sum (n mod 65536 + n div 65536) = ones_sum n"
proof (rule ones_sum_cong)
  have "n = 65535 * (n div 65536) + (n mod 65536 + n div 65536)"
    using div_mult_mod_eq [of n 65536] by linarith
  then show "(n mod 65536 + n div 65536) mod 65535 = n mod 65535" by (metis mod_mult_self4)
  show "n mod 65536 + n div 65536 = 0 \<longleftrightarrow> n = 0" using assms by (auto simp: div_eq_0_iff)
qed

lemma unat_checksum_fold: "unat (checksum_fold acc) = ones_sum (unat acc)"
proof (induction acc rule: checksum_fold.induct)
  case (1 acc)
  show ?case
  proof (cases "acc > 0xffff")
    case True
    then have "65535 < unat acc" by (simp add: word_less_nat_alt)
    with True "1.IH" show ?thesis
      by (simp add: checksum_fold.simps [of acc] fold_step_decreases(1) ones_sum_fold_step)
  next
    case False
    then have "unat acc \<le> 65535" by (simp add: word_less_nat_alt)
    with False show ?thesis by (simp add: checksum_fold.simps [of acc] ones_sum_small)
  qed
qed

lemma unat_checksum_sum32:
  assumes "unat initial + sum32 bs < 18446744073709551616"
  shows "unat (checksum bs initial) = ones_sum (unat initial + sum16 bs)"
proof -
  let ?f = "checksum_fold (checksum_no_fold bs initial)"
  have "unat ?f = ones_sum (unat initial + sum16 bs)"
    by (simp add: unat_checksum_fold unat_checksum_no_fold [OF assms] ones_sum_sum32)
  moreover from this have "unat ?f < 65536"
    using ones_sum_le [of "unat initial + sum16 bs"] by simp
  then have "unat (ucast ?f :: u16) = unat ?f"
    by (simp add: unsigned_ucast_eq take_bit_nat_eq_self_iff)
  ultimately show ?thesis by (simp add: checksum_def)
qed

text \<open>Slices below 4 GiB and an initial value below \<open>2 ^ 63\<close> never wrap the accumulator.\<close>

lemma no_wrap:
  assumes "length bs < 4294967296" "n < 9223372036854775808"
  shows "n + sum32 bs < 18446744073709551616"
proof -
  have "length bs div 4 + 1 \<le> 1073741824" using assms(1) by linarith
  then have "4294967296 * (length bs div 4 + 1) \<le> 4294967296 * 1073741824"
    by (rule mult_le_mono2)
  with sum32_bound [of bs] assms(2) show ?thesis by linarith
qed


lemma checksum_ones_sum:
  assumes "length bs < 4294967296" "unat initial < 9223372036854775808"
  shows "unat (checksum bs initial) = ones_sum (unat initial + sum16 bs)"
  by (rule unat_checksum_sum32 [OF no_wrap [OF assms]])

section \<open>Filling in a checksum field\<close>

lemma sum16_append_even: "even (length xs) \<Longrightarrow> sum16 (xs @ ys) = sum16 xs + sum16 ys"
  by (induction xs rule: sum16.induct) auto

lemma sum16_field:
  assumes "even off" "off + 2 \<le> length bs" "length src = 2"
  shows "sum16 (patch bs off src) = sum16 (take off bs) + sum16 src + sum16 (drop (off + 2) bs)"
proof -
  have "even (length (take off bs))" "even (length src)" using assms by (simp_all add: min_def)
  then show ?thesis by (simp add: patch_def sum16_append_even assms(3))
qed

lemma sum16_zero_field:
  assumes "even off" "off + 2 \<le> length bs" "bs ! off = 0" "bs ! (off + 1) = 0"
  shows "sum16 bs = sum16 (take off bs) + sum16 (drop (off + 2) bs)"
proof -
  have "drop off bs = 0 # 0 # drop (off + 2) bs"
    using assms Cons_nth_drop_Suc [of off bs] Cons_nth_drop_Suc [of "Suc off" bs] by simp
  then have "bs = take off bs @ 0 # 0 # drop (off + 2) bs"
    by (metis append_take_drop_id)
  moreover have "even (length (take off bs))" using assms by (simp add: min_def)
  ultimately show ?thesis
    using sum16_append_even [of "take off bs" "0 # 0 # drop (off + 2) bs"] by simp
qed

lemma checksum_field_verifies:
  assumes "even off" "off + 2 \<le> length bs" "bs ! off = 0" "bs ! (off + 1) = 0"
    and "length bs < 4294967296" "unat initial < 9223372036854775808"
  shows "checksum (patch bs off (u16_to_be_bytes (NOT (checksum bs initial)))) initial = 0xffff"
proof -
  let ?bs' = "patch bs off (u16_to_be_bytes (NOT (checksum bs initial)))"
  let ?n = "unat initial + sum16 bs"
  have "sum16 ?bs' = sum16 bs + (65535 - ones_sum ?n)"
    using assms by (simp add: sum16_field sum16_zero_field [of off bs] sum16_u16_to_be
        unat_not_u16 checksum_ones_sum)
  then have "unat (checksum ?bs' initial) = ones_sum (?n + (65535 - ones_sum ?n))"
    using assms by (simp add: checksum_ones_sum add.assoc)
  also have "\<dots> = unat (0xffff :: u16)" by (simp add: ones_sum_complement)
  finally show ?thesis by (rule word_unat_eq_iff [THEN iffD2])
qed

text \<open>
  The pseudo header of RFC 768/793/2460, as bytes; the code sums it without building it.
\<close>

definition pseudo_header :: "u8 \<Rightarrow> bytes \<Rightarrow> bytes \<Rightarrow> u16 \<Rightarrow> bytes" where
  "pseudo_header protocol src_addr dst_addr total_len =
     src_addr @ dst_addr @ [0, protocol] @ u16_to_be_bytes total_len"

lemma unat_pseudo_header:
  assumes "length src \<le> 16" "length dst \<le> 16"
  shows "unat (pseudo_header_checksum_no_fold protocol src dst total_len) =
           sum32 src + sum32 dst + sum32 ([0, protocol] @ u16_to_be_bytes total_len)"
    and "unat (pseudo_header_checksum_no_fold protocol src dst total_len) < 9223372036854775808"
proof -
  let ?l = "[0, protocol] @ u16_to_be_bytes total_len"
  have *: "sum32 bs \<le> 4294967296 * 5" if "length bs \<le> 16" for bs
  proof -
    from that have "length bs div 4 + 1 \<le> 5" by linarith
    then have "4294967296 * (length bs div 4 + 1) \<le> 4294967296 * 5" by (rule mult_le_mono2)
    with sum32_bound [of bs] show ?thesis by (rule order_trans)
  qed
  have b: "sum32 src \<le> 4294967296 * 5" "sum32 dst \<le> 4294967296 * 5" "sum32 ?l \<le> 4294967296 * 5"
    using assms by (intro *; simp)+
  then show "unat (pseudo_header_checksum_no_fold protocol src dst total_len) =
      sum32 src + sum32 dst + sum32 ?l"
    by (simp only: pseudo_header_checksum_no_fold_def Let_def unat_checksum_no_fold unat_0
        add_0_left)
  with b show "unat (pseudo_header_checksum_no_fold protocol src dst total_len) < 9223372036854775808"
    by linarith
qed

lemma ones_sum_pseudo_header:
  assumes "even (length src)" "even (length dst)" "length src \<le> 16" "length dst \<le> 16"
  shows "ones_sum (unat (pseudo_header_checksum_no_fold protocol src dst total_len) + n) =
         ones_sum (sum16 (pseudo_header protocol src dst total_len) + n)"
proof -
  let ?l = "[0, protocol] @ u16_to_be_bytes total_len"
  have "ones_sum (sum32 src + sum32 dst + sum32 ?l + n)
      = ones_sum (sum32 src + sum32 dst + sum16 ?l + n)"
    using ones_sum_sum32 [of "sum32 src + sum32 dst + n" ?l] by (simp only: ac_simps)
  also have "\<dots> = ones_sum (sum32 src + sum16 dst + sum16 ?l + n)"
    using ones_sum_sum32 [of "sum32 src + sum16 ?l + n" dst] by (simp only: ac_simps)
  also have "\<dots> = ones_sum (sum16 src + sum16 dst + sum16 ?l + n)"
    using ones_sum_sum32 [of "sum16 dst + sum16 ?l + n" src] by (simp only: ac_simps)
  also have "sum16 src + sum16 dst + sum16 ?l = sum16 (pseudo_header protocol src dst total_len)"
    using assms by (simp only: pseudo_header_def sum16_append_even add.assoc)
  finally show ?thesis using assms by (simp only: unat_pseudo_header(1))
qed

section \<open>\<open>gso_none_checksum\<close>\<close>

lemma gso_none_checksum_Ok:
  assumes "unat csum_start + unat csum_offset + 1 < length packet"
  shows "gso_none_checksum packet csum_start csum_offset =
     (let at = unat csum_start + unat csum_offset;
          initial = ucast (u16_from_be_bytes (packet ! at) (packet ! (at + 1)));
          zeroed = packet[at := 0, at + 1 := 0]
      in Ok (patch zeroed at
               (u16_to_be_bytes (NOT (checksum (drop (unat csum_start) zeroed) initial)))))"
  using assms by (simp add: gso_none_checksum_def Let_def res_simps be_access_Ok)

lemma drop_patch_shift:
  "k \<le> a \<Longrightarrow> a + length src \<le> length xs \<Longrightarrow> drop k (patch xs a src) = patch (drop k xs) (a - k) src"
  by (simp add: patch_def drop_take)

text \<open>
  C29. Offload packets that are not GSO but need a checksum: \<^verbatim>\<open>gso_none_checksum\<close> never panics
  once the bounds check has passed, keeps every byte outside the checksum field, and the
  bytes from \<^verbatim>\<open>csum_start\<close> on, summed with the partial checksum the kernel had left in the
  field, verify (the one's-complement sum is all ones), for a field at an even offset.
\<close>

theorem gso_none_checksum_verifies:
  assumes bound: "unat csum_start + unat csum_offset + 1 < length packet"
    and "even (unat csum_offset)" "length packet < 2 ^ 32"
    and at: "at = unat csum_start + unat csum_offset"
  shows "\<exists>packet'. gso_none_checksum packet csum_start csum_offset = Ok packet' \<and>
           length packet' = length packet \<and>
           (\<forall>i < length packet. i \<noteq> at \<longrightarrow> i \<noteq> at + 1 \<longrightarrow> packet' ! i = packet ! i) \<and>
           checksum (drop (unat csum_start) packet')
             (ucast (u16_from_be_bytes (packet ! at) (packet ! (at + 1)))) = 0xffff"
proof -
  let ?initial = "ucast (u16_from_be_bytes (packet ! at) (packet ! (at + 1))) :: u64"
  let ?z = "packet[at := 0, at + 1 := 0]"
  let ?v = "u16_to_be_bytes (NOT (checksum (drop (unat csum_start) ?z) ?initial))"
  let ?p = "patch ?z at ?v"
  have "gso_none_checksum packet csum_start csum_offset = Ok ?p"
    using bound by (simp only: gso_none_checksum_Ok Let_def flip: at)
  moreover have "length ?p = length packet" using bound at by simp
  moreover have "\<forall>i < length packet. i \<noteq> at \<longrightarrow> i \<noteq> at + 1 \<longrightarrow> ?p ! i = packet ! i"
    using bound at by (auto simp: patch_nth)
  moreover have "drop (unat csum_start) ?p =
      patch (drop (unat csum_start) ?z) (unat csum_offset) ?v"
    using bound at by (subst drop_patch_shift) auto
  moreover have "checksum (patch (drop (unat csum_start) ?z) (unat csum_offset) ?v) ?initial = 0xffff"
    using assms unat_u16_less [of "u16_from_be_bytes (packet ! at) (packet ! (at + 1))"]
    by (intro checksum_field_verifies) (auto simp: nth_list_update)
  ultimately show ?thesis by metis
qed


theorem gso_none_checksum_verifies_witness:
  "\<exists>packet'. gso_none_checksum [1, 2, 3, 4, 5] 0 2 = Ok packet' \<and>
     length packet' = length [1, 2, 3, 4, 5 :: u8] \<and>
     (\<forall>i < length [1, 2, 3, 4, 5 :: u8]. i \<noteq> 2 \<longrightarrow> i \<noteq> 2 + 1 \<longrightarrow> packet' ! i = [1, 2, 3, 4, 5] ! i) \<and>
     checksum (drop (unat (0 :: u16)) packet')
       (ucast (u16_from_be_bytes ([1, 2, 3, 4, 5] ! 2) ([1, 2, 3, 4, 5] ! (2 + 1)))) = 0xffff"
  by (rule gso_none_checksum_verifies) simp_all

text \<open>
  C26. The checksum routine, which adds 32-bit big-endian words into a 64-bit accumulator and
  folds until 16 bits are left, computes the one's-complement sum of 16-bit words of RFC 1071
  (end-around carry), for every slice below 4 GiB, odd lengths included.
\<close>

theorem checksum_is_rfc1071:
  assumes "length bs < 2 ^ 32" "unat initial < 2 ^ 63"
  shows "unat (checksum bs initial) = ones_sum (unat initial + sum16 bs)"
  using assms by (intro checksum_ones_sum) simp_all

theorem checksum_is_rfc1071_witness:
  "unat (checksum [0x45, 0, 0xff, 0xff, 1] 7) = ones_sum (7 + sum16 [0x45, 0, 0xff, 0xff, 1])"
  using checksum_is_rfc1071 [of "[0x45, 0, 0xff, 0xff, 1]" 7] by (simp del: sum16.simps)

end
