(* ===== verification/Packet.thy ===== *)
theory Packet
  imports Checksum
begin

text \<open>
  Received packets (\<^verbatim>\<open>src/src/core/packet.rs\<close>, \<^verbatim>\<open>Packet\<close>, \<^verbatim>\<open>PacketView\<close>, \<^verbatim>\<open>PacketBytes\<close>,
  \<^verbatim>\<open>RecycleCounter\<close>): ring-backed or owned bytes, the one-shot recycle handle, and the virtio
  header parsed on first use.

  A packet lives in a world \<open>'w\<close>: \<open>mem\<close> reads the byte memory of a world (ring buffers are
  read through raw pointers), and \<open>recyc t\<close> is what \<^verbatim>\<open>PacketRecycle::recycle\<close> of the handle
  \<open>t\<close> does to it.  \<open>VIRTIO_NET_HDR_LEN\<close> is a constant of the \<^verbatim>\<open>tun_rs\<close> crate and a parameter
  here (\<open>vhdr\<close>); the code reads the first ten bytes of the header.
\<close>

section \<open>Data\<close>

datatype GsoType = GsoNone | TcpV4 | TcpV6 | UdpL4 | GsoOther u8

record OffloadInfo =
  gso_type :: GsoType
  gso_size :: u16
  hdr_len :: u16
  csum_start :: u16
  csum_offset :: u16
  needs_csum :: bool

datatype PacketBytes = Owned bytes | Borrowed usize usize

text \<open>\<^verbatim>\<open>OnceLock<Option<OffloadInfo>>\<close> is an option that is set at most once.\<close>

record PacketView =
  payload_offset :: usize
  info_cell :: "OffloadInfo option option"

record 't Packet =
  packet_bytes :: PacketBytes
  packet_recycle :: "'t option"
  packet_view :: PacketView

definition VIRTIO_NET_HDR_F_NEEDS_CSUM :: u8 where "VIRTIO_NET_HDR_F_NEEDS_CSUM = 0x01"
definition VIRTIO_NET_HDR_GSO_ECN :: u8 where "VIRTIO_NET_HDR_GSO_ECN = 0x80"

section \<open>Bytes and views\<close>

text \<open>\<^verbatim>\<open>PacketBytes::raw_bytes\<close>: a borrowed buffer is read from memory at its address.\<close>

fun raw_bytes :: "(nat \<Rightarrow> u8) \<Rightarrow> PacketBytes \<Rightarrow> bytes" where
  "raw_bytes memory (Owned bs) = bs"
| "raw_bytes memory (Borrowed addr len) = map memory [addr ..< addr + len]"

fun detach_bytes :: "(nat \<Rightarrow> u8) \<Rightarrow> PacketBytes \<Rightarrow> PacketBytes" where
  "detach_bytes memory (Borrowed addr len) = Owned (raw_bytes memory (Borrowed addr len))"
| "detach_bytes memory (Owned bs) = Owned bs"

definition plain :: "OffloadInfo option \<Rightarrow> PacketView" where
  "plain info = \<lparr> payload_offset = 0, info_cell = map_option Some info \<rparr>"

definition virtio_net_hdr :: "usize \<Rightarrow> PacketView" where
  "virtio_net_hdr vhdr = \<lparr> payload_offset = vhdr, info_cell = None \<rparr>"

definition payload_bytes :: "PacketView \<Rightarrow> bytes \<Rightarrow> bytes" where
  "payload_bytes view raw =
     (if length raw < payload_offset view then [] else drop (payload_offset view) raw)"

text \<open>\<^verbatim>\<open>u16::from_ne_bytes\<close> on a little-endian target.\<close>

definition u16_from_ne_bytes :: "u8 \<Rightarrow> u8 \<Rightarrow> u16" where
  "u16_from_ne_bytes a b = of_nat (unat a + 256 * unat b)"

definition parse_gso_type :: "u8 \<Rightarrow> GsoType" where
  "parse_gso_type raw_gso_type =
     (let masked = raw_gso_type AND NOT VIRTIO_NET_HDR_GSO_ECN in
      if masked = 0 then GsoNone
      else if masked = 1 then TcpV4
      else if masked = 4 then TcpV6
      else if masked = 5 then UdpL4
      else GsoOther raw_gso_type)"

definition read_u16_ne :: "bytes \<Rightarrow> nat \<Rightarrow> u16 res" where
  "read_u16_ne raw i = bind_res (idx raw i) (\<lambda>a. bind_res (idx raw (i + 1)) (\<lambda>b.
     Ok (u16_from_ne_bytes a b)))"

definition parse_offload_info :: "usize \<Rightarrow> PacketView \<Rightarrow> bytes \<Rightarrow> OffloadInfo option res" where
  "parse_offload_info vhdr view raw =
     (if payload_offset view \<noteq> vhdr then Ok None
      else if length raw < vhdr then Ok None
      else
        bind_res (idx raw 0) (\<lambda>flags. bind_res (idx raw 1) (\<lambda>raw_gso_type.
        bind_res (read_u16_ne raw 2) (\<lambda>v_hdr_len. bind_res (read_u16_ne raw 4) (\<lambda>v_gso_size.
        bind_res (read_u16_ne raw 6) (\<lambda>v_csum_start. bind_res (read_u16_ne raw 8) (\<lambda>v_csum_offset.
          Ok (Some \<lparr> gso_type = parse_gso_type raw_gso_type,
                     gso_size = v_gso_size,
                     hdr_len = v_hdr_len,
                     csum_start = v_csum_start,
                     csum_offset = v_csum_offset,
                     needs_csum = (flags AND VIRTIO_NET_HDR_F_NEEDS_CSUM \<noteq> 0) \<rparr>))))))))"

text \<open>\<^verbatim>\<open>PacketView::offload_info\<close>: \<^verbatim>\<open>OnceLock::get_or_init\<close> on the cell.\<close>

definition view_offload_info ::
    "usize \<Rightarrow> PacketView \<Rightarrow> bytes \<Rightarrow> (PacketView \<times> OffloadInfo option) res" where
  "view_offload_info vhdr view raw =
     (case info_cell view of
        Some info \<Rightarrow> Ok (view, info)
      | None \<Rightarrow> map_res (\<lambda>info. (view\<lparr>info_cell := Some info\<rparr>, info))
                  (parse_offload_info vhdr view raw))"

section \<open>Packets\<close>

definition as_bytes :: "(nat \<Rightarrow> u8) \<Rightarrow> 't Packet \<Rightarrow> bytes" where
  "as_bytes memory p = raw_bytes memory (packet_bytes p)"

definition packet_len :: "(nat \<Rightarrow> u8) \<Rightarrow> 't Packet \<Rightarrow> nat" where
  "packet_len memory p = length (as_bytes memory p)"

definition is_empty :: "(nat \<Rightarrow> u8) \<Rightarrow> 't Packet \<Rightarrow> bool" where
  "is_empty memory p = (packet_len memory p = 0)"

definition is_detached :: "'t Packet \<Rightarrow> bool" where
  "is_detached p = (packet_recycle p = None)"

definition recycle_now :: "('t \<Rightarrow> 'w \<Rightarrow> 'w) \<Rightarrow> 't Packet \<Rightarrow> 'w \<Rightarrow> 't Packet \<times> 'w" where
  "recycle_now recyc p w =
     (case packet_recycle p of
        Some t \<Rightarrow> (p\<lparr>packet_recycle := None\<rparr>, recyc t w)
      | None \<Rightarrow> (p, w))"

definition detach ::
    "('w \<Rightarrow> nat \<Rightarrow> u8) \<Rightarrow> ('t \<Rightarrow> 'w \<Rightarrow> 'w) \<Rightarrow> 't Packet \<Rightarrow> 'w \<Rightarrow> 't Packet \<times> 'w" where
  "detach mem recyc p w =
     recycle_now recyc (p\<lparr>packet_bytes := detach_bytes (mem w) (packet_bytes p)\<rparr>) w"

definition drop_packet :: "('t \<Rightarrow> 'w \<Rightarrow> 'w) \<Rightarrow> 't Packet \<Rightarrow> 'w \<Rightarrow> 'w" where
  "drop_packet recyc p w = snd (recycle_now recyc p w)"

definition offload_info ::
    "usize \<Rightarrow> (nat \<Rightarrow> u8) \<Rightarrow> 't Packet \<Rightarrow> ('t Packet \<times> OffloadInfo option) res" where
  "offload_info vhdr memory p =
     map_res (\<lambda>(view, info). (p\<lparr>packet_view := view\<rparr>, info))
       (view_offload_info vhdr (packet_view p) (as_bytes memory p))"

definition is_gso :: "usize \<Rightarrow> (nat \<Rightarrow> u8) \<Rightarrow> 't Packet \<Rightarrow> bool res" where
  "is_gso vhdr memory p =
     map_res (\<lambda>(_, info). case info of None \<Rightarrow> False
                | Some i \<Rightarrow> gso_type i \<noteq> GsoNone \<and> gso_size i > 0)
       (offload_info vhdr memory p)"

definition from_owned :: "bytes \<Rightarrow> 't Packet" where
  "from_owned bs = \<lparr> packet_bytes = Owned bs, packet_recycle = None, packet_view = plain None \<rparr>"

definition from_recyclable :: "bytes \<Rightarrow> 't \<Rightarrow> OffloadInfo option \<Rightarrow> 't Packet" where
  "from_recyclable bs t info =
     \<lparr> packet_bytes = Owned bs, packet_recycle = Some t, packet_view = plain info \<rparr>"

definition from_ring :: "usize \<Rightarrow> usize \<Rightarrow> 't \<Rightarrow> OffloadInfo option \<Rightarrow> 't Packet" where
  "from_ring addr len t info =
     \<lparr> packet_bytes = Borrowed addr len, packet_recycle = Some t, packet_view = plain info \<rparr>"

definition from_ring_with_virtio_net_hdr :: "usize \<Rightarrow> usize \<Rightarrow> usize \<Rightarrow> 't \<Rightarrow> 't Packet" where
  "from_ring_with_virtio_net_hdr vhdr addr len t =
     \<lparr> packet_bytes = Borrowed addr len, packet_recycle = Some t,
       packet_view = virtio_net_hdr vhdr \<rparr>"

definition from_recyclable_with_virtio_net_hdr :: "usize \<Rightarrow> bytes \<Rightarrow> 't \<Rightarrow> 't Packet" where
  "from_recyclable_with_virtio_net_hdr vhdr bs t =
     \<lparr> packet_bytes = Owned bs, packet_recycle = Some t, packet_view = virtio_net_hdr vhdr \<rparr>"

text \<open>\<^verbatim>\<open>RecycleCounter\<close> and its tokens: a shared atomic counter that wraps at its width.\<close>

definition counter_new :: u64 where
  "counter_new = 0"

definition counter_load :: "u64 \<Rightarrow> u64" where
  "counter_load count = count"

definition token_recycle :: "unit \<Rightarrow> u64 \<Rightarrow> u64" where
  "token_recycle token count = count + 1"

lemmas packet_defs = as_bytes_def packet_len_def is_empty_def is_detached_def recycle_now_def
  detach_def drop_packet_def

lemmas packet_new_defs = from_owned_def from_recyclable_def from_ring_def
  from_ring_with_virtio_net_hdr_def from_recyclable_with_virtio_net_hdr_def plain_def
  virtio_net_hdr_def


section \<open>Detaching and dropping\<close>

lemma raw_bytes_detach [simp]: "raw_bytes memory' (detach_bytes memory b) = raw_bytes memory b"
  by (cases b) simp_all

lemma packet_recycle_detach [simp]: "packet_recycle (fst (detach mem recyc p w)) = None"
  by (simp add: packet_defs split: option.split)

lemma snd_detach:
  "snd (detach mem recyc p w) = (case packet_recycle p of Some t \<Rightarrow> recyc t w | None \<Rightarrow> w)"
  by (simp add: packet_defs split: option.split)

lemma drop_packet_eq:
  "drop_packet recyc p w = (case packet_recycle p of Some t \<Rightarrow> recyc t w | None \<Rightarrow> w)"
  by (simp add: packet_defs split: option.split)

text \<open>
  \<^verbatim>\<open>detach\<close> copies before it gives the slot back: whatever the world does afterwards (the
  kernel may refill the recycled buffer at once), the packet's bytes stay those it had when
  \<^verbatim>\<open>detach\<close> was called; the packet is detached and its view is unchanged.
\<close>

theorem detach_keeps_bytes:
  "detach mem recyc p w = (p', w') \<Longrightarrow>
   as_bytes memory' p' = as_bytes (mem w) p \<and> is_detached p' \<and> packet_view p' = packet_view p"
  by (auto simp: packet_defs split: option.splits)

theorem detach_keeps_bytes_witness:
  "as_bytes (\<lambda>_. 0) (fst (detach (\<lambda>w n. of_nat (n + w)) (\<lambda>t w. w + t) (from_ring 16 3 5 None) (7 :: nat)))
     = as_bytes (\<lambda>n. of_nat (n + 7)) (from_ring 16 3 (5 :: nat) None)
   \<and> is_detached (fst (detach (\<lambda>w n. of_nat (n + w)) (\<lambda>t w. w + t) (from_ring 16 3 5 None) (7 :: nat)))
   \<and> packet_view (fst (detach (\<lambda>w n. of_nat (n + w)) (\<lambda>t w. w + t) (from_ring 16 3 5 None) (7 :: nat)))
     = packet_view (from_ring 16 3 (5 :: nat) None)"
  by (rule detach_keeps_bytes [where w' = "12 :: nat"])
     (simp add: packet_defs packet_new_defs)

text \<open>
  A packet's life: detaches (\<open>None\<close>) and arbitrary changes of the world by everybody else
  (\<open>Some f\<close>), then the drop at the end of its scope.
\<close>

fun packet_life ::
    "('w \<Rightarrow> nat \<Rightarrow> u8) \<Rightarrow> ('t \<Rightarrow> 'w \<Rightarrow> 'w) \<Rightarrow> ('w \<Rightarrow> 'w) option list \<Rightarrow> 't Packet \<Rightarrow> 'w \<Rightarrow> 'w" where
  "packet_life mem recyc [] p w = drop_packet recyc p w"
| "packet_life mem recyc (None # es) p w =
     (let (p', w') = detach mem recyc p w in packet_life mem recyc es p' w')"
| "packet_life mem recyc (Some f # es) p w = packet_life mem recyc es p (f w)"

lemma packet_life_detached:
  assumes "packet_recycle p = None" "\<And>f w. Some f \<in> set es \<Longrightarrow> log (f w) = log w"
  shows "log (packet_life mem recyc es p w) = log w"
  using assms
proof (induction es arbitrary: p w)
  case (Cons e es)
  then show ?case
  proof (cases e)
    case None
    have "snd (detach mem recyc p w) = w" using Cons.prems(1) by (simp add: snd_detach)
    then show ?thesis
      using None Cons.IH [of "fst (detach mem recyc p w)" w] Cons.prems(2)
      by (simp add: Let_def split_beta)
  qed auto
qed (simp add: drop_packet_eq)

text \<open>
  The recycle handle of a packet is used exactly once over the packet's life, however
  often it is detached and whatever happens to the world in between: the log of recycled
  handles gains exactly one entry, the packet's own.
\<close>

theorem packet_recycles_exactly_once:
  assumes "packet_recycle p = Some t"
    and recyc: "\<And>t w. recycled (recyc t w) = recycled w @ [t]"
    and env: "\<And>f w. Some f \<in> set es \<Longrightarrow> recycled (f w) = recycled w"
  shows "recycled (packet_life mem recyc es p w) = recycled w @ [t]"
  using assms(1) env
proof (induction es arbitrary: w)
  case Nil
  then show ?case by (simp add: drop_packet_eq recyc)
next
  case (Cons e es)
  show ?case
  proof (cases e)
    case None
    have "recycled (packet_life mem recyc es (fst (detach mem recyc p w)) (recyc t w)) =
        recycled (recyc t w)"
      using Cons.prems(2) by (intro packet_life_detached) auto
    then show ?thesis
      using None Cons.prems(1) snd_detach [of mem recyc p w]
      by (simp add: Let_def split_beta recyc)
  next
    case (Some f)
    then show ?thesis using Cons.IH [of "f w"] Cons.prems by auto
  qed
qed

theorem packet_recycles_exactly_once_witness:
  "(packet_life (\<lambda>w n. 0) (\<lambda>t w. w @ [t]) [None, Some (\<lambda>w. w), None] (from_ring 16 3 5 None) [1])
     = [1] @ [5 :: nat]"
  by (rule packet_recycles_exactly_once [where recycled = "\<lambda>w. w"])
     (auto simp: packet_new_defs)

section \<open>The virtio header\<close>

text \<open>The wire layout the parser reads, as an encoder: the reference for the parser.\<close>

definition u16_to_ne_bytes :: "u16 \<Rightarrow> bytes" where
  "u16_to_ne_bytes v = [of_nat (unat v mod 256), of_nat (unat v div 256)]"

fun gso_code :: "GsoType \<Rightarrow> u8" where
  "gso_code GsoNone = 0"
| "gso_code TcpV4 = 1"
| "gso_code TcpV6 = 4"
| "gso_code UdpL4 = 5"
| "gso_code (GsoOther c) = c"

definition encode_virtio :: "u8 \<Rightarrow> OffloadInfo \<Rightarrow> bytes" where
  "encode_virtio ecn info =
     [if needs_csum info then 1 else 0, gso_code (gso_type info) OR ecn] @
     u16_to_ne_bytes (hdr_len info) @ u16_to_ne_bytes (gso_size info) @
     u16_to_ne_bytes (csum_start info) @ u16_to_ne_bytes (csum_offset info)"

lemma length_encode_virtio [simp]: "length (encode_virtio ecn info) = 10"
  by (simp add: encode_virtio_def u16_to_ne_bytes_def)

lemma u16_ne_roundtrip: "u16_from_ne_bytes (u16_to_ne_bytes v ! 0) (u16_to_ne_bytes v ! 1) = v"
proof -
  have "unat v div 256 < 256" using unat_u16_less [of v] by (simp add: less_mult_imp_div_less)
  then have "unat (of_nat (unat v mod 256) :: u8) + 256 * unat (of_nat (unat v div 256) :: u8) = unat v"
    by (simp only: unat_of_nat_u8 mod_less_divisor) simp
  then show ?thesis by (simp add: u16_to_ne_bytes_def u16_from_ne_bytes_def)
qed

lemma parse_gso_code:
  assumes "t \<in> {GsoNone, TcpV4, TcpV6, UdpL4}" "ecn \<in> {0, VIRTIO_NET_HDR_GSO_ECN}"
  shows "parse_gso_type (gso_code t OR ecn) = t"
  using assms by (auto simp: parse_gso_type_def VIRTIO_NET_HDR_GSO_ECN_def)


lemma read_u16_ne_Ok:
  "i + 1 < length raw \<Longrightarrow> read_u16_ne raw i = Ok (u16_from_ne_bytes (raw ! i) (raw ! (i + 1)))"
  by (simp add: read_u16_ne_def res_simps)

lemma parse_offload_info_Ok:
  assumes "10 \<le> vhdr"
  shows "\<exists>info. parse_offload_info vhdr view raw = Ok info"
proof (cases "length raw < vhdr")
  case False
  with assms have "9 < length raw" "raw \<noteq> []" by auto
  then show ?thesis by (simp add: parse_offload_info_def idx_def read_u16_ne_Ok)
qed (simp add: parse_offload_info_def)

lemma view_offload_info_Ok:
  assumes "10 \<le> vhdr"
  shows "\<exists>view' info. view_offload_info vhdr view raw = Ok (view', info)"
  using parse_offload_info_Ok [OF assms, of view raw]
  by (auto simp: view_offload_info_def split: option.split)

lemma parse_ring_packet:
  assumes "10 \<le> vhdr" "length pad = vhdr - 10"
    and "gso_type info \<in> {GsoNone, TcpV4, TcpV6, UdpL4}" "ecn \<in> {0, VIRTIO_NET_HDR_GSO_ECN}"
    and raw: "raw = encode_virtio ecn info @ pad @ payload"
    and ring: "map memory [addr ..< addr + length raw] = raw"
    and p: "p = from_ring_with_virtio_net_hdr vhdr addr (length raw) t"
  shows "map_res snd (offload_info vhdr memory p) = Ok (Some info) \<and>
         payload_bytes (packet_view p) (as_bytes memory p) = payload \<and>
         as_bytes memory p = raw"
proof -
  have bytes: "as_bytes memory p = raw" using ring by (simp add: p packet_defs packet_new_defs)
  have len: "length raw = vhdr + length payload"
    using assms(1,2) by (simp add: raw)
  then have "payload_bytes (packet_view p) raw = payload"
    using assms(1,2) by (simp add: p packet_new_defs payload_bytes_def raw)
  moreover have "parse_offload_info vhdr (packet_view p) raw = Ok (Some info)"
  proof -
    have "payload_offset (packet_view p) = vhdr" by (simp add: p packet_new_defs)
    moreover have "parse_gso_type (raw ! 1) = gso_type info"
      using parse_gso_code [OF assms(3,4)] by (simp add: raw encode_virtio_def)
    moreover have "u16_from_ne_bytes (raw ! 2) (raw ! 3) = hdr_len info"
      "u16_from_ne_bytes (raw ! 4) (raw ! 5) = gso_size info"
      "u16_from_ne_bytes (raw ! 6) (raw ! 7) = csum_start info"
      "u16_from_ne_bytes (raw ! 8) (raw ! 9) = csum_offset info"
      using u16_ne_roundtrip by (simp_all add: raw encode_virtio_def u16_to_ne_bytes_def)
    moreover have "(raw ! 0 AND VIRTIO_NET_HDR_F_NEEDS_CSUM \<noteq> 0) = needs_csum info"
      by (simp add: raw encode_virtio_def VIRTIO_NET_HDR_F_NEEDS_CSUM_def)
    ultimately show ?thesis
      using assms(1) len by (simp add: parse_offload_info_def res_simps read_u16_ne_Ok)
  qed
  moreover have "info_cell (packet_view p) = None" by (simp add: p packet_new_defs)
  ultimately show ?thesis by (simp add: bytes offload_info_def view_offload_info_def)
qed

text \<open>
  C30. Round trip of the virtio header: for every header length the device uses (at least the
  ten bytes the code reads), parsing the encoded header of a ring packet gives back every
  field, with or without the ECN bit set beside a known GSO type, and the payload view is the
  packet without the header while \<^verbatim>\<open>as_bytes\<close> still is the complete buffer.
\<close>

theorem virtio_header_roundtrip:
  assumes "10 \<le> vhdr" "length pad = vhdr - 10"
    and "gso_type info \<in> {GsoNone, TcpV4, TcpV6, UdpL4}" "ecn \<in> {0, VIRTIO_NET_HDR_GSO_ECN}"
    and raw: "raw = encode_virtio ecn info @ pad @ payload"
    and ring: "map memory [addr ..< addr + length raw] = raw"
    and p: "p = from_ring_with_virtio_net_hdr vhdr addr (length raw) t"
  shows "map_res snd (offload_info vhdr memory p) = Ok (Some info) \<and>
         payload_bytes (packet_view p) (as_bytes memory p) = payload \<and>
         as_bytes memory p = raw"
  by (rule parse_ring_packet [OF assms])

theorem virtio_header_roundtrip_witness:
  "let info = \<lparr> gso_type = UdpL4, gso_size = 1000, hdr_len = 28, csum_start = 20,
                csum_offset = 6, needs_csum = True \<rparr>;
       raw = encode_virtio 0x80 info @ [] @ [0x45, 0];
       memory = (\<lambda>n. if n < length raw then raw ! n else 0);
       p = from_ring_with_virtio_net_hdr 10 0 (length raw) (0 :: nat)
   in map_res snd (offload_info 10 memory p) = Ok (Some info) \<and>
      payload_bytes (packet_view p) (as_bytes memory p) = [0x45, 0] \<and> as_bytes memory p = raw"
  unfolding Let_def
  by (rule virtio_header_roundtrip [where pad = "[]" and ecn = "0x80" and addr = 0 and t = 0])
     (simp_all only: map_memory_of_list VIRTIO_NET_HDR_GSO_ECN_def, simp_all)

text \<open>
  The lazily parsed offload info is parsed at most once: once it has been read, later
  reads return the same value, even after the ring memory behind the packet has changed, and
  a packet that was detached in between answers the same.
\<close>

theorem offload_info_stable:
  assumes "offload_info vhdr memory p = Ok (p', info)"
  shows "offload_info vhdr memory' p' = Ok (p', info) \<and>
         offload_info vhdr memory' (fst (detach mem recyc p' w))
           = Ok (fst (detach mem recyc p' w), info)"
proof -
  from assms have "info_cell (packet_view p') = Some info"
    by (cases "view_offload_info vhdr (packet_view p) (as_bytes memory p)";
        cases "parse_offload_info vhdr (packet_view p) (as_bytes memory p)")
       (auto simp: offload_info_def view_offload_info_def split: option.splits)
  then show ?thesis
    by (auto simp: offload_info_def view_offload_info_def packet_defs split: option.splits)
qed

theorem offload_info_stable_witness:
  "let p = from_ring 16 3 (5 :: nat) None in
   offload_info 10 (\<lambda>_. 1) p = Ok (p\<lparr>packet_view := (plain None)\<lparr>info_cell := Some None\<rparr>\<rparr>, None) \<and>
   offload_info 10 (\<lambda>_. 2) (p\<lparr>packet_view := (plain None)\<lparr>info_cell := Some None\<rparr>\<rparr>)
     = Ok (p\<lparr>packet_view := (plain None)\<lparr>info_cell := Some None\<rparr>\<rparr>, None)"
proof -
  let ?p = "from_ring 16 3 (5 :: nat) None :: nat Packet"
  let ?p' = "?p\<lparr>packet_view := (plain None)\<lparr>info_cell := Some None\<rparr>\<rparr>"
  have "offload_info 10 (\<lambda>_. 1) ?p = Ok (?p', None)"
    by (simp add: offload_info_def view_offload_info_def packet_new_defs parse_offload_info_def)
  with offload_info_stable [OF this, of "\<lambda>_. 2" "\<lambda>_ _. 0" "\<lambda>_ w. w" "()"]
  show ?thesis by (simp add: Let_def)
qed

end
