(* ===== verification/Gso_Split.thy ===== *)
theory Gso_Split
  imports Packet
begin

text \<open>
  Splitting a received GSO packet into segments (\<^verbatim>\<open>Packet::split_into\<close>, \<open>copy_single_segment\<close>,
  \<open>split_gso_packet\<close>, \<open>validated_hdr_len\<close> and the bounds checks of
  \<^verbatim>\<open>src/src/core/packet.rs\<close>).

  The output buffers \<open>out\<close> and \<open>sizes\<close> are mutable slices: every operation returns them
  beside its result, so what an early error leaves behind is visible.  Integer arithmetic
  wraps (release build), slice accesses out of range are \<open>Panic\<close>.
\<close>

section \<open>Constants and checks\<close>

definition IPV4_SRC_ADDR_OFFSET :: nat where "IPV4_SRC_ADDR_OFFSET = 12"
definition IPV6_SRC_ADDR_OFFSET :: nat where "IPV6_SRC_ADDR_OFFSET = 8"
definition UDP_HEADER_LEN :: nat where "UDP_HEADER_LEN = 8"
definition TCP_FLAGS_OFFSET :: nat where "TCP_FLAGS_OFFSET = 13"
definition TCP_FLAG_FIN :: u8 where "TCP_FLAG_FIN = 0x01"
definition TCP_FLAG_PSH :: u8 where "TCP_FLAG_PSH = 0x08"
definition IPPROTO_TCP :: u8 where "IPPROTO_TCP = 6"
definition IPPROTO_UDP :: u8 where "IPPROTO_UDP = 17"

lemmas gso_const_defs = IPV4_SRC_ADDR_OFFSET_def IPV6_SRC_ADDR_OFFSET_def UDP_HEADER_LEN_def
  TCP_FLAGS_OFFSET_def TCP_FLAG_FIN_def TCP_FLAG_PSH_def IPPROTO_TCP_def IPPROTO_UDP_def

type_synonym out_state = "bytes list \<times> usize list"
type_synonym split_result = "out_state \<times> usize res"

definition ensure_output_slots :: "nat \<Rightarrow> nat \<Rightarrow> nat \<Rightarrow> unit res" where
  "ensure_output_slots out_len sizes_len required =
     (if out_len < required \<or> sizes_len < required
      then Err (Custom InvalidInput ''not enough output slots for split result'')
      else Ok ())"

definition validate_checksum_bounds :: "nat \<Rightarrow> u16 \<Rightarrow> u16 \<Rightarrow> unit res" where
  "validate_checksum_bounds len start offset =
     (let checksum_at = unat start + unat offset in
      if checksum_at + 1 \<ge> len
      then Err (Custom InvalidData ''checksum offset exceeds packet length'')
      else Ok ())"

definition copy_single_segment :: "bytes \<Rightarrow> out_state \<Rightarrow> nat \<Rightarrow> split_result" where
  "copy_single_segment packet st offset =
     (let (out, sizes) = st in
      case ensure_output_slots (length out) (length sizes) 1 of
        Err e \<Rightarrow> (st, Err e)
      | Panic \<Rightarrow> (st, Panic)
      | Ok _ \<Rightarrow>
          (case checked_add offset (length packet) of
             None \<Rightarrow> (st, Err (Custom InvalidInput ''offset overflow''))
           | Some required_len \<Rightarrow>
               if length (out ! 0) < required_len
               then (st, Err (Custom InvalidInput ''output buffer is too small for packet''))
               else ((out[0 := patch (out ! 0) offset packet], sizes[0 := length packet]), Ok 1)))"

definition validated_hdr_len :: "bytes \<Rightarrow> OffloadInfo \<Rightarrow> u8 \<Rightarrow> nat res" where
  "validated_hdr_len input info protocol =
     (let cs = unat (csum_start info) in
      if protocol = IPPROTO_UDP then
        (let hl = cs + UDP_HEADER_LEN in
         if length input < hl
         then Err (Custom InvalidData ''packet is shorter than udp header'')
         else bind_res (validate_checksum_bounds (length input) (csum_start info) (csum_offset info))
                (\<lambda>_. Ok hl))
      else if length input \<le> cs + 12 then
        Err (Custom InvalidData ''packet is too short for tcp gso metadata'')
      else
        bind_res (idx input (cs + 12)) (\<lambda>b.
          let tcp_hdr_len = unat (drop_bit 4 b) * 4 in
          if \<not> (20 \<le> tcp_hdr_len \<and> tcp_hdr_len \<le> 60)
          then Err (Custom InvalidData ''tcp header len is invalid'')
          else
            (let hl = cs + tcp_hdr_len in
             if length input < hl
             then Err (Custom InvalidData ''packet is shorter than tcp header'')
             else bind_res (validate_checksum_bounds (length input) (csum_start info) (csum_offset info))
                    (\<lambda>_. Ok hl))))"

section \<open>One segment\<close>

text \<open>The locals of \<^verbatim>\<open>split_gso_packet\<close> that its loop reads.\<close>

record gso_ctx =
  g_input :: bytes
  g_info :: OffloadInfo
  g_v6 :: bool
  g_protocol :: u8
  g_hdr_len :: nat
  g_payload_len :: nat
  g_segment_count :: nat
  g_src :: bytes
  g_dst :: bytes
  g_first_seq :: u32

definition g_cs :: "gso_ctx \<Rightarrow> nat" where "g_cs c = unat (csum_start (g_info c))"
definition g_gso :: "gso_ctx \<Rightarrow> nat" where "g_gso c = unat (gso_size (g_info c))"
definition g_csum_at :: "gso_ctx \<Rightarrow> nat" where
  "g_csum_at c = unat (csum_start (g_info c)) + unat (csum_offset (g_info c))"

definition segment_data_len :: "gso_ctx \<Rightarrow> nat \<Rightarrow> nat" where
  "segment_data_len c index = min (g_payload_len c - index * g_gso c) (g_gso c)"

definition segment_total_len :: "gso_ctx \<Rightarrow> nat \<Rightarrow> nat" where
  "segment_total_len c index = g_hdr_len c + segment_data_len c index"

text \<open>The three \<^verbatim>\<open>copy_from_slice\<close> calls that fill a segment from the input.\<close>

definition copy_parts :: "gso_ctx \<Rightarrow> nat \<Rightarrow> bytes \<Rightarrow> bytes res" where
  "copy_parts c index segment =
     (let cs = g_cs c; hl = g_hdr_len c; data_offset = hl + index * g_gso c;
          dl = segment_data_len c index; total_len = hl + dl in
      bind_res (slice (g_input c) 0 cs) (\<lambda>ip. bind_res (copy_into segment 0 cs ip) (\<lambda>segment.
      bind_res (slice (g_input c) cs hl) (\<lambda>tr. bind_res (copy_into segment cs hl tr) (\<lambda>segment.
      bind_res (slice (g_input c) data_offset (data_offset + dl)) (\<lambda>payload.
        copy_into segment hl total_len payload))))))"

text \<open>The IP header fields: payload length (IPv6), or identification, total length and
  header checksum (IPv4).\<close>

definition write_ip_fields :: "gso_ctx \<Rightarrow> nat \<Rightarrow> bytes \<Rightarrow> bytes res" where
  "write_ip_fields c index segment =
     (let total_len = segment_total_len c index in
      if g_v6 c then write_u16_be segment 4 (of_int (int total_len - 40))
      else
        bind_res (if index > 0
                  then bind_res (read_u16_be segment 4) (\<lambda>id.
                         write_u16_be segment 4 (id + of_nat index))
                  else Ok segment) (\<lambda>segment.
        bind_res (write_u16_be segment 2 (of_nat total_len)) (\<lambda>segment.
        bind_res (slice segment 0 (g_cs c)) (\<lambda>header.
          write_u16_be segment 10 (NOT (checksum header 0))))))"

text \<open>The transport header fields: sequence number and flags (TCP), or length (UDP).\<close>

definition write_transport_fields :: "gso_ctx \<Rightarrow> nat \<Rightarrow> bytes \<Rightarrow> bytes res" where
  "write_transport_fields c index segment =
     (let cs = g_cs c in
      if g_protocol c = IPPROTO_TCP then
        bind_res (write_u32_be segment (cs + 4)
                    (g_first_seq c + ucast (gso_size (g_info c)) * of_nat index)) (\<lambda>segment.
          if index + 1 \<noteq> g_segment_count c then
            bind_res (idx segment (cs + TCP_FLAGS_OFFSET)) (\<lambda>flags.
              put segment (cs + TCP_FLAGS_OFFSET) (flags AND NOT (TCP_FLAG_FIN OR TCP_FLAG_PSH)))
          else Ok segment)
      else write_u16_be segment (cs + 4)
             (of_nat (g_hdr_len c - cs + segment_data_len c index)))"

definition segment_pseudo_sum :: "gso_ctx \<Rightarrow> nat \<Rightarrow> u64" where
  "segment_pseudo_sum c index =
     pseudo_header_checksum_no_fold (g_protocol c) (g_src c) (g_dst c)
       (of_nat (g_hdr_len c - g_cs c + segment_data_len c index))"

definition write_transport_checksum :: "gso_ctx \<Rightarrow> nat \<Rightarrow> bytes \<Rightarrow> bytes res" where
  "write_transport_checksum c index segment =
     bind_res (slice segment (g_cs c) (segment_total_len c index)) (\<lambda>covered.
       write_u16_be segment (g_csum_at c) (NOT (checksum covered (segment_pseudo_sum c index))))"

definition build_segment :: "gso_ctx \<Rightarrow> nat \<Rightarrow> bytes \<Rightarrow> bytes res" where
  "build_segment c index segment =
     bind_res (copy_parts c index segment) (\<lambda>segment.
     bind_res (write_ip_fields c index segment) (\<lambda>segment.
     bind_res (write_transport_fields c index segment) (\<lambda>segment.
       write_transport_checksum c index segment)))"

section \<open>The loop and the packet\<close>

fun split_loop :: "gso_ctx \<Rightarrow> nat \<Rightarrow> nat list \<Rightarrow> out_state \<Rightarrow> split_result" where
  "split_loop c offset [] st = (st, Ok (g_segment_count c))"
| "split_loop c offset (index # rest) (out, sizes) =
     (let total_len = segment_total_len c index in
      case checked_add offset total_len of
        None \<Rightarrow> ((out, sizes), Err (Custom InvalidInput ''offset overflow''))
      | Some required_len \<Rightarrow>
          if length (out ! index) < required_len
          then ((out, sizes),
                Err (Custom InvalidInput ''output buffer is too small for gso segment''))
          else
            (case build_segment c index (take total_len (drop offset (out ! index))) of
               Ok segment \<Rightarrow>
                 split_loop c offset rest
                   (out[index := patch (out ! index) offset segment], sizes[index := total_len])
             | Err e \<Rightarrow> ((out, sizes), Err e)
             | Panic \<Rightarrow> ((out, sizes), Panic)))"

definition gso_is_v6 :: "bytes \<Rightarrow> bool res" where
  "gso_is_v6 input =
     (case input of
        [] \<Rightarrow> Err (Custom InvalidData ''packet is empty'')
      | first # _ \<Rightarrow>
          (let ip_version = drop_bit 4 first in
           if ip_version = 4 then Ok False
           else if ip_version = 6 then Ok True
           else Err (Custom InvalidData ''invalid ip header version'')))"

fun gso_protocol :: "GsoType \<Rightarrow> bool \<Rightarrow> u8 res" where
  "gso_protocol TcpV4 False = Ok IPPROTO_TCP"
| "gso_protocol TcpV6 True = Ok IPPROTO_TCP"
| "gso_protocol UdpL4 _ = Ok IPPROTO_UDP"
| "gso_protocol TcpV4 True = Err (Custom InvalidData ''gso type does not match packet ip version'')"
| "gso_protocol TcpV6 False = Err (Custom InvalidData ''gso type does not match packet ip version'')"
| "gso_protocol _ _ = Err (Custom InvalidInput ''unsupported gso type'')"

text \<open>\<^verbatim>\<open>payload_len.div_ceil(gso_size)\<close>; a zero \<^verbatim>\<open>gso_size\<close> never reaches this point.\<close>

definition div_ceil :: "nat \<Rightarrow> nat \<Rightarrow> nat" where
  "div_ceil a b = (if a mod b = 0 then a div b else a div b + 1)"

text \<open>Everything before the loop: the checks, the zeroed checksum fields, the addresses.\<close>

definition gso_prepare :: "bytes \<Rightarrow> OffloadInfo \<Rightarrow> nat \<Rightarrow> nat \<Rightarrow> gso_ctx res" where
  "gso_prepare input info out_len sizes_len =
     bind_res (gso_is_v6 input) (\<lambda>is_v6.
     bind_res (gso_protocol (gso_type info) is_v6) (\<lambda>protocol.
     bind_res (validated_hdr_len input info protocol) (\<lambda>hl.
     bind_res (if hl \<le> length input then Ok (length input - hl)
               else Err (Custom InvalidData ''packet is too short'')) (\<lambda>payload_len.
     let gso = unat (gso_size info);
         segment_count = (if payload_len = 0 then 0 else div_ceil payload_len gso) in
     bind_res (ensure_output_slots out_len sizes_len segment_count) (\<lambda>_.
     bind_res (if is_v6 then Ok input
               else bind_res (put input 10 0) (\<lambda>input. put input 11 0)) (\<lambda>input.
     let src_off = (if is_v6 then IPV6_SRC_ADDR_OFFSET else IPV4_SRC_ADDR_OFFSET);
         addr_len = (if is_v6 then 16 else 4);
         csum_at = unat (csum_start info) + unat (csum_offset info) in
     bind_res (put input csum_at 0) (\<lambda>input. bind_res (put input (csum_at + 1) 0) (\<lambda>input.
     bind_res (slice input src_off (src_off + addr_len)) (\<lambda>src.
     bind_res (slice input (src_off + addr_len) (src_off + 2 * addr_len)) (\<lambda>dst.
     bind_res (if protocol = IPPROTO_TCP then read_u32_be input (unat (csum_start info) + 4)
               else Ok 0) (\<lambda>first_seq.
       Ok \<lparr> g_input = input, g_info = info, g_v6 = is_v6, g_protocol = protocol,
            g_hdr_len = hl, g_payload_len = payload_len, g_segment_count = segment_count,
            g_src = src, g_dst = dst, g_first_seq = first_seq \<rparr>)))))))))))"

definition split_gso_packet :: "bytes \<Rightarrow> OffloadInfo \<Rightarrow> out_state \<Rightarrow> nat \<Rightarrow> split_result" where
  "split_gso_packet input info st offset =
     (case gso_prepare input info (length (fst st)) (length (snd st)) of
        Ok c \<Rightarrow> split_loop c offset [0 ..< g_segment_count c] st
      | Err e \<Rightarrow> (st, Err e)
      | Panic \<Rightarrow> (st, Panic))"

text \<open>\<^verbatim>\<open>Packet::split_into\<close>; the packet comes back with its offload info cached.\<close>

definition split_into ::
    "usize \<Rightarrow> (nat \<Rightarrow> u8) \<Rightarrow> 't Packet \<Rightarrow> out_state \<Rightarrow> nat \<Rightarrow> 't Packet \<times> split_result" where
  "split_into vhdr memory p st offset =
     (case offload_info vhdr memory p of
        Panic \<Rightarrow> (p, st, Panic)
      | Err e \<Rightarrow> (p, st, Err e)
      | Ok (p, None) \<Rightarrow> (p, st, Err (unsupported ''no offload info''))
      | Ok (p, Some info) \<Rightarrow>
          (let payload = payload_bytes (packet_view p) (as_bytes memory p) in
           if gso_type info = GsoNone \<or> gso_size info = 0 then
             (if needs_csum info then
                (case validate_checksum_bounds (length payload) (csum_start info) (csum_offset info) of
                   Err e \<Rightarrow> (p, st, Err e)
                 | Panic \<Rightarrow> (p, st, Panic)
                 | Ok _ \<Rightarrow>
                     (case gso_none_checksum payload (csum_start info) (csum_offset info) of
                        Err e \<Rightarrow> (p, st, Err e)
                      | Panic \<Rightarrow> (p, st, Panic)
                      | Ok copy \<Rightarrow> (p, copy_single_segment copy st offset)))
              else (p, copy_single_segment payload st offset))
           else (p, split_gso_packet payload info st offset)))"


section \<open>Well-formed splitting contexts\<close>

text \<open>
  What \<^verbatim>\<open>split_gso_packet\<close> has established when its loop starts on a GSO packet as the kernel
  hands it over: the transport header begins after a full IP header, the checksum field is
  where the protocol has it, and both checksum fields are zeroed.
\<close>

definition ctx_ok :: "gso_ctx \<Rightarrow> bool" where
  "ctx_ok c \<longleftrightarrow>
     length (g_input c) = g_hdr_len c + g_payload_len c \<and> length (g_input c) < 2 ^ 32 \<and>
     (if g_v6 c then 40 \<le> g_cs c \<and> length (g_src c) = 16 \<and> length (g_dst c) = 16
      else 20 \<le> g_cs c \<and> length (g_src c) = 4 \<and> length (g_dst c) = 4 \<and>
           g_input c ! 10 = 0 \<and> g_input c ! 11 = 0) \<and>
     (if g_protocol c = IPPROTO_TCP
      then g_cs c + 20 \<le> g_hdr_len c \<and> g_csum_at c = g_cs c + 16
      else g_cs c + 8 \<le> g_hdr_len c \<and> g_csum_at c = g_cs c + 6) \<and>
     g_input c ! g_csum_at c = 0 \<and> g_input c ! (g_csum_at c + 1) = 0 \<and>
     0 < g_gso c \<and>
     g_segment_count c = (if g_payload_len c = 0 then 0 else div_ceil (g_payload_len c) (g_gso c))"

definition segment_chunk :: "gso_ctx \<Rightarrow> nat \<Rightarrow> bytes" where
  "segment_chunk c index =
     take (segment_data_len c index) (drop (g_hdr_len c + index * g_gso c) (g_input c))"

definition segment_base :: "gso_ctx \<Rightarrow> nat \<Rightarrow> bytes" where
  "segment_base c index = take (g_hdr_len c) (g_input c) @ segment_chunk c index"

text \<open>Bytes outside a set of positions are kept.\<close>

definition same_except :: "nat set \<Rightarrow> bytes \<Rightarrow> bytes \<Rightarrow> bool" where
  "same_except A s s' \<longleftrightarrow> length s' = length s \<and> (\<forall>j < length s. j \<notin> A \<longrightarrow> s' ! j = s ! j)"

lemma same_except_refl: "same_except A s s"
  by (simp add: same_except_def)

lemma same_except_trans:
  "same_except A s s' \<Longrightarrow> same_except B s' s'' \<Longrightarrow> same_except (A \<union> B) s s''"
  by (auto simp: same_except_def)

lemma same_except_mono: "same_except A s s' \<Longrightarrow> A \<subseteq> B \<Longrightarrow> same_except B s s'"
  by (auto simp: same_except_def)

lemma same_except_patch:
  "a + length src \<le> length s \<Longrightarrow> {a ..< a + length src} \<subseteq> A \<Longrightarrow> same_except A s (patch s a src)"
  by (auto simp: same_except_def patch_nth subset_eq)

lemma same_except_update: "i \<in> A \<Longrightarrow> same_except A s (s[i := v])"
  by (auto simp: same_except_def) (metis nth_list_update_neq)

lemma same_except_length: "same_except A s s' \<Longrightarrow> length s' = length s"
  by (simp add: same_except_def)

lemma same_except_nth: "same_except A s s' \<Longrightarrow> j < length s \<Longrightarrow> j \<notin> A \<Longrightarrow> s' ! j = s ! j"
  by (simp add: same_except_def)

lemma same_except_drop:
  "same_except A s s' \<Longrightarrow> (\<And>j. j \<in> A \<Longrightarrow> j < n) \<Longrightarrow> drop n s' = drop n s"
proof (rule nth_equalityI)
  fix i
  assume same: "same_except A s s'" and A: "\<And>j. j \<in> A \<Longrightarrow> j < n" and i: "i < length (drop n s')"
  then have "n + i \<notin> A" by (meson not_add_less1)
  with same i show "drop n s' ! i = drop n s ! i" by (simp add: same_except_def)
qed (simp add: same_except_def)

lemma same_except_take:
  "same_except A s s' \<Longrightarrow> (\<And>j. j \<in> A \<Longrightarrow> n \<le> j) \<Longrightarrow> take n s' = take n s"
  by (rule nth_equalityI) (auto simp: same_except_def dest: leD)

section \<open>Chunks\<close>

lemma div_ceil_cover:
  assumes "0 < b"
  shows "n \<ge> div_ceil a b \<longleftrightarrow> a \<le> n * b"
proof -
  define q r where "q = a div b" and "r = a mod b"
  then have a: "a = q * b + r" and r: "r < b" and d: "div_ceil a b = (if r = 0 then q else q + 1)"
    using assms by (simp_all add: div_ceil_def)
  show ?thesis
  proof (cases "r = 0")
    case True
    then have "div_ceil a b = q" "a = q * b" using a d by simp_all
    then show ?thesis using assms by simp
  next
    case False
    have "q + 1 \<le> n \<longleftrightarrow> q * b + r \<le> n * b"
    proof
      assume "q + 1 \<le> n"
      then have "(q + 1) * b \<le> n * b" by (rule mult_le_mono1)
      with r show "q * b + r \<le> n * b" by simp
    next
      assume "q * b + r \<le> n * b"
      with False have "q * b < n * b" by linarith
      then show "q + 1 \<le> n" by simp
    qed
    with False d a show ?thesis by simp
  qed
qed

lemma div_ceil_bounds:
  assumes "0 < b" "i < div_ceil a b"
  shows "i * b < a" "a - i * b \<le> b \<longleftrightarrow> i + 1 = div_ceil a b"
proof -
  show lt: "i * b < a" using div_ceil_cover [OF assms(1), of a i] assms(2) by simp
  have "a - i * b \<le> b \<longleftrightarrow> a \<le> (i + 1) * b" using lt by auto
  also have "\<dots> \<longleftrightarrow> div_ceil a b \<le> i + 1" using div_ceil_cover [OF assms(1), of a "i + 1"] by simp
  finally show "a - i * b \<le> b \<longleftrightarrow> i + 1 = div_ceil a b" using assms(2) by auto
qed

lemma segment_in_input:
  assumes "ctx_ok c" "index < g_segment_count c"
  shows "g_hdr_len c + index * g_gso c + segment_data_len c index \<le> length (g_input c)"
    and "0 < segment_data_len c index"
proof -
  from assms have "index < div_ceil (g_payload_len c) (g_gso c)" and g: "0 < g_gso c"
    and l: "length (g_input c) = g_hdr_len c + g_payload_len c"
    by (auto simp: ctx_ok_def split: if_splits)
  then have "index * g_gso c < g_payload_len c" by (intro div_ceil_bounds(1))
  with g l show "g_hdr_len c + index * g_gso c + segment_data_len c index \<le> length (g_input c)"
    and "0 < segment_data_len c index"
    by (auto simp: segment_data_len_def)
qed

lemma length_segment_chunk:
  "ctx_ok c \<Longrightarrow> index < g_segment_count c \<Longrightarrow> length (segment_chunk c index) = segment_data_len c index"
  using segment_in_input(1) [of c index] by (simp add: segment_chunk_def)

lemma length_segment_base:
  "ctx_ok c \<Longrightarrow> index < g_segment_count c \<Longrightarrow> length (segment_base c index) = segment_total_len c index"
  using segment_in_input(1) [of c index]
  by (simp add: segment_base_def length_segment_chunk segment_total_len_def)

text \<open>The chunks of a packet, in order, are its payload.\<close>

lemma concat_chunks_upto:
  assumes "ctx_ok c" "n \<le> g_segment_count c"
  shows "concat (map (segment_chunk c) [0 ..< n]) =
           take (n * g_gso c) (drop (g_hdr_len c) (g_input c))"
  using assms(2)
proof (induction n)
  case (Suc n)
  let ?p = "drop (g_hdr_len c) (g_input c)"
  have "segment_chunk c n = take (g_gso c) (drop (n * g_gso c) ?p)"
    using assms(1) by (auto simp: segment_chunk_def segment_data_len_def ctx_ok_def min_def add.commute)
  moreover have "take (Suc n * g_gso c) ?p = take (n * g_gso c) ?p @ take (g_gso c) (drop (n * g_gso c) ?p)"
    by (metis add.commute mult_Suc take_add)
  ultimately show ?case using Suc by simp
qed simp

lemma concat_chunks:
  assumes "ctx_ok c"
  shows "concat (map (segment_chunk c) [0 ..< g_segment_count c]) = drop (g_hdr_len c) (g_input c)"
proof (cases "g_payload_len c = 0")
  case True
  with assms show ?thesis by (simp add: ctx_ok_def split: if_splits)
next
  case False
  then have n: "g_segment_count c = div_ceil (g_payload_len c) (g_gso c)" and g: "0 < g_gso c"
    using assms by (auto simp: ctx_ok_def split: if_splits)
  have "g_payload_len c \<le> div_ceil (g_payload_len c) (g_gso c) * g_gso c"
    using div_ceil_cover [OF g, of "g_payload_len c" "div_ceil (g_payload_len c) (g_gso c)"] by simp
  then show ?thesis
    using concat_chunks_upto [OF assms order_refl] assms by (simp add: n ctx_ok_def)
qed


section \<open>Building one segment\<close>

lemma read_u16_be_patch:
  "a + 2 \<le> length s \<Longrightarrow> read_u16_be (patch s a (u16_to_be_bytes v)) a = Ok v"
  by (rule read_write_u16_be [where bs = s]) (simp_all add: write_u16_be_Ok)

lemma read_u32_be_patch:
  assumes "a + 4 \<le> length s"
  shows "read_u32_be (patch s a (u32_to_be_bytes v)) a = Ok v"
proof -
  have "patch s a (u32_to_be_bytes v) ! (a + k) = u32_to_be_bytes v ! k" if "k < 4" for k
    using assms that by (simp add: patch_nth)
  from this [of 0] this [of 1] this [of 2] this [of 3] show ?thesis
    using assms by (simp add: read_u32_be_Ok u32_be_roundtrip [simplified])
qed

lemma read_u16_be_same:
  "same_except A s s' \<Longrightarrow> a + 1 < length s \<Longrightarrow> a \<notin> A \<Longrightarrow> a + 1 \<notin> A \<Longrightarrow>
   read_u16_be s' a = read_u16_be s a"
  by (simp add: read_u16_be_Ok same_except_length same_except_nth)

lemma read_u32_be_same:
  "same_except A s s' \<Longrightarrow> a + 3 < length s \<Longrightarrow> A \<inter> {a ..< a + 4} = {} \<Longrightarrow>
   read_u32_be s' a = read_u32_be s a"
proof -
  assume same: "same_except A s s'" and len: "a + 3 < length s" and A: "A \<inter> {a ..< a + 4} = {}"
  have "s' ! (a + k) = s ! (a + k)" if "k < 4" for k
    using that len A by (intro same_except_nth [OF same]) auto
  from this [of 0] this [of 1] this [of 2] this [of 3] show ?thesis
    using len by (simp add: read_u32_be_Ok same_except_length [OF same])
qed

lemma copy_parts_Ok:
  assumes c: "ctx_ok c" and i: "index < g_segment_count c"
    and len: "length part = segment_total_len c index"
  shows "copy_parts c index part = Ok (segment_base c index)"
proof -
  let ?in = "g_input c" and ?cs = "g_cs c" and ?hl = "g_hdr_len c" and ?dl = "segment_data_len c index"
  have le: "?cs \<le> ?hl" "?hl \<le> length ?in" using c by (auto simp: ctx_ok_def split: if_splits)
  have fit: "?hl + index * g_gso c + ?dl \<le> length ?in" using segment_in_input(1) [OF c i] .
  have p: "length part = ?hl + ?dl" using len by (simp add: segment_total_len_def)
  let ?A = "take ?cs ?in" and ?B = "take (?hl - ?cs) (drop ?cs ?in)"
  have AB: "?A @ ?B = take ?hl ?in" using le by (metis append_take_drop_id le_add_diff_inverse
        take_add)
  have A: "length ?A = ?cs" and B: "length ?B = ?hl - ?cs" using le by simp_all
  from A have 1: "patch part 0 ?A = ?A @ drop ?cs part" by (simp add: patch_def)
  have 2: "patch (?A @ drop ?cs part) ?cs ?B = take ?hl ?in @ drop ?hl part"
    using le A B AB by (simp add: patch_def)
  have 3: "patch (take ?hl ?in @ drop ?hl part) ?hl (segment_chunk c index) = segment_base c index"
    using le p length_segment_chunk [OF c i] by (simp add: patch_def min_def segment_base_def)
  show ?thesis
    using le fit p length_segment_chunk [OF c i]
    by (simp add: copy_parts_def Let_def res_simps 1 2 3 flip: segment_chunk_def)
qed

lemma write_ip_fields_v6:
  assumes "g_v6 c" "40 \<le> length s" "40 \<le> segment_total_len c index"
  shows "\<exists>s'. write_ip_fields c index s = Ok s' \<and> same_except {4, 5} s s' \<and>
           read_u16_be s' 4 = Ok (of_nat (segment_total_len c index - 40))"
proof -
  have "(of_int (int (segment_total_len c index) - 40) :: u16) =
      of_nat (segment_total_len c index - 40)"
    using assms(3) by (metis of_int_of_nat_eq of_nat_diff of_nat_numeral)
  moreover have "same_except {4, 5} s (patch s 4 (u16_to_be_bytes v))" for v
    using assms(2) by (intro same_except_patch) auto
  ultimately show ?thesis
    using assms by (auto simp: write_ip_fields_def Let_def write_u16_be_Ok read_u16_be_patch)
qed

lemma write_ip_fields_v4:
  assumes "\<not> g_v6 c" "20 \<le> g_cs c" "g_cs c \<le> length s" "length s < 4294967296"
    and "s ! 10 = 0" "s ! 11 = 0" and ident: "read_u16_be s 4 = Ok ident"
  shows "\<exists>s'. write_ip_fields c index s = Ok s' \<and> same_except ({2 ..< 6} \<union> {10, 11}) s s' \<and>
           read_u16_be s' 2 = Ok (of_nat (segment_total_len c index)) \<and>
           read_u16_be s' 4 = Ok (ident + of_nat index) \<and>
           checksum (take (g_cs c) s') 0 = 0xffff"
proof -
  define s1 where "s1 = (if index > 0 then patch s 4 (u16_to_be_bytes (ident + of_nat index)) else s)"
  define s2 where "s2 = patch s1 2 (u16_to_be_bytes (of_nat (segment_total_len c index)))"
  define s3 where "s3 = patch s2 10 (u16_to_be_bytes (NOT (checksum (take (g_cs c) s2) 0)))"
  have e1: "same_except {4, 5} s s1"
    using assms by (auto simp: s1_def same_except_refl intro!: same_except_patch)
  then have l1: "length s1 = length s" by (rule same_except_length)
  have e2: "same_except {2, 3} s1 s2"
    unfolding s2_def using assms l1 by (intro same_except_patch) auto
  then have l2: "length s2 = length s" using l1 same_except_length by metis
  have e3: "same_except {10, 11} s2 s3"
    unfolding s3_def using assms l2 by (intro same_except_patch) auto
  have run: "write_ip_fields c index s = Ok s3"
    using assms l1 l2
    by (simp add: write_ip_fields_def Let_def write_u16_be_Ok res_simps s3_def s2_def s1_def)
  have "same_except ({2 ..< 6} \<union> {10, 11}) s s3"
    by (rule same_except_mono [OF same_except_trans [OF same_except_trans [OF e1 e2] e3]]) auto
  moreover have "read_u16_be s3 2 = Ok (of_nat (segment_total_len c index))"
  proof -
    have "read_u16_be s3 2 = read_u16_be s2 2"
      using assms l2 by (intro read_u16_be_same [OF e3]) auto
    then show ?thesis using assms l1 by (simp add: s2_def read_u16_be_patch)
  qed
  moreover have "read_u16_be s3 4 = Ok (ident + of_nat index)"
  proof -
    have "read_u16_be s3 4 = read_u16_be s2 4"
      using assms l2 by (intro read_u16_be_same [OF e3]) auto
    also have "\<dots> = read_u16_be s1 4"
      using assms l1 by (intro read_u16_be_same [OF e2]) auto
    also have "\<dots> = Ok (ident + of_nat index)"
      using assms by (simp add: s1_def read_u16_be_patch)
    finally show ?thesis .
  qed
  moreover have "checksum (take (g_cs c) s3) 0 = 0xffff"
  proof -
    let ?h = "take (g_cs c) s2"
    have "s2 ! 10 = 0" "s2 ! 11 = 0"
      using e1 e2 assms l1 by (simp_all add: same_except_nth)
    moreover have "take (g_cs c) s3 = patch ?h 10 (u16_to_be_bytes (NOT (checksum ?h 0)))"
      using assms l2 by (simp add: s3_def patch_def take_drop min_def)
    ultimately show ?thesis
      using assms l2 checksum_field_verifies [of 10 ?h 0] by (simp add: min_def)
  qed
  ultimately show ?thesis using run by blast
qed

lemma write_transport_fields_tcp:
  assumes "g_protocol c = IPPROTO_TCP" "g_cs c + 20 \<le> length s"
  shows "\<exists>s'. write_transport_fields c index s = Ok s' \<and>
           same_except ({g_cs c + 4 ..< g_cs c + 8} \<union> {g_cs c + 13}) s s' \<and>
           read_u32_be s' (g_cs c + 4) =
             Ok (g_first_seq c + ucast (gso_size (g_info c)) * of_nat index) \<and>
           s' ! (g_cs c + 13) =
             (if index + 1 = g_segment_count c then s ! (g_cs c + 13)
              else s ! (g_cs c + 13) AND NOT (TCP_FLAG_FIN OR TCP_FLAG_PSH))"
proof -
  let ?cs = "g_cs c"
  let ?seq = "g_first_seq c + ucast (gso_size (g_info c)) * of_nat index"
  define s1 where "s1 = patch s (?cs + 4) (u32_to_be_bytes ?seq)"
  define s2 where "s2 = (if index + 1 = g_segment_count c then s1
    else s1[?cs + 13 := s1 ! (?cs + 13) AND NOT (TCP_FLAG_FIN OR TCP_FLAG_PSH)])"
  have e1: "same_except {?cs + 4 ..< ?cs + 8} s s1"
    unfolding s1_def using assms by (intro same_except_patch) auto
  then have l1: "length s1 = length s" by (rule same_except_length)
  have e2: "same_except {?cs + 13} s1 s2"
    by (simp add: s2_def same_except_refl same_except_update)
  have "write_transport_fields c index s = Ok s2"
    using assms l1
    by (simp add: write_transport_fields_def Let_def write_u32_be_Ok res_simps TCP_FLAGS_OFFSET_def
        s2_def s1_def)
  moreover have "read_u32_be s2 (?cs + 4) = Ok ?seq"
  proof -
    have "read_u32_be s2 (?cs + 4) = read_u32_be s1 (?cs + 4)"
      using assms l1 by (intro read_u32_be_same [OF e2]) auto
    then show ?thesis using assms by (simp add: s1_def read_u32_be_patch)
  qed
  moreover have "s1 ! (?cs + 13) = s ! (?cs + 13)"
    using assms by (intro same_except_nth [OF e1]) auto
  ultimately show ?thesis
    using same_except_trans [OF e1 e2] assms l1 by (auto simp: s2_def)
qed

lemma write_transport_fields_udp:
  assumes "g_protocol c \<noteq> IPPROTO_TCP" "g_cs c + 8 \<le> length s"
  shows "\<exists>s'. write_transport_fields c index s = Ok s' \<and>
           same_except {g_cs c + 4, g_cs c + 5} s s' \<and>
           read_u16_be s' (g_cs c + 4) =
             Ok (of_nat (g_hdr_len c - g_cs c + segment_data_len c index))"
proof -
  have "same_except {g_cs c + 4, g_cs c + 5} s (patch s (g_cs c + 4) (u16_to_be_bytes v))" for v
    using assms(2) by (intro same_except_patch) auto
  then show ?thesis
    using assms by (simp add: write_transport_fields_def Let_def write_u16_be_Ok read_u16_be_patch)
qed

lemma write_transport_checksum_Ok:
  assumes "length s = segment_total_len c index" "g_csum_at c + 2 \<le> length s"
    and "even (g_csum_at c - g_cs c)" "g_cs c \<le> g_csum_at c"
    and "s ! g_csum_at c = 0" "s ! (g_csum_at c + 1) = 0"
    and "length s < 4294967296" "length (g_src c) \<le> 16" "length (g_dst c) \<le> 16"
  shows "\<exists>s'. write_transport_checksum c index s = Ok s' \<and>
           same_except {g_csum_at c, g_csum_at c + 1} s s' \<and>
           checksum (drop (g_cs c) s') (segment_pseudo_sum c index) = 0xffff"
proof -
  let ?cov = "drop (g_cs c) s" and ?off = "g_csum_at c - g_cs c"
  let ?ps = "segment_pseudo_sum c index"
  define s' where "s' = patch s (g_csum_at c) (u16_to_be_bytes (NOT (checksum ?cov ?ps)))"
  have "write_transport_checksum c index s = Ok s'"
    using assms by (simp add: write_transport_checksum_def res_simps write_u16_be_Ok s'_def)
  moreover have "same_except {g_csum_at c, g_csum_at c + 1} s s'"
    unfolding s'_def using assms by (intro same_except_patch) auto
  moreover have "drop (g_cs c) s' = patch ?cov ?off (u16_to_be_bytes (NOT (checksum ?cov ?ps)))"
    unfolding s'_def using assms by (subst drop_patch_shift) auto
  moreover have "unat ?ps < 9223372036854775808"
    using assms(8,9) by (simp only: segment_pseudo_sum_def unat_pseudo_header(2))
  ultimately show ?thesis
    using assms checksum_field_verifies [of ?off ?cov ?ps] by (intro exI [of _ s']) simp
qed


text \<open>What a finished segment is: its place in the payload, its header fields, its checksums.\<close>

definition rewritten :: "gso_ctx \<Rightarrow> nat set" where
  "rewritten c =
     (if g_v6 c then {4, 5} else {2 ..< 6} \<union> {10, 11}) \<union>
     (if g_protocol c = IPPROTO_TCP then {g_cs c + 4 ..< g_cs c + 8} \<union> {g_cs c + 13}
      else {g_cs c + 4, g_cs c + 5}) \<union> {g_csum_at c, g_csum_at c + 1}"

definition ip_fields_ok :: "gso_ctx \<Rightarrow> nat \<Rightarrow> bytes \<Rightarrow> bool" where
  "ip_fields_ok c index seg \<longleftrightarrow>
     (if g_v6 c then read_u16_be seg 4 = Ok (of_nat (segment_total_len c index - 40))
      else read_u16_be seg 2 = Ok (of_nat (segment_total_len c index)) \<and>
           read_u16_be seg 4 = map_res (\<lambda>ident. ident + of_nat index) (read_u16_be (g_input c) 4) \<and>
           checksum (take (g_cs c) seg) 0 = 0xffff)"

definition transport_fields_ok :: "gso_ctx \<Rightarrow> nat \<Rightarrow> bytes \<Rightarrow> bool" where
  "transport_fields_ok c index seg \<longleftrightarrow>
     (if g_protocol c = IPPROTO_TCP
      then read_u32_be seg (g_cs c + 4) =
             Ok (g_first_seq c + ucast (gso_size (g_info c)) * of_nat index) \<and>
           seg ! (g_cs c + 13) =
             (if index + 1 = g_segment_count c then g_input c ! (g_cs c + 13)
              else g_input c ! (g_cs c + 13) AND NOT (TCP_FLAG_FIN OR TCP_FLAG_PSH))
      else read_u16_be seg (g_cs c + 4) =
             Ok (of_nat (g_hdr_len c - g_cs c + segment_data_len c index)))"

definition segment_ok :: "gso_ctx \<Rightarrow> nat \<Rightarrow> bytes \<Rightarrow> bool" where
  "segment_ok c index seg \<longleftrightarrow>
     length seg = segment_total_len c index \<and>
     drop (g_hdr_len c) seg = segment_chunk c index \<and>
     same_except (rewritten c) (segment_base c index) seg \<and>
     ip_fields_ok c index seg \<and> transport_fields_ok c index seg \<and>
     checksum (drop (g_cs c) seg) (segment_pseudo_sum c index) = 0xffff"

lemma ctx_ok_layout:
  assumes "ctx_ok c"
  shows "20 \<le> g_cs c" "g_cs c + 8 \<le> g_hdr_len c" "g_hdr_len c \<le> length (g_input c)"
    "g_cs c + 6 \<le> g_csum_at c" "g_csum_at c + 2 \<le> g_hdr_len c" "even (g_csum_at c - g_cs c)"
    "length (g_src c) \<le> 16" "length (g_dst c) \<le> 16"
    "g_v6 c \<Longrightarrow> 40 \<le> g_cs c" "\<not> g_v6 c \<Longrightarrow> g_input c ! 10 = 0 \<and> g_input c ! 11 = 0"
    "g_protocol c = IPPROTO_TCP \<Longrightarrow> g_cs c + 20 \<le> g_hdr_len c"
    "g_protocol c = IPPROTO_TCP \<Longrightarrow> g_csum_at c = g_cs c + 16"
    "g_protocol c \<noteq> IPPROTO_TCP \<Longrightarrow> g_csum_at c = g_cs c + 6"
    "g_input c ! g_csum_at c = 0" "g_input c ! (g_csum_at c + 1) = 0"
  using assms by (auto simp: ctx_ok_def split: if_splits)

lemma segment_base_nth:
  "ctx_ok c \<Longrightarrow> j < g_hdr_len c \<Longrightarrow> segment_base c index ! j = g_input c ! j"
  using ctx_ok_layout(3) [of c] by (simp add: segment_base_def nth_append)

lemma read_base:
  assumes "ctx_ok c" "index < g_segment_count c" "a + 1 < g_hdr_len c"
  shows "read_u16_be (segment_base c index) a = read_u16_be (g_input c) a"
  using assms ctx_ok_layout(3) [OF assms(1)] length_segment_base [OF assms(1,2)]
  by (simp add: read_u16_be_Ok segment_base_nth segment_total_len_def)

lemma total_len_bound:
  assumes "ctx_ok c" "index < g_segment_count c"
  shows "segment_total_len c index < 4294967296" "g_hdr_len c \<le> segment_total_len c index"
  using segment_in_input(1) [OF assms] assms(1) by (auto simp: segment_total_len_def ctx_ok_def)

lemma write_ip_fields_ok:
  assumes c: "ctx_ok c" and i: "index < g_segment_count c"
  shows "\<exists>s. write_ip_fields c index (segment_base c index) = Ok s \<and> ip_fields_ok c index s \<and>
           same_except (if g_v6 c then {4, 5} else {2 ..< 6} \<union> {10, 11}) (segment_base c index) s"
proof -
  let ?b = "segment_base c index"
  note lay = ctx_ok_layout [OF c] and len = length_segment_base [OF c i]
    and tot = total_len_bound [OF c i]
  show ?thesis
  proof (cases "g_v6 c")
    case True
    with lay(9) have "40 \<le> g_cs c" by simp
    with True lay len tot show ?thesis
      using write_ip_fields_v6 [of c ?b index] by (auto simp: ip_fields_ok_def)
  next
    case False
    have z: "?b ! 10 = 0" "?b ! 11 = 0"
      using lay(1,2,10) False segment_base_nth [OF c, of _ index] by simp_all
    have r: "read_u16_be ?b 4 = read_u16_be (g_input c) 4"
      using lay(1,2) by (intro read_base [OF c i]) simp
    have "\<exists>ident. read_u16_be (g_input c) 4 = Ok ident"
      using lay(1-3) by (simp add: read_u16_be_Ok)
    then obtain ident where "read_u16_be (g_input c) 4 = Ok ident" ..
    with False lay len tot z r show ?thesis
      using write_ip_fields_v4 [of c ?b ident index] by (auto simp: ip_fields_ok_def)
  qed
qed

lemma write_transport_fields_ok:
  assumes c: "ctx_ok c" and len: "length s = segment_total_len c index" and i: "index < g_segment_count c"
    and same: "g_protocol c = IPPROTO_TCP \<Longrightarrow> s ! (g_cs c + 13) = g_input c ! (g_cs c + 13)"
  shows "\<exists>s'. write_transport_fields c index s = Ok s' \<and> transport_fields_ok c index s' \<and>
           same_except (if g_protocol c = IPPROTO_TCP then {g_cs c + 4 ..< g_cs c + 8} \<union> {g_cs c + 13}
                        else {g_cs c + 4, g_cs c + 5}) s s'"
proof (cases "g_protocol c = IPPROTO_TCP")
  case True
  then show ?thesis
    using ctx_ok_layout(11) [OF c] total_len_bound(2) [OF c i] same
      write_transport_fields_tcp [of c s index]
    by (auto simp: transport_fields_ok_def len)
next
  case False
  then show ?thesis
    using ctx_ok_layout(2) [OF c] total_len_bound(2) [OF c i] write_transport_fields_udp [of c s index]
    by (auto simp: transport_fields_ok_def len)
qed

lemma ip_fields_kept:
  assumes c: "ctx_ok c" and i: "index < g_segment_count c"
    and len: "length s = segment_total_len c index"
    and same: "same_except A s s'" "\<And>j. j \<in> A \<Longrightarrow> g_cs c \<le> j"
  shows "ip_fields_ok c index s' \<longleftrightarrow> ip_fields_ok c index s"
proof -
  note lay = ctx_ok_layout [OF c] and tot = total_len_bound [OF c i]
  have "read_u16_be s' a = read_u16_be s a" if "a \<in> {2, 4}" for a
    using that lay(1,2) tot len same(2) [of a] same(2) [of "a + 1"]
    by (intro read_u16_be_same [OF same(1)]) auto
  moreover have "take (g_cs c) s' = take (g_cs c) s" using same by (rule same_except_take)
  ultimately show ?thesis by (simp add: ip_fields_ok_def)
qed

lemma transport_fields_kept:
  assumes c: "ctx_ok c" and i: "index < g_segment_count c"
    and len: "length s = segment_total_len c index"
    and same: "same_except {g_csum_at c, g_csum_at c + 1} s s'"
  shows "transport_fields_ok c index s' \<longleftrightarrow> transport_fields_ok c index s"
proof -
  note lay = ctx_ok_layout [OF c] and tot = total_len_bound [OF c i]
  show ?thesis
  proof (cases "g_protocol c = IPPROTO_TCP")
    case True
    then have at: "g_csum_at c = g_cs c + 16" "g_cs c + 20 \<le> g_hdr_len c" using lay(11,12) by simp_all
    have "read_u32_be s' (g_cs c + 4) = read_u32_be s (g_cs c + 4)"
      using at tot len by (intro read_u32_be_same [OF same]) auto
    moreover have "s' ! (g_cs c + 13) = s ! (g_cs c + 13)"
      using at tot len by (intro same_except_nth [OF same]) auto
    ultimately show ?thesis using True by (simp add: transport_fields_ok_def)
  next
    case False
    then have at: "g_csum_at c = g_cs c + 6" using lay(13) by simp
    have "read_u16_be s' (g_cs c + 4) = read_u16_be s (g_cs c + 4)"
      using at lay(2) tot len by (intro read_u16_be_same [OF same]) auto
    with False show ?thesis by (simp add: transport_fields_ok_def)
  qed
qed

lemma build_segment_Ok:
  assumes c: "ctx_ok c" and i: "index < g_segment_count c"
    and len: "length part = segment_total_len c index"
  shows "\<exists>seg. build_segment c index part = Ok seg \<and> segment_ok c index seg"
proof -
  let ?b = "segment_base c index"
  let ?I = "if g_v6 c then {4, 5} else {2 ..< 6} \<union> {10, 11 :: nat}"
  let ?T = "if g_protocol c = IPPROTO_TCP then {g_cs c + 4 ..< g_cs c + 8} \<union> {g_cs c + 13}
            else {g_cs c + 4, g_cs c + 5}"
  let ?K = "{g_csum_at c, g_csum_at c + 1}"
  note lay = ctx_ok_layout [OF c] and tot = total_len_bound [OF c i]
    and lb = length_segment_base [OF c i]
  obtain s1 where s1: "write_ip_fields c index ?b = Ok s1" "ip_fields_ok c index s1"
      "same_except ?I ?b s1"
    using write_ip_fields_ok [OF c i] by blast
  have l1: "length s1 = segment_total_len c index" using s1(3) lb same_except_length by metis
  have I: "j < 12" if "j \<in> ?I" for j using that by (auto split: if_splits)
  have keep1: "s1 ! j = g_input c ! j" if "12 \<le> j" "j < g_hdr_len c" for j
    using that I [of j] tot lb segment_base_nth [OF c that(2), of index]
      same_except_nth [OF s1(3), of j] by fastforce
  have f: "s1 ! (g_cs c + 13) = g_input c ! (g_cs c + 13)" if "g_protocol c = IPPROTO_TCP"
    using lay(11) that by (intro keep1) auto
  obtain s2 where s2: "write_transport_fields c index s1 = Ok s2" "transport_fields_ok c index s2"
      "same_except ?T s1 s2"
    using write_transport_fields_ok [OF c l1 i f] by blast
  have l2: "length s2 = segment_total_len c index" using s2(3) l1 same_except_length by metis
  have T: "g_cs c + 4 \<le> j \<and> j < g_hdr_len c \<and> j \<notin> ?K" if "j \<in> ?T" for j
    using that lay(2,11-13) by (auto split: if_splits)
  have z: "s2 ! j = 0" if "j \<in> ?K" for j
  proof -
    have "j \<notin> ?T" using T [of j] that by blast
    then have "s2 ! j = s1 ! j" using that lay(5) tot l1 by (intro same_except_nth [OF s2(3)]) auto
    also have "\<dots> = g_input c ! j" using that lay(1,4,5) by (intro keep1) auto
    finally show ?thesis using that lay(14,15) by auto
  qed
  obtain s3 where s3: "write_transport_checksum c index s2 = Ok s3" "same_except ?K s2 s3"
      "checksum (drop (g_cs c) s3) (segment_pseudo_sum c index) = 0xffff"
    using write_transport_checksum_Ok [of s2 c index] l2 z lay(4-8) tot by auto
  have run: "build_segment c index part = Ok s3"
    using copy_parts_Ok [OF c i len] s1(1) s2(1) s3(1) by (simp add: build_segment_def)
  have all: "same_except (?I \<union> ?T \<union> ?K) ?b s3"
    by (rule same_except_trans [OF same_except_trans [OF s1(3) s2(3)] s3(2)])
  have "?I \<union> ?T \<union> ?K = rewritten c" by (simp add: rewritten_def)
  with all have rew: "same_except (rewritten c) ?b s3" by simp
  have "j < g_hdr_len c" if "j \<in> ?I \<union> ?T \<union> ?K" for j
    using that I [of j] T [of j] lay(1,2,5) by auto
  then have "drop (g_hdr_len c) s3 = drop (g_hdr_len c) ?b" by (rule same_except_drop [OF all])
  also have "\<dots> = segment_chunk c index" using lay(3) by (simp add: segment_base_def)
  finally have pay: "drop (g_hdr_len c) s3 = segment_chunk c index" .
  have "ip_fields_ok c index s3"
    using s1(2) ip_fields_kept [OF c i l1 s2(3)] ip_fields_kept [OF c i l2 s3(2)] T lay(4)
    by fastforce
  moreover have "transport_fields_ok c index s3"
    using s2(2) transport_fields_kept [OF c i l2 s3(2)] by simp
  ultimately show ?thesis
    using run rew pay s3(2,3) l2 same_except_length [OF s3(2)] by (auto simp: segment_ok_def)
qed

end
