(* ===== verification/Gso_Correct.thy ===== *)
theory Gso_Correct
  imports Gso_Split
begin

text \<open>
  Correctness of \<^verbatim>\<open>split_gso_packet\<close> and \<^verbatim>\<open>Packet::split_into\<close>: for a GSO packet as the kernel
  hands it over, the loop fills one slot per segment, the segments carry the payload in
  order, and every header field and checksum of every segment is the one the protocol asks
  for.  The error branches and the slots they leave untouched are stated too.
\<close>

section \<open>The loop\<close>

text \<open>The room a caller has to provide: a slot and a size entry per segment.\<close>

definition split_room :: "gso_ctx \<Rightarrow> nat \<Rightarrow> bytes list \<Rightarrow> nat list \<Rightarrow> bool" where
  "split_room c offset out sizes \<longleftrightarrow>
     g_segment_count c \<le> length out \<and> g_segment_count c \<le> length sizes \<and>
     (\<forall>i < g_segment_count c. offset + segment_total_len c i \<le> length (out ! i) \<and>
        offset + segment_total_len c i \<le> usize_max)"

definition slot_done :: "gso_ctx \<Rightarrow> nat \<Rightarrow> nat \<Rightarrow> bytes \<Rightarrow> bytes \<Rightarrow> nat \<Rightarrow> bool" where
  "slot_done c offset i before after len \<longleftrightarrow>
     len = segment_total_len c i \<and>
     (\<exists>seg. segment_ok c i seg \<and> after = patch before offset seg)"

lemma split_loop_Ok:
  assumes c: "ctx_ok c"
  shows "split_room c offset out sizes \<Longrightarrow> distinct is \<Longrightarrow>
    (\<forall>i \<in> set is. i < g_segment_count c) \<Longrightarrow>
    \<exists>out' sizes'. split_loop c offset is (out, sizes) = ((out', sizes'), Ok (g_segment_count c)) \<and>
      length out' = length out \<and> length sizes' = length sizes \<and>
      (\<forall>i \<in> set is. slot_done c offset i (out ! i) (out' ! i) (sizes' ! i)) \<and>
      (\<forall>i. i \<notin> set is \<longrightarrow> out' ! i = out ! i \<and> sizes' ! i = sizes ! i)"
proof (induction "is" arbitrary: out sizes)
  case (Cons i rest)
  then have i: "i < g_segment_count c" and room: "split_room c offset out sizes" by auto
  then have fit: "offset + segment_total_len c i \<le> length (out ! i)"
    "offset + segment_total_len c i \<le> usize_max" "i < length out" "i < length sizes"
    by (auto simp: split_room_def)
  let ?part = "take (segment_total_len c i) (drop offset (out ! i))"
  have "length ?part = segment_total_len c i" using fit by simp
  from build_segment_Ok [OF c i this]
  obtain seg where seg: "build_segment c i ?part = Ok seg" "segment_ok c i seg" by blast
  let ?out = "out[i := patch (out ! i) offset seg]" and ?sizes = "sizes[i := segment_total_len c i]"
  have ls: "length seg = segment_total_len c i" using seg(2) by (simp add: segment_ok_def)
  have "split_room c offset ?out ?sizes"
    using room fit ls by (auto simp: split_room_def nth_list_update)
  from Cons.IH [OF this] Cons.prems
  obtain out' sizes' where
    run: "split_loop c offset rest (?out, ?sizes) = ((out', sizes'), Ok (g_segment_count c))"
    and len: "length out' = length ?out" "length sizes' = length ?sizes"
    and don: "\<forall>j \<in> set rest. slot_done c offset j (?out ! j) (out' ! j) (sizes' ! j)"
    and rest: "\<forall>j. j \<notin> set rest \<longrightarrow> out' ! j = ?out ! j \<and> sizes' ! j = ?sizes ! j"
    by auto
  have "slot_done c offset i (out ! i) (out' ! i) (sizes' ! i)"
    using Cons.prems rest seg(2) fit by (auto simp: slot_done_def)
  moreover have "slot_done c offset j (out ! j) (out' ! j) (sizes' ! j)" if "j \<in> set rest" for j
    using don that Cons.prems by (metis distinct.simps(2) nth_list_update_neq)
  moreover have "split_loop c offset (i # rest) (out, sizes) =
      ((out', sizes'), Ok (g_segment_count c))"
    using run seg(1) fit by (simp add: checked_add_def)
  ultimately show ?case using len rest by auto
qed simp

text \<open>A slot that is too small makes the loop return \<^verbatim>\<open>InvalidInput\<close>.\<close>

lemma split_loop_short:
  assumes c: "ctx_ok c"
  shows "split_loop c offset is (out, sizes) = (st, r) \<Longrightarrow> distinct is \<Longrightarrow>
    (\<forall>i \<in> set is. i < g_segment_count c) \<Longrightarrow>
    \<exists>i \<in> set is. \<not> (offset + segment_total_len c i \<le> length (out ! i) \<and>
      offset + segment_total_len c i \<le> usize_max) \<Longrightarrow>
    \<exists>e. r = Err e \<and> kind e = InvalidInput"
proof (induction "is" arbitrary: out sizes)
  case (Cons i rest)
  then have i: "i < g_segment_count c" by simp
  let ?part = "take (segment_total_len c i) (drop offset (out ! i))"
  show ?case
  proof (cases "offset + segment_total_len c i \<le> length (out ! i) \<and>
      offset + segment_total_len c i \<le> usize_max")
    case True
    then have "length ?part = segment_total_len c i" by auto
    from build_segment_Ok [OF c i this]
    obtain seg where seg: "build_segment c i ?part = Ok seg" by blast
    have loop: "split_loop c offset rest
        (out[i := patch (out ! i) offset seg], sizes[i := segment_total_len c i]) = (st, r)"
      using Cons.prems(1) True seg by (simp add: checked_add_def)
    show ?thesis
    proof (rule Cons.IH [OF loop])
      show "\<exists>j \<in> set rest. \<not> (offset + segment_total_len c j \<le>
          length (out[i := patch (out ! i) offset seg] ! j) \<and> offset + segment_total_len c j \<le> usize_max)"
        using Cons.prems(2,4) True by (metis distinct.simps(2) nth_list_update_neq set_ConsD)
    qed (use Cons.prems in auto)
  next
    case False
    then show ?thesis using Cons.prems(1) by (auto simp: checked_add_def Let_def split: if_splits)
  qed
qed simp

section \<open>The packets the kernel hands over\<close>

text \<open>
  The virtio-net contract for a GSO packet: \<^verbatim>\<open>csum_start\<close> is the start of the transport
  header, behind a full IP header, \<^verbatim>\<open>csum_offset\<close> is the checksum field of the protocol,
  and the headers are present.
\<close>

definition gso_packet_ok :: "bytes \<Rightarrow> OffloadInfo \<Rightarrow> bool \<Rightarrow> u8 \<Rightarrow> nat \<Rightarrow> bool" where
  "gso_packet_ok input info v6 protocol hl \<longleftrightarrow>
     gso_is_v6 input = Ok v6 \<and> gso_protocol (gso_type info) v6 = Ok protocol \<and>
     validated_hdr_len input info protocol = Ok hl \<and>
     (if v6 then 40 else 20) \<le> unat (csum_start info) \<and>
     unat (csum_offset info) = (if protocol = IPPROTO_TCP then 16 else 6) \<and>
     gso_size info \<noteq> 0 \<and> length input < 2 ^ 32"

lemma gso_protocol_cases:
  "gso_protocol t v6 = Ok protocol \<Longrightarrow> protocol = IPPROTO_TCP \<or> protocol = IPPROTO_UDP"
  by (cases "(t, v6)" rule: gso_protocol.cases) auto

lemma validated_hdr_len_bounds:
  assumes "validated_hdr_len input info protocol = Ok hl"
  shows "hl \<le> length input"
    and "unat (csum_start info) + (if protocol = IPPROTO_UDP then 8 else 20) \<le> hl"
    and "unat (csum_start info) + unat (csum_offset info) + 1 < length input"
  using assms
  by (auto simp: validated_hdr_len_def validate_checksum_bounds_def Let_def res_simps UDP_HEADER_LEN_def
      split: if_splits)

text \<open>The input the loop works on: the packet with its checksum fields zeroed.\<close>

definition zeroed :: "bytes \<Rightarrow> OffloadInfo \<Rightarrow> bool \<Rightarrow> bytes" where
  "zeroed input info v6 =
     (let input = (if v6 then input else input[10 := 0, 11 := 0]);
          at = unat (csum_start info) + unat (csum_offset info)
      in input[at := 0, at + 1 := 0])"

lemma length_zeroed [simp]: "length (zeroed input info v6) = length input"
  by (simp add: zeroed_def Let_def)

definition addr_range :: "bool \<Rightarrow> nat \<times> nat" where
  "addr_range v6 = (if v6 then (IPV6_SRC_ADDR_OFFSET, 16) else (IPV4_SRC_ADDR_OFFSET, 4))"

lemma gso_prepare_Ok:
  assumes ok: "gso_packet_ok input info v6 protocol hl"
    and slots: "div_ceil (length input - hl) (unat (gso_size info)) \<le> out_len"
      "div_ceil (length input - hl) (unat (gso_size info)) \<le> sizes_len"
  shows "\<exists>c. gso_prepare input info out_len sizes_len = Ok c \<and> ctx_ok c \<and>
    g_input c = zeroed input info v6 \<and> g_info c = info \<and> g_v6 c = v6 \<and> g_protocol c = protocol \<and>
    g_hdr_len c = hl \<and> g_segment_count c = div_ceil (length input - hl) (unat (gso_size info)) \<and>
    g_src c = take (snd (addr_range v6)) (drop (fst (addr_range v6)) input) \<and>
    g_dst c = take (snd (addr_range v6)) (drop (fst (addr_range v6) + snd (addr_range v6)) input) \<and>
    (protocol = IPPROTO_TCP \<longrightarrow> read_u32_be input (unat (csum_start info) + 4) = Ok (g_first_seq c))"
proof -
  let ?cs = "unat (csum_start info)" and ?at = "unat (csum_start info) + unat (csum_offset info)"
  let ?z = "zeroed input info v6" and ?n = "div_ceil (length input - hl) (unat (gso_size info))"
  define ao al where "ao = fst (addr_range v6)" and "al = snd (addr_range v6)"
  note ok' = ok [unfolded gso_packet_ok_def]
  have hl: "validated_hdr_len input info protocol = Ok hl" using ok' by blast
  note b = validated_hdr_len_bounds [OF hl]
  have proto: "protocol = IPPROTO_TCP \<or> protocol = IPPROTO_UDP"
    using ok' gso_protocol_cases by blast
  have cs: "(if v6 then 40 else 20) \<le> ?cs" and off: "unat (csum_offset info) =
      (if protocol = IPPROTO_TCP then 16 else 6)" using ok' by blast+
  have room: "?cs + 8 \<le> hl" "?at + 1 < hl" "protocol = IPPROTO_TCP \<Longrightarrow> ?cs + 20 \<le> hl"
    using b(2) proto off by (auto simp: IPPROTO_TCP_def IPPROTO_UDP_def split: if_splits)
  have g: "0 < unat (gso_size info)" using ok' by (simp add: unat_gt_0)
  have addr: "ao + 2 * al \<le> ?cs" "11 < ao \<or> v6"
    using cs by (auto simp: ao_def al_def addr_range_def gso_const_defs split: if_splits)
  have zlow: "?z ! j = input ! j" if "j \<notin> (if v6 then {} else {10, 11})" "j \<noteq> ?at" "j \<noteq> ?at + 1" for j
    using that by (auto simp: zeroed_def Let_def split: if_splits)
  have zaddr: "take n (drop a ?z) = take n (drop a input)"
    if "ao \<le> a" "a + n \<le> ?cs" for a n
  proof (rule nth_equalityI)
    fix j
    assume "j < length (take n (drop a ?z))"
    moreover have "a + j \<notin> (if v6 then {} else {10, 11})" using that addr(2) by auto
    ultimately show "take n (drop a ?z) ! j = take n (drop a input) ! j"
      using that zlow [of "a + j"] b(1) room(1) by simp
  qed simp
  have zseq: "read_u32_be ?z (?cs + 4) = read_u32_be input (?cs + 4)" if tcp: "protocol = IPPROTO_TCP"
  proof -
    have "?z ! (?cs + 4 + k) = input ! (?cs + 4 + k)" if "k < 4" for k
      using that cs off tcp by (intro zlow) (auto split: if_splits)
    from this [of 0] this [of 1] this [of 2] this [of 3] show ?thesis
      using room(3) tcp b(1) by (simp add: read_u32_be_Ok)
  qed
  have cnt: "(if length input - hl = 0 then 0 else ?n) = ?n" by (simp add: div_ceil_def)
  have "\<exists>seq. (if protocol = IPPROTO_TCP then read_u32_be ?z (?cs + 4) else Ok 0) = Ok seq"
    using room(3) b(1) by (auto simp: read_u32_be_Ok)
  then obtain seq where seq:
    "(if protocol = IPPROTO_TCP then read_u32_be ?z (?cs + 4) else Ok 0) = Ok seq" ..
  define z0 where "z0 = (if v6 then input else input[10 := 0, 11 := 0])"
  have z0: "(if v6 then Ok input else bind_res (put input 10 0) (\<lambda>input. put input 11 0)) = Ok z0"
    "length z0 = length input" "z0[?at := 0, Suc ?at := 0] = ?z"
    using cs b(1) room by (auto simp: z0_def res_simps zeroed_def Let_def split: if_splits)
  have sl: "slice ?z ao (ao + al) = Ok (take al (drop ao input))"
    "slice ?z (ao + al) (ao + 2 * al) = Ok (take al (drop (ao + al) input))"
    using addr(1) b(1) room(1) zaddr [of ao al] zaddr [of "ao + al" al] by (simp_all add: res_simps)
  define c where "c = \<lparr> g_input = ?z, g_info = info, g_v6 = v6, g_protocol = protocol,
    g_hdr_len = hl, g_payload_len = length input - hl, g_segment_count = ?n,
    g_src = take al (drop ao input), g_dst = take al (drop (ao + al) input), g_first_seq = seq \<rparr>"
  have ao': "(if v6 then IPV6_SRC_ADDR_OFFSET else IPV4_SRC_ADDR_OFFSET) = ao"
    "(if v6 then 16 else 4) = al" by (simp_all add: ao_def al_def addr_range_def)
  have puts: "put z0 ?at 0 = Ok (z0[?at := 0])" "put (z0[?at := 0]) (?at + 1) 0 = Ok ?z"
    using z0(2,3) room(2) b(1) by (simp_all add: res_simps)
  have slots_ok: "ensure_output_slots out_len sizes_len ?n = Ok ()"
    using slots by (simp add: ensure_output_slots_def)
  have pl: "(if hl \<le> length input then Ok (length input - hl)
      else Err (Custom InvalidData ''packet is too short'')) = Ok (length input - hl)"
    using b(1) by simp
  have pre: "gso_is_v6 input = Ok v6" "gso_protocol (gso_type info) v6 = Ok protocol"
    using ok' by simp_all
  have run: "gso_prepare input info out_len sizes_len = Ok c"
    by (simp only: gso_prepare_def Let_def pre hl pl cnt slots_ok z0(1) ao' puts sl seq bind_res.simps
        c_def)
  have la: "length (g_src c) = al" "length (g_dst c) = al"
    using addr(1) b(1) room(1) by (simp_all add: c_def)
  have "ctx_ok c"
    using la cs off room b g proto z0 ok'
    by (auto simp: ctx_ok_def c_def g_cs_def g_csum_at_def g_gso_def al_def addr_range_def zeroed_def Let_def
        div_ceil_def split: if_splits)
  with run seq zseq show ?thesis
    by (intro exI [of _ c]) (auto simp: c_def ao_def al_def)
qed

lemma gso_prepare_slots:
  assumes ok: "gso_packet_ok input info v6 protocol hl"
    and "\<not> (div_ceil (length input - hl) (unat (gso_size info)) \<le> out_len \<and>
           div_ceil (length input - hl) (unat (gso_size info)) \<le> sizes_len)"
  shows "gso_prepare input info out_len sizes_len =
    Err (Custom InvalidInput ''not enough output slots for split result'')"
proof -
  have pre: "gso_is_v6 input = Ok v6" "gso_protocol (gso_type info) v6 = Ok protocol"
    "validated_hdr_len input info protocol = Ok hl"
    using ok by (simp_all add: gso_packet_ok_def)
  have "(if length input - hl = 0 then 0 else div_ceil (length input - hl) (unat (gso_size info))) =
      div_ceil (length input - hl) (unat (gso_size info))" by (simp add: div_ceil_def)
  moreover have "(if hl \<le> length input then Ok (length input - hl)
      else Err (Custom InvalidData ''packet is too short'')) = Ok (length input - hl)"
    using validated_hdr_len_bounds(1) [OF pre(3)] by simp
  moreover have "ensure_output_slots out_len sizes_len
      (div_ceil (length input - hl) (unat (gso_size info))) =
      Err (Custom InvalidInput ''not enough output slots for split result'')"
    using assms(2) by (auto simp: ensure_output_slots_def)
  ultimately show ?thesis by (simp only: gso_prepare_def pre Let_def bind_res.simps)
qed

section \<open>The whole packet\<close>

definition segment_total :: "bytes \<Rightarrow> OffloadInfo \<Rightarrow> nat \<Rightarrow> nat \<Rightarrow> nat" where
  "segment_total input info hl i =
     hl + min (length input - hl - i * unat (gso_size info)) (unat (gso_size info))"

definition segments_of :: "bytes \<Rightarrow> OffloadInfo \<Rightarrow> nat \<Rightarrow> nat" where
  "segments_of input info hl = div_ceil (length input - hl) (unat (gso_size info))"

text \<open>What a caller has to provide: enough slots, each long enough for its segment.\<close>

definition split_fits ::
    "bytes \<Rightarrow> OffloadInfo \<Rightarrow> nat \<Rightarrow> nat \<Rightarrow> bytes list \<Rightarrow> nat list \<Rightarrow> bool" where
  "split_fits input info hl offset out sizes \<longleftrightarrow>
     segments_of input info hl \<le> length out \<and> segments_of input info hl \<le> length sizes \<and>
     (\<forall>i < segments_of input info hl.
        offset + segment_total input info hl i \<le> length (out ! i) \<and>
        offset + segment_total input info hl i \<le> usize_max)"

text \<open>Segment \<open>i\<close> as the caller reads it back.\<close>

definition split_segment :: "out_state \<Rightarrow> nat \<Rightarrow> nat \<Rightarrow> bytes" where
  "split_segment st offset i = take (snd st ! i) (drop offset (fst st ! i))"

definition split_ctx :: "bytes \<Rightarrow> OffloadInfo \<Rightarrow> bool \<Rightarrow> u8 \<Rightarrow> nat \<Rightarrow> gso_ctx \<Rightarrow> bool" where
  "split_ctx input info v6 protocol hl c \<longleftrightarrow>
     ctx_ok c \<and> g_input c = zeroed input info v6 \<and> g_info c = info \<and> g_v6 c = v6 \<and>
     g_protocol c = protocol \<and> g_hdr_len c = hl \<and> g_segment_count c = segments_of input info hl \<and>
     g_src c = take (snd (addr_range v6)) (drop (fst (addr_range v6)) input) \<and>
     g_dst c = take (snd (addr_range v6)) (drop (fst (addr_range v6) + snd (addr_range v6)) input) \<and>
     (protocol = IPPROTO_TCP \<longrightarrow> read_u32_be input (unat (csum_start info) + 4) = Ok (g_first_seq c))"

lemma split_ctx_total:
  "split_ctx input info v6 protocol hl c \<Longrightarrow> segment_total_len c i = segment_total input info hl i"
proof -
  assume s: "split_ctx input info v6 protocol hl c"
  then have "length (g_input c) = hl + g_payload_len c" "g_input c = zeroed input info v6"
    by (auto simp: split_ctx_def ctx_ok_def)
  then have "g_payload_len c = length input - hl" by simp
  with s show ?thesis
    by (simp add: split_ctx_def segment_total_len_def segment_data_len_def segment_total_def g_gso_def)
qed

lemma split_gso_packet_run:
  assumes ok: "gso_packet_ok input info v6 protocol hl"
    and fits: "split_fits input info hl offset out sizes"
  obtains c out' sizes' where "split_ctx input info v6 protocol hl c"
    "split_gso_packet input info (out, sizes) offset =
       ((out', sizes'), Ok (segments_of input info hl))"
    "length out' = length out" "length sizes' = length sizes"
    "\<And>i. i < segments_of input info hl \<Longrightarrow> slot_done c offset i (out ! i) (out' ! i) (sizes' ! i)"
    "\<And>i. segments_of input info hl \<le> i \<Longrightarrow> out' ! i = out ! i \<and> sizes' ! i = sizes ! i"
proof -
  have "segments_of input info hl \<le> length out" "segments_of input info hl \<le> length sizes"
    using fits by (simp_all add: split_fits_def)
  from gso_prepare_Ok [OF ok this [unfolded segments_of_def]]
  obtain c where prep: "gso_prepare input info (length out) (length sizes) = Ok c"
    and c: "split_ctx input info v6 protocol hl c"
    by (auto simp: split_ctx_def segments_of_def)
  then have cc: "ctx_ok c" and n: "g_segment_count c = segments_of input info hl"
    by (simp_all add: split_ctx_def)
  have "split_room c offset out sizes"
    using fits by (simp add: split_room_def split_fits_def n split_ctx_total [OF c])
  from split_loop_Ok [OF cc this, of "[0 ..< g_segment_count c]"]
  obtain out' sizes' where *:
    "split_loop c offset [0 ..< g_segment_count c] (out, sizes) = ((out', sizes'), Ok (g_segment_count c))"
    "length out' = length out" "length sizes' = length sizes"
    "\<forall>i < g_segment_count c. slot_done c offset i (out ! i) (out' ! i) (sizes' ! i)"
    "\<forall>i. \<not> i < g_segment_count c \<longrightarrow> out' ! i = out ! i \<and> sizes' ! i = sizes ! i"
    by auto
  show ?thesis
    using * c prep n by (intro that [of c out' sizes']) (auto simp: split_gso_packet_def)
qed

lemma split_segment_ok:
  assumes c: "split_ctx input info v6 protocol hl c"
    and fits: "split_fits input info hl offset out sizes"
    and i: "i < segments_of input info hl"
    and don: "slot_done c offset i (out ! i) (out' ! i) (sizes' ! i)"
  shows "segment_ok c i (split_segment (out', sizes') offset i)"
    and "length (split_segment (out', sizes') offset i) = segment_total input info hl i"
    and "sizes' ! i = segment_total input info hl i"
    and "out' ! i = patch (out ! i) offset (split_segment (out', sizes') offset i)"
proof -
  obtain seg where seg: "segment_ok c i seg" "out' ! i = patch (out ! i) offset seg"
      "sizes' ! i = segment_total_len c i"
    using don by (auto simp: slot_done_def)
  then have len: "length seg = segment_total input info hl i"
    by (simp add: segment_ok_def split_ctx_total [OF c])
  then have "offset + length seg \<le> length (out ! i)" using fits i by (simp add: split_fits_def)
  then have "split_segment (out', sizes') offset i = seg"
    using seg len patch_read [of offset seg "out ! i"]
    by (simp add: split_segment_def split_ctx_total [OF c])
  with seg len show "segment_ok c i (split_segment (out', sizes') offset i)"
    "length (split_segment (out', sizes') offset i) = segment_total input info hl i"
    "sizes' ! i = segment_total input info hl i"
    "out' ! i = patch (out ! i) offset (split_segment (out', sizes') offset i)"
    by (simp_all add: split_ctx_total [OF c])
qed

text \<open>
  C1.  Splitting a GSO packet loses, repeats and reorders nothing: given a packet that meets
  the virtio-net contract and slots that are long enough, \<^verbatim>\<open>split_gso_packet\<close> succeeds with
  \<open>\<lceil>payload / gso_size\<rceil>\<close> segments, no segment carries more than \<^verbatim>\<open>gso_size\<close> bytes of payload,
  and the payloads of the segments, in slot order, concatenate to the payload of the packet.
\<close>

theorem split_preserves_payload:
  assumes "gso_packet_ok input info v6 protocol hl" "split_fits input info hl offset out sizes"
    and n: "n = segments_of input info hl"
  shows "\<exists>st. split_gso_packet input info (out, sizes) offset = (st, Ok n) \<and>
           (\<forall>i < n. length (split_segment st offset i) \<le> hl + unat (gso_size info)) \<and>
           concat (map (\<lambda>i. drop hl (split_segment st offset i)) [0 ..< n]) = drop hl input"
proof -
  from split_gso_packet_run [OF assms(1,2)] obtain c out' sizes' where
    c: "split_ctx input info v6 protocol hl c"
    and run: "split_gso_packet input info (out, sizes) offset = ((out', sizes'), Ok n)"
    and don: "\<And>i. i < n \<Longrightarrow> slot_done c offset i (out ! i) (out' ! i) (sizes' ! i)"
    unfolding n by metis
  note seg = split_segment_ok [OF c assms(2), folded n]
  have hl: "g_hdr_len c = hl" "g_segment_count c = n" "ctx_ok c"
    using c by (simp_all add: split_ctx_def n)
  have "map (\<lambda>i. drop hl (split_segment (out', sizes') offset i)) [0 ..< n] =
      map (segment_chunk c) [0 ..< n]"
    using seg(1) don by (auto simp: segment_ok_def hl)
  moreover have "drop hl (g_input c) = drop hl input"
    using c ctx_ok_layout(5) [OF hl(3)] ctx_ok_layout(1,2) [OF hl(3)]
    by (auto simp: split_ctx_def zeroed_def Let_def g_csum_at_def)
  ultimately have "concat (map (\<lambda>i. drop hl (split_segment (out', sizes') offset i)) [0 ..< n]) =
      drop hl input"
    using concat_chunks [OF hl(3)] by (simp only: hl)
  moreover have "length (split_segment (out', sizes') offset i) \<le> hl + unat (gso_size info)"
    if "i < n" for i
    using seg(2) [OF that don [OF that]] by (simp add: segment_total_def)
  ultimately show ?thesis using run by blast
qed

lemma split_pseudo_verifies:
  assumes c: "split_ctx input info v6 protocol hl c" and i: "i < segments_of input info hl"
    and seg: "segment_ok c i seg"
  shows "ones_sum (sum16 (pseudo_header protocol (g_src c) (g_dst c)
           (of_nat (length seg - unat (csum_start info))) @ drop (unat (csum_start info)) seg)) = 0xffff"
proof -
  let ?cs = "unat (csum_start info)"
  have cc: "ctx_ok c" "g_cs c = ?cs" "g_protocol c = protocol" "i < g_segment_count c"
    using c i by (simp_all add: split_ctx_def g_cs_def)
  note lay = ctx_ok_layout [OF cc(1)] and tot = total_len_bound [OF cc(1,4)]
  have ev: "even (length (g_src c))" "even (length (g_dst c))"
    using cc(1) by (auto simp: ctx_ok_def split: if_splits)
  have len: "length seg = segment_total_len c i" using seg by (simp add: segment_ok_def)
  have ps: "segment_pseudo_sum c i = pseudo_header_checksum_no_fold protocol (g_src c) (g_dst c)
      (of_nat (length seg - ?cs))"
    using lay(2) len cc(2,3) by (simp add: segment_pseudo_sum_def segment_total_len_def)
  have b: "unat (segment_pseudo_sum c i) < 9223372036854775808"
    unfolding ps by (rule unat_pseudo_header(2) [OF lay(7,8)])
  have "65535 = unat (checksum (drop ?cs seg) (segment_pseudo_sum c i))"
    using seg cc(2) by (simp add: segment_ok_def)
  also have "\<dots> = ones_sum (unat (segment_pseudo_sum c i) + sum16 (drop ?cs seg))"
    using tot(1) len b by (intro checksum_ones_sum) simp_all
  also have "\<dots> = ones_sum (sum16 (pseudo_header protocol (g_src c) (g_dst c)
      (of_nat (length seg - ?cs))) + sum16 (drop ?cs seg))"
    unfolding ps by (rule ones_sum_pseudo_header [OF ev lay(7,8)])
  also have "\<dots> = ones_sum (sum16 (pseudo_header protocol (g_src c) (g_dst c)
      (of_nat (length seg - ?cs)) @ drop ?cs seg))"
    using ev by (subst sum16_append_even) (simp_all add: pseudo_header_def)
  finally show ?thesis by simp
qed

text \<open>
  C4.  Every segment of a split packet passes the receiver's checks: the IPv4 header sums to
  \<open>0xffff\<close>, and so does the TCP or UDP segment together with the pseudo header that RFC 793 and
  RFC 768 define for it (addresses, protocol and the length of that very segment).
\<close>

theorem split_checksums_verify:
  assumes "gso_packet_ok input info v6 protocol hl" "split_fits input info hl offset out sizes"
    and n: "n = segments_of input info hl" and cs: "cs = unat (csum_start info)"
    and addr: "(ao, al) = addr_range v6"
  shows "\<exists>st. split_gso_packet input info (out, sizes) offset = (st, Ok n) \<and>
           (\<forall>i < n. let seg = split_segment st offset i in
              (v6 \<or> checksum (take cs seg) 0 = 0xffff) \<and>
              ones_sum (sum16 (pseudo_header protocol (take al (drop ao input))
                (take al (drop (ao + al) input)) (of_nat (length seg - cs)) @ drop cs seg)) = 0xffff)"
proof -
  from split_gso_packet_run [OF assms(1,2)] obtain c out' sizes' where
    c: "split_ctx input info v6 protocol hl c"
    and run: "split_gso_packet input info (out, sizes) offset = ((out', sizes'), Ok n)"
    and don: "\<And>i. i < n \<Longrightarrow> slot_done c offset i (out ! i) (out' ! i) (sizes' ! i)"
    unfolding n by metis
  have ad: "g_src c = take al (drop ao input)" "g_dst c = take al (drop (ao + al) input)"
    "g_cs c = cs" "g_v6 c = v6"
    using c addr by (auto simp: split_ctx_def g_cs_def cs dest: sym)
  have "(v6 \<or> checksum (take cs seg) 0 = 0xffff) \<and>
      ones_sum (sum16 (pseudo_header protocol (take al (drop ao input))
        (take al (drop (ao + al) input)) (of_nat (length seg - cs)) @ drop cs seg)) = 0xffff"
    if "i < n" "seg = split_segment (out', sizes') offset i" for i seg
  proof -
    have ok: "segment_ok c i seg"
      using split_segment_ok(1) [OF c assms(2) _ don] that by (simp add: n)
    then have "v6 \<or> checksum (take cs seg) 0 = 0xffff"
      by (auto simp: segment_ok_def ip_fields_ok_def ad split: if_splits)
    then show ?thesis
      using split_pseudo_verifies [OF c _ ok] that by (simp only: n ad cs simp_thms)
  qed
  with run show ?thesis by (auto simp: Let_def)
qed

text \<open>The header of a segment, against the header of the packet it was cut from.\<close>

definition segment_header_ok ::
    "bytes \<Rightarrow> OffloadInfo \<Rightarrow> bool \<Rightarrow> u8 \<Rightarrow> nat \<Rightarrow> nat \<Rightarrow> nat \<Rightarrow> bytes \<Rightarrow> bool" where
  "segment_header_ok input info v6 protocol hl n i seg \<longleftrightarrow>
     (let cs = unat (csum_start info); at = cs + unat (csum_offset info);
          ip_fields = (if v6 then {4, 5} else {2 ..< 6} \<union> {10, 11});
          transport_fields = (if protocol = IPPROTO_TCP then {cs + 4 ..< cs + 8} \<union> {cs + 13}
                              else {cs + 4, cs + 5})
      in (if v6 then read_u16_be seg 4 = Ok (of_nat (length seg - 40))
          else read_u16_be seg 2 = Ok (of_nat (length seg)) \<and>
               read_u16_be seg 4 = map_res (\<lambda>ident. ident + of_nat i) (read_u16_be input 4)) \<and>
         (if protocol = IPPROTO_TCP
          then read_u32_be seg (cs + 4) =
                 map_res (\<lambda>first_seq. first_seq + of_nat (i * unat (gso_size info)))
                   (read_u32_be input (cs + 4)) \<and>
               seg ! (cs + 13) =
                 (if i + 1 = n then input ! (cs + 13)
                  else input ! (cs + 13) AND NOT (TCP_FLAG_FIN OR TCP_FLAG_PSH))
          else read_u16_be seg (cs + 4) = Ok (of_nat (length seg - cs))) \<and>
         (\<forall>j < hl. j \<notin> ip_fields \<union> transport_fields \<union> {at, at + 1} \<longrightarrow> seg ! j = input ! j))"

lemma split_header_ok:
  assumes c: "split_ctx input info v6 protocol hl c" and i: "i < segments_of input info hl"
    and seg: "segment_ok c i seg"
  shows "segment_header_ok input info v6 protocol hl (segments_of input info hl) i seg"
proof -
  let ?cs = "unat (csum_start info)"
  have cc: "ctx_ok c" "g_cs c = ?cs" "g_protocol c = protocol" "i < g_segment_count c" "g_v6 c = v6"
    "g_segment_count c = segments_of input info hl" "g_hdr_len c = hl" "g_info c = info"
    "g_csum_at c = ?cs + unat (csum_offset info)" "g_input c = zeroed input info v6"
    using c i by (simp_all add: split_ctx_def g_cs_def g_csum_at_def)
  note lay = ctx_ok_layout [OF cc(1)] and tot = total_len_bound [OF cc(1,4)]
  have len: "length seg = segment_total_len c i" using seg by (simp add: segment_ok_def)
  have z: "zeroed input info v6 ! j = input ! j"
    if "j \<notin> (if v6 then {} else {10, 11}) \<union> {g_csum_at c, g_csum_at c + 1}" for j
    using that by (auto simp: zeroed_def Let_def cc(9) split: if_splits)
  have "read_u16_be (g_input c) 4 = read_u16_be input 4"
    using z [of 4] z [of 5] lay(1-4) by (auto simp: read_u16_be_Ok cc(10))
  then have ip: "if v6 then read_u16_be seg 4 = Ok (of_nat (length seg - 40))
      else read_u16_be seg 2 = Ok (of_nat (length seg)) \<and>
           read_u16_be seg 4 = map_res (\<lambda>ident. ident + of_nat i) (read_u16_be input 4)"
    using seg by (auto simp: segment_ok_def ip_fields_ok_def len cc(5))
  have "g_input c ! (?cs + 13) = input ! (?cs + 13)" if "protocol = IPPROTO_TCP"
    using z [of "?cs + 13"] that lay(1,12) cc(2,3) by (auto simp: cc(10))
  moreover have "ucast (gso_size info) * of_nat i = (of_nat (i * unat (gso_size info)) :: u32)"
    by (simp add: mult.commute)
  moreover have "protocol = IPPROTO_TCP \<Longrightarrow> read_u32_be input (?cs + 4) = Ok (g_first_seq c)"
    using c by (simp add: split_ctx_def)
  moreover have "g_hdr_len c - ?cs + segment_data_len c i = length seg - ?cs"
    using lay(2) cc(2) by (simp add: len segment_total_len_def)
  ultimately have tr: "if protocol = IPPROTO_TCP
      then read_u32_be seg (?cs + 4) =
             map_res (\<lambda>first_seq. first_seq + of_nat (i * unat (gso_size info)))
               (read_u32_be input (?cs + 4)) \<and>
           seg ! (?cs + 13) =
             (if i + 1 = segments_of input info hl then input ! (?cs + 13)
              else input ! (?cs + 13) AND NOT (TCP_FLAG_FIN OR TCP_FLAG_PSH))
      else read_u16_be seg (?cs + 4) = Ok (of_nat (length seg - ?cs))"
    using seg by (auto simp: segment_ok_def transport_fields_ok_def cc(2,3,6,8))
  have "seg ! j = input ! j" if "j < hl" "j \<notin> rewritten c" for j
  proof -
    have "seg ! j = segment_base c i ! j"
      using seg that tot(2) cc(7) length_segment_base [OF cc(1,4)]
      by (auto simp: segment_ok_def intro: same_except_nth)
    also have "\<dots> = input ! j"
      using segment_base_nth [OF cc(1), of j i] that z [of j] cc(7)
      by (auto simp: cc(5,10) rewritten_def split: if_splits)
    finally show ?thesis .
  qed
  then have "\<forall>j < hl. j \<notin> (if v6 then {4, 5} else {2 ..< 6} \<union> {10, 11}) \<union>
      (if protocol = IPPROTO_TCP then {?cs + 4 ..< ?cs + 8} \<union> {?cs + 13} else {?cs + 4, ?cs + 5}) \<union>
      {?cs + unat (csum_offset info), ?cs + unat (csum_offset info) + 1} \<longrightarrow> seg ! j = input ! j"
    by (simp only: rewritten_def cc(2,3,5,9)) blast
  with ip tr show ?thesis unfolding segment_header_ok_def Let_def by blast
qed

text \<open>
  C20.  The header of every segment is the packet's header with exactly the fields rewritten
  that belong to the segment: IP length, IPv4 identification (counting up from the packet's),
  TCP sequence number (advanced by the payload before the segment), FIN and PSH only on the
  last segment, UDP length, and the checksums.  All other header bytes are the packet's.
\<close>

theorem split_headers:
  assumes "gso_packet_ok input info v6 protocol hl" "split_fits input info hl offset out sizes"
    and n: "n = segments_of input info hl"
  shows "\<exists>st. split_gso_packet input info (out, sizes) offset = (st, Ok n) \<and>
           (\<forall>i < n. length (split_segment st offset i) = segment_total input info hl i \<and>
              segment_header_ok input info v6 protocol hl n i (split_segment st offset i))"
proof -
  from split_gso_packet_run [OF assms(1,2)] obtain c out' sizes' where
    c: "split_ctx input info v6 protocol hl c"
    and run: "split_gso_packet input info (out, sizes) offset = ((out', sizes'), Ok n)"
    and don: "\<And>i. i < n \<Longrightarrow> slot_done c offset i (out ! i) (out' ! i) (sizes' ! i)"
    unfolding n by metis
  note seg = split_segment_ok [OF c assms(2), folded n]
  have "segment_header_ok input info v6 protocol hl n i (split_segment (out', sizes') offset i)"
    if "i < n" for i
    using split_header_ok [OF c _ seg(1), folded n] that don by blast
  with run seg(2) don show ?thesis by blast
qed

text \<open>
  C21.  Splitting never panics on a packet that meets the virtio-net contract, whatever slots
  the caller passes: it succeeds exactly when the slots suffice, and then every byte outside
  the segments is left alone; otherwise the caller gets \<^verbatim>\<open>InvalidInput\<close>.
\<close>

theorem split_total_and_framed:
  assumes ok: "gso_packet_ok input info v6 protocol hl"
    and run: "split_gso_packet input info (out, sizes) offset = ((out', sizes'), r)"
    and n: "n = segments_of input info hl"
  shows "r = Ok n \<and> split_fits input info hl offset out sizes \<and>
           length out' = length out \<and> length sizes' = length sizes \<and>
           (\<forall>i. n \<le> i \<or> (sizes' ! i = segment_total input info hl i \<and>
                  take offset (out' ! i) = take offset (out ! i) \<and>
                  drop (offset + sizes' ! i) (out' ! i) = drop (offset + sizes' ! i) (out ! i))) \<and>
           (\<forall>i. i < n \<or> out' ! i = out ! i \<and> sizes' ! i = sizes ! i)
         \<or> (\<exists>e. r = Err e \<and> kind e = InvalidInput) \<and> \<not> split_fits input info hl offset out sizes"
proof (cases "split_fits input info hl offset out sizes")
  case True
  from split_gso_packet_run [OF ok True] obtain c where
    c: "split_ctx input info v6 protocol hl c" and r: "r = Ok n"
    and len: "length out' = length out" "length sizes' = length sizes"
    and don: "\<And>i. i < n \<Longrightarrow> slot_done c offset i (out ! i) (out' ! i) (sizes' ! i)"
    and rest: "\<And>i. n \<le> i \<Longrightarrow> out' ! i = out ! i \<and> sizes' ! i = sizes ! i"
    unfolding n using run by (metis prod.inject)
  have frame: "sizes' ! i = segment_total input info hl i \<and>
      take offset (out' ! i) = take offset (out ! i) \<and>
      drop (offset + sizes' ! i) (out' ! i) = drop (offset + sizes' ! i) (out ! i)" if "i < n" for i
  proof -
    note seg = split_segment_ok [OF c True, folded n, OF that don [OF that]]
    have "offset + segment_total input info hl i \<le> length (out ! i)"
      using True that by (simp add: split_fits_def n)
    then show ?thesis
      using seg(2-4) by (metis (no_types, lifting) add_leD1 drop_patch order_refl take_patch)
  qed
  show ?thesis using True r len frame rest by (metis not_le)
next
  case False
  have "\<exists>e. r = Err e \<and> kind e = InvalidInput"
  proof (cases "n \<le> length out \<and> n \<le> length sizes")
    case slots: True
    from gso_prepare_Ok [OF ok, of "length out" "length sizes"] slots
    obtain c where prep: "gso_prepare input info (length out) (length sizes) = Ok c"
      and c: "split_ctx input info v6 protocol hl c"
      by (auto simp: split_ctx_def segments_of_def n)
    then have cc: "ctx_ok c" and count: "g_segment_count c = n" by (simp_all add: split_ctx_def n)
    have bad: "\<exists>i < n. \<not> (offset + segment_total_len c i \<le> length (out ! i) \<and>
        offset + segment_total_len c i \<le> usize_max)"
      using False slots by (auto simp: split_fits_def n split_ctx_total [OF c])
    have "split_loop c offset [0 ..< n] (out, sizes) = ((out', sizes'), r)"
      using run prep by (simp add: split_gso_packet_def count)
    from split_loop_short [OF cc this] bad count show ?thesis by fastforce
  next
    case False
    have "gso_prepare input info (length out) (length sizes) =
        Err (Custom InvalidInput ''not enough output slots for split result'')"
      using False by (intro gso_prepare_slots [OF ok]) (auto simp: n segments_of_def)
    then show ?thesis using run by (auto simp: split_gso_packet_def)
  qed
  with False show ?thesis by blast
qed

section \<open>Splitting a packet\<close>

text \<open>What \<^verbatim>\<open>split_into\<close> does with the offload info and the payload it found.\<close>

definition split_payload :: "OffloadInfo \<Rightarrow> bytes \<Rightarrow> out_state \<Rightarrow> nat \<Rightarrow> split_result" where
  "split_payload info payload st offset =
    (if gso_type info \<noteq> GsoNone \<and> gso_size info \<noteq> 0 then split_gso_packet payload info st offset
     else if needs_csum info then
       (case bind_res (validate_checksum_bounds (length payload) (csum_start info) (csum_offset info))
               (\<lambda>_. gso_none_checksum payload (csum_start info) (csum_offset info)) of
          Ok copy \<Rightarrow> copy_single_segment copy st offset
        | Err e \<Rightarrow> (st, Err e)
        | Panic \<Rightarrow> (st, Panic))
     else copy_single_segment payload st offset)"

lemma split_into_result:
  "snd (split_into vhdr memory p st offset) =
     (case view_offload_info vhdr (packet_view p) (as_bytes memory p) of
        Ok (view, Some info) \<Rightarrow>
          split_payload info (payload_bytes (packet_view p) (as_bytes memory p)) st offset
      | Ok (view, None) \<Rightarrow> (st, Err (unsupported ''no offload info''))
      | Err e \<Rightarrow> (st, Err e)
      | Panic \<Rightarrow> (st, Panic))"
proof (cases "view_offload_info vhdr (packet_view p) (as_bytes memory p)")
  case (Ok vi)
  obtain view info where vi: "vi = (view, info)" by (cases vi)
  have "payload_offset view = payload_offset (packet_view p)"
    using Ok by (auto simp: vi view_offload_info_def map_res_Ok split: option.splits)
  then have pb: "payload_bytes view raw = payload_bytes (packet_view p) raw" for raw
    by (simp add: payload_bytes_def)
  have ab: "as_bytes memory (p\<lparr>packet_view := v\<rparr>) = as_bytes memory p" for v
    by (simp add: as_bytes_def)
  let ?bounds = "\<lambda>i. validate_checksum_bounds
    (length (payload_bytes (packet_view p) (as_bytes memory p))) (csum_start i) (csum_offset i)"
  show ?thesis
  proof (cases info)
    case (Some i)
    then show ?thesis
      by (cases "?bounds i") (auto simp: split_into_def offload_info_def Ok vi split_payload_def Let_def
          ab pb split: res.split)
  qed (simp add: split_into_def offload_info_def Ok vi)
qed (simp_all add: split_into_def offload_info_def)

lemma split_into_keeps:
  "as_bytes memory (fst (split_into vhdr memory p st offset)) = as_bytes memory p"
  "packet_recycle (fst (split_into vhdr memory p st offset)) = packet_recycle p"
proof -
  have "\<exists>v. fst (split_into vhdr memory p st offset) = p\<lparr>packet_view := v\<rparr>"
  proof (cases "view_offload_info vhdr (packet_view p) (as_bytes memory p)")
    case (Ok vi)
    obtain view info where vi: "vi = (view, info)" by (cases vi)
    have "fst (split_into vhdr memory p st offset) = p\<lparr>packet_view := view\<rparr>"
      by (simp add: split_into_def offload_info_def Ok vi Let_def split: option.split res.split)
    then show ?thesis ..
  qed (simp_all add: split_into_def offload_info_def, (metis Packet.surjective Packet.update_convs(3))+)
  then show "as_bytes memory (fst (split_into vhdr memory p st offset)) = as_bytes memory p"
    "packet_recycle (fst (split_into vhdr memory p st offset)) = packet_recycle p"
    by (auto simp: as_bytes_def)
qed

text \<open>
  C25.  \<^verbatim>\<open>split_into\<close> does not depend on where the bytes live: a packet that is still a view of
  the receive ring and the same packet after \<^verbatim>\<open>detach\<close>, with the ring slot already reused, give
  the same slots, sizes and result.  The packet itself keeps its bytes.
\<close>

theorem split_into_detach_invariant:
  "snd (split_into vhdr memory' (fst (detach mem recyc p w)) st offset) =
     snd (split_into vhdr (mem w) p st offset) \<and>
   as_bytes (mem w) (fst (split_into vhdr (mem w) p st offset)) = as_bytes (mem w) p \<and>
   packet_recycle (fst (split_into vhdr (mem w) p st offset)) = packet_recycle p"
proof -
  have q: "as_bytes memory' (fst (detach mem recyc p w)) = as_bytes (mem w) p"
    "packet_view (fst (detach mem recyc p w)) = packet_view p"
    by (auto simp: packet_defs split: option.splits)
  show ?thesis by (simp only: split_into_result q split_into_keeps simp_thms)
qed


section \<open>A concrete packet\<close>

text \<open>
  An IPv4 UDP packet with 28 bytes of headers and 3 bytes of payload, cut at 2 bytes, and
  two slots to hold it: the instances the properties above are checked on.
\<close>

definition example_udp :: bytes where
  "example_udp =
     [0x45, 0, 0, 31, 0, 7, 0, 0, 64, 17, 0, 0, 10, 0, 0, 1, 10, 0, 0, 2,
      0, 53, 0, 53, 0, 11, 0, 0, 1, 2, 3]"

definition example_info :: OffloadInfo where
  "example_info = \<lparr> gso_type = UdpL4, gso_size = 2, hdr_len = 28, csum_start = 20,
     csum_offset = 6, needs_csum = True \<rparr>"

lemma example_packet_ok: "gso_packet_ok example_udp example_info False IPPROTO_UDP 28"
  by (simp add: gso_packet_ok_def example_udp_def example_info_def gso_is_v6_def validated_hdr_len_def
      validate_checksum_bounds_def gso_const_defs Let_def)

lemma example_segments: "segments_of example_udp example_info 28 = 2"
  by (simp add: segments_of_def div_ceil_def example_udp_def example_info_def)

lemma example_fits:
  "split_fits example_udp example_info 28 4 [replicate 40 0, replicate 40 0] [0, 0]"
  unfolding split_fits_def example_segments
  by (auto simp: less_2_cases_iff segment_total_def example_udp_def example_info_def usize_max_def)

theorem split_preserves_payload_witness:
  "\<exists>st. split_gso_packet example_udp example_info ([replicate 40 0, replicate 40 0], [0, 0]) 4 = (st, Ok 2) \<and>
     (\<forall>i < 2. length (split_segment st 4 i) \<le> 28 + unat (gso_size example_info)) \<and>
     concat (map (\<lambda>i. drop 28 (split_segment st 4 i)) [0 ..< 2]) = drop 28 example_udp"
  by (rule split_preserves_payload [OF example_packet_ok example_fits]) (simp add: example_segments)

theorem split_checksums_verify_witness:
  "\<exists>st. split_gso_packet example_udp example_info ([replicate 40 0, replicate 40 0], [0, 0]) 4 = (st, Ok 2) \<and>
     (\<forall>i < 2. let seg = split_segment st 4 i in
        (False \<or> checksum (take 20 seg) 0 = 0xffff) \<and>
        ones_sum (sum16 (pseudo_header IPPROTO_UDP (take 4 (drop 12 example_udp))
          (take 4 (drop (12 + 4) example_udp)) (of_nat (length seg - 20)) @ drop 20 seg)) = 0xffff)"
  by (rule split_checksums_verify [OF example_packet_ok example_fits])
     (simp_all only: example_segments, simp_all add: example_info_def addr_range_def gso_const_defs)

theorem split_headers_witness:
  "\<exists>st. split_gso_packet example_udp example_info ([replicate 40 0, replicate 40 0], [0, 0]) 4 = (st, Ok 2) \<and>
     (\<forall>i < 2. length (split_segment st 4 i) = segment_total example_udp example_info 28 i \<and>
        segment_header_ok example_udp example_info False IPPROTO_UDP 28 2 i (split_segment st 4 i))"
  by (rule split_headers [OF example_packet_ok example_fits]) (simp add: example_segments)

theorem split_total_and_framed_witness:
  "\<exists>out' sizes' r.
     split_gso_packet example_udp example_info ([replicate 40 0, replicate 40 0], [0, 0]) 4 = ((out', sizes'), r) \<and>
     r = Ok 2 \<and> length out' = 2 \<and> length sizes' = 2"
proof -
  obtain out' sizes' r where run:
    "split_gso_packet example_udp example_info ([replicate 40 0, replicate 40 0], [0, 0]) 4 = ((out', sizes'), r)"
    by (metis prod.collapse)
  with split_total_and_framed [OF example_packet_ok run example_segments [symmetric]] example_fits
  show ?thesis by auto
qed


text \<open>
  The bounds checks of \<^verbatim>\<open>split_gso_packet\<close> do not cover a \<^verbatim>\<open>csum_start\<close> inside the IP header:
  for a ten byte IPv4 buffer whose header says UDP GSO with \<^verbatim>\<open>csum_start = 0\<close> every check
  passes, and clearing the IPv4 header checksum at offset 10 is out of range, a panic instead
  of the \<^verbatim>\<open>InvalidData\<close> error that malformed packets get.
\<close>

theorem split_malformed_panics:
  "split_gso_packet [0x45, 0, 0, 10, 0, 0, 0, 0, 64, 17]
     \<lparr> gso_type = UdpL4, gso_size = 1, hdr_len = 8, csum_start = 0, csum_offset = 6, needs_csum = True \<rparr>
     ([replicate 40 0, replicate 40 0], [0, 0]) 0
   = (([replicate 40 0, replicate 40 0], [0, 0]), Panic)"
  by (simp add: split_gso_packet_def gso_prepare_def gso_is_v6_def validated_hdr_len_def
      validate_checksum_bounds_def gso_const_defs Let_def div_ceil_def ensure_output_slots_def put_def)

end
