(* ===== verification/Uring_Config.thy ===== *)
theory Uring_Config
  imports Io_Error
begin

text \<open>
  The device configuration (\<^verbatim>\<open>src/src/core/config.rs\<close>): the record, its defaults, the builder
  methods, and the validation every device construction goes through.
\<close>

section \<open>The configuration record\<close>

datatype RxStartMode = AutoStart | ManualStart

record UringDeviceConfig =
  rx_buffer_len :: usize
  rx_buffer_count :: usize
  rx_ring_entries :: u32
  tx_ring_entries :: u32
  rx_auto_resume_after_recycled_slots :: usize
  rx_start_mode :: RxStartMode
  tx_submit_chunk_size :: usize

definition DEFAULT_RX_BUFFER_LEN :: usize where "DEFAULT_RX_BUFFER_LEN = 65535"
definition DEFAULT_RX_BUFFER_COUNT :: usize where "DEFAULT_RX_BUFFER_COUNT = 1024"
definition DEFAULT_RX_RING_ENTRIES :: u32 where "DEFAULT_RX_RING_ENTRIES = 256"
definition DEFAULT_TX_RING_ENTRIES :: u32 where "DEFAULT_TX_RING_ENTRIES = 256"
definition DEFAULT_RX_AUTO_RESUME_AFTER_RECYCLED_SLOTS :: usize where
  "DEFAULT_RX_AUTO_RESUME_AFTER_RECYCLED_SLOTS = 0"
definition DEFAULT_TX_SUBMIT_CHUNK_SIZE :: usize where "DEFAULT_TX_SUBMIT_CHUNK_SIZE = 64"

lemmas default_defs = DEFAULT_RX_BUFFER_LEN_def DEFAULT_RX_BUFFER_COUNT_def
  DEFAULT_RX_RING_ENTRIES_def DEFAULT_TX_RING_ENTRIES_def
  DEFAULT_RX_AUTO_RESUME_AFTER_RECYCLED_SLOTS_def DEFAULT_TX_SUBMIT_CHUNK_SIZE_def

definition default_config :: UringDeviceConfig where
  "default_config =
     \<lparr> rx_buffer_len = DEFAULT_RX_BUFFER_LEN,
       rx_buffer_count = DEFAULT_RX_BUFFER_COUNT,
       rx_ring_entries = DEFAULT_RX_RING_ENTRIES,
       tx_ring_entries = DEFAULT_TX_RING_ENTRIES,
       rx_auto_resume_after_recycled_slots = DEFAULT_RX_AUTO_RESUME_AFTER_RECYCLED_SLOTS,
       rx_start_mode = AutoStart,
       tx_submit_chunk_size = DEFAULT_TX_SUBMIT_CHUNK_SIZE \<rparr>"

section \<open>Builder methods\<close>

definition with_rx_buffer_len :: "usize \<Rightarrow> UringDeviceConfig \<Rightarrow> UringDeviceConfig" where
  "with_rx_buffer_len value self = self\<lparr>rx_buffer_len := value\<rparr>"

definition with_rx_buffer_count :: "usize \<Rightarrow> UringDeviceConfig \<Rightarrow> UringDeviceConfig" where
  "with_rx_buffer_count value self = self\<lparr>rx_buffer_count := value\<rparr>"

definition with_rx_ring_entries :: "u32 \<Rightarrow> UringDeviceConfig \<Rightarrow> UringDeviceConfig" where
  "with_rx_ring_entries value self = self\<lparr>rx_ring_entries := value\<rparr>"

definition with_tx_ring_entries :: "u32 \<Rightarrow> UringDeviceConfig \<Rightarrow> UringDeviceConfig" where
  "with_tx_ring_entries value self = self\<lparr>tx_ring_entries := value\<rparr>"

definition with_rx_auto_resume_after_recycled_slots ::
    "usize \<Rightarrow> UringDeviceConfig \<Rightarrow> UringDeviceConfig" where
  "with_rx_auto_resume_after_recycled_slots value self =
     self\<lparr>rx_auto_resume_after_recycled_slots := value\<rparr>"

definition with_rx_start_mode :: "RxStartMode \<Rightarrow> UringDeviceConfig \<Rightarrow> UringDeviceConfig" where
  "with_rx_start_mode value self = self\<lparr>rx_start_mode := value\<rparr>"

definition with_tx_submit_chunk_size :: "usize \<Rightarrow> UringDeviceConfig \<Rightarrow> UringDeviceConfig" where
  "with_tx_submit_chunk_size value self = self\<lparr>tx_submit_chunk_size := value\<rparr>"

lemmas with_defs = with_rx_buffer_len_def with_rx_buffer_count_def with_rx_ring_entries_def
  with_tx_ring_entries_def with_rx_auto_resume_after_recycled_slots_def with_rx_start_mode_def
  with_tx_submit_chunk_size_def

section \<open>Validation\<close>

text \<open>\<^verbatim>\<open>usize::is_power_of_two\<close>: exactly one bit of the value is set.\<close>

fun is_power_of_two :: "nat \<Rightarrow> bool" where
  "is_power_of_two n =
     (if n = 0 then False else if n = 1 then True else even n \<and> is_power_of_two (n div 2))"

declare is_power_of_two.simps [simp del]

text \<open>\<^verbatim>\<open>ValidatedConfig(UringDeviceConfig)\<close>: a configuration that went through \<open>validate\<close>.\<close>

datatype ValidatedConfig = ValidatedConfig (validated: UringDeviceConfig)

definition validate :: "UringDeviceConfig \<Rightarrow> ValidatedConfig res" where
  "validate self =
     (if rx_buffer_len self = 0 then
        Err (invalid_config ''rx_buffer_len'' ''must be greater than 0'')
      else if rx_buffer_count self = 0 then
        Err (invalid_config ''rx_buffer_count'' ''must be greater than 0'')
      else if \<not> is_power_of_two (rx_buffer_count self) then
        Err (invalid_config ''rx_buffer_count'' ''must be a power of 2 for provided buffer rings'')
      else if rx_buffer_count self > 32768 then
        Err (invalid_config ''rx_buffer_count'' ''must not exceed 32768 for provided buffer rings'')
      else if rx_buffer_len self > u32_max then
        Err (invalid_config ''rx_buffer_len'' ''must fit within u32 for io_uring read_multishot'')
      else if rx_ring_entries self = 0 then
        Err (invalid_config ''rx_ring_entries'' ''must be greater than 0'')
      else if tx_ring_entries self = 0 then
        Err (invalid_config ''tx_ring_entries'' ''must be greater than 0'')
      else if tx_submit_chunk_size self = 0 then
        Err (invalid_config ''tx_submit_chunk_size'' ''must be greater than 0'')
      else Ok (ValidatedConfig self))"

definition try_from :: "UringDeviceConfig \<Rightarrow> ValidatedConfig res" where
  "try_from value = validate value"

definition to_config :: "ValidatedConfig \<Rightarrow> UringDeviceConfig" where
  "to_config self = validated self"

lemmas validate_defs = validate_def try_from_def to_config_def

section \<open>What validation guarantees\<close>

text \<open>
  The well-formedness a validated configuration has, stated without reference to the order of
  the checks.
\<close>

definition config_ok :: "UringDeviceConfig \<Rightarrow> bool" where
  "config_ok c \<longleftrightarrow>
     0 < rx_buffer_len c \<and> rx_buffer_len c < 2 ^ 32 \<and>
     (\<exists>k \<le> 15. rx_buffer_count c = 2 ^ k) \<and>
     rx_ring_entries c \<noteq> 0 \<and> tx_ring_entries c \<noteq> 0 \<and> 0 < tx_submit_chunk_size c"

lemma is_power_of_two_iff: "is_power_of_two n \<longleftrightarrow> (\<exists>k. n = 2 ^ k)"
proof (induction n rule: is_power_of_two.induct)
  case (1 n)
  show ?case
  proof (cases "n = 0 \<or> n = 1")
    case True
    then show ?thesis by (auto simp: is_power_of_two.simps [of n] intro: exI [of _ 0])
  next
    case False
    then have IH: "is_power_of_two (n div 2) \<longleftrightarrow> (\<exists>k. n div 2 = 2 ^ k)"
      using "1.IH" by auto
    have "even n \<and> (\<exists>k. n div 2 = 2 ^ k) \<longleftrightarrow> (\<exists>k. n = 2 ^ k)"
    proof
      assume "even n \<and> (\<exists>k. n div 2 = 2 ^ k)"
      then obtain k where "even n" "n div 2 = 2 ^ k" by blast
      then have "n = 2 ^ Suc k" by (metis dvd_mult_div_cancel power_Suc)
      then show "\<exists>k. n = 2 ^ k" by blast
    next
      assume "\<exists>k. n = 2 ^ k"
      then obtain k where k: "n = 2 ^ k" by blast
      with False obtain j where "k = Suc j" by (cases k) auto
      with k show "even n \<and> (\<exists>k. n div 2 = 2 ^ k)" by auto
    qed
    with False IH show ?thesis by (simp add: is_power_of_two.simps [of n])
  qed
qed

lemma power_two_le_32768: "(2::nat) ^ k \<le> 32768 \<longleftrightarrow> k \<le> 15"
proof -
  have "(32768::nat) = 2 ^ 15" by simp
  then show ?thesis by (metis one_less_numeral_iff power_increasing_iff semiring_norm(76))
qed

lemma count_ok_iff:
  "n \<noteq> 0 \<and> is_power_of_two n \<and> n \<le> 32768 \<longleftrightarrow> (\<exists>k \<le> 15. n = 2 ^ k)"
  using power_two_le_32768 by (auto simp: is_power_of_two_iff)

lemma validate_Ok_iff: "validate c = Ok v \<longleftrightarrow> config_ok c \<and> v = ValidatedConfig c"
proof -
  have "validate c = Ok v \<longleftrightarrow>
      rx_buffer_len c \<noteq> 0 \<and>
      (rx_buffer_count c \<noteq> 0 \<and> is_power_of_two (rx_buffer_count c) \<and> rx_buffer_count c \<le> 32768) \<and>
      rx_buffer_len c \<le> u32_max \<and> rx_ring_entries c \<noteq> 0 \<and> tx_ring_entries c \<noteq> 0 \<and>
      tx_submit_chunk_size c \<noteq> 0 \<and> v = ValidatedConfig c"
    by (auto simp: validate_def)
  then show ?thesis
    unfolding count_ok_iff config_ok_def by (auto simp: u32_max_def)
qed

lemma validate_not_Panic: "validate c \<noteq> Panic"
  by (simp add: validate_def)

lemma validate_Err_kind: "validate c = Err e \<Longrightarrow> kind e = InvalidInput"
  by (auto simp: validate_def invalid_config_def split: if_splits)

lemma config_ok_default: "config_ok default_config"
proof -
  have "(1024::nat) = 2 ^ 10" by simp
  then show ?thesis
    by (auto simp: config_ok_def default_config_def default_defs intro!: exI [of _ "10::nat"])
qed

lemma config_ok_count_bounds:
  "config_ok c \<Longrightarrow> 0 < rx_buffer_count c \<and> rx_buffer_count c \<le> 32768"
  by (auto simp: config_ok_def power_two_le_32768)

text \<open>
  C31.  \<^verbatim>\<open>validate\<close> accepts exactly the configurations the rest of the crate can work with and hands
  them on unchanged: buffer length in \<open>1 .. u32::MAX\<close>, a power-of-two buffer count of at most
  32768, and nonzero ring and chunk sizes.  Every other configuration is an \<^verbatim>\<open>InvalidInput\<close>
  error, never a panic.
\<close>

theorem validate_decides_config_ok:
  "case validate c of
     Ok v \<Rightarrow> config_ok c \<and> to_config v = c
   | Err e \<Rightarrow> \<not> config_ok c \<and> kind e = InvalidInput
   | Panic \<Rightarrow> False"
proof (cases "validate c")
  case (Ok v)
  with validate_Ok_iff [of c v] have "config_ok c" "v = ValidatedConfig c" by simp_all
  with Ok show ?thesis by (simp add: to_config_def)
next
  case (Err e)
  with validate_Ok_iff [of c "ValidatedConfig c"] validate_Err_kind [of c e] show ?thesis by simp
qed (simp add: validate_not_Panic)

end
