(* ===== verification/Fifo_Queue.thy ===== *)
theory Fifo_Queue
  imports Uring_Prelude "HOL-Library.Multiset"
begin

text \<open>
  The contract of a first-in first-out queue, as an interface: the consumer's packet queue and
  the provided buffer ring (buffer ids between the crate and the kernel) both meet it.  A
  provider may need room for an element before it is put in, so the contract is stated under
  an invariant and a guard.
\<close>

datatype 'p queue_event = Enq 'p | Deq

text \<open>A history of a queue: what came out of it, and its final state.\<close>

fun queue_run ::
    "('p \<Rightarrow> 's \<Rightarrow> 's) \<Rightarrow> ('s \<Rightarrow> 'p option \<times> 's) \<Rightarrow> 'p queue_event list \<Rightarrow> 's \<Rightarrow> 'p list \<times> 's" where
  "queue_run enq deq [] s = ([], s)"
| "queue_run enq deq (Enq p # es) s = queue_run enq deq es (enq p s)"
| "queue_run enq deq (Deq # es) s =
     (let (r, s) = deq s; (out, s) = queue_run enq deq es s
      in ((case r of None \<Rightarrow> out | Some p \<Rightarrow> p # out), s))"

text \<open>Every element that is put in finds room at that moment.\<close>

fun queue_admissible ::
    "('p \<Rightarrow> 's \<Rightarrow> bool) \<Rightarrow> ('p \<Rightarrow> 's \<Rightarrow> 's) \<Rightarrow> ('s \<Rightarrow> 'p option \<times> 's) \<Rightarrow> 'p queue_event list \<Rightarrow> 's \<Rightarrow> bool"
where
  "queue_admissible room enq deq [] s = True"
| "queue_admissible room enq deq (Enq p # es) s =
     (room p s \<and> queue_admissible room enq deq es (enq p s))"
| "queue_admissible room enq deq (Deq # es) s = queue_admissible room enq deq es (snd (deq s))"

fun enqueued :: "'p queue_event list \<Rightarrow> 'p list" where
  "enqueued [] = []"
| "enqueued (Enq p # es) = p # enqueued es"
| "enqueued (Deq # es) = enqueued es"

locale fifo_queue =
  fixes enq :: "'p \<Rightarrow> 's \<Rightarrow> 's"
    and deq :: "'s \<Rightarrow> 'p option \<times> 's"
    and content :: "'s \<Rightarrow> 'p list"
    and inv :: "'s \<Rightarrow> bool"
    and room :: "'p \<Rightarrow> 's \<Rightarrow> bool"
  assumes content_enq: "inv s \<Longrightarrow> room p s \<Longrightarrow> content (enq p s) = content s @ [p]"
    and inv_enq: "inv s \<Longrightarrow> room p s \<Longrightarrow> inv (enq p s)"
    and content_deq: "inv s \<Longrightarrow>
      (case deq s of (None, s') \<Rightarrow> content s = [] \<and> content s' = []
                   | (Some p, s') \<Rightarrow> content s = p # content s')"
    and inv_deq: "inv s \<Longrightarrow> inv (snd (deq s))"
begin

text \<open>Nothing is lost, duplicated or reordered over any admissible history.\<close>

lemma run_fifo:
  "inv s \<Longrightarrow> queue_admissible room enq deq es s \<Longrightarrow> queue_run enq deq es s = (out, s') \<Longrightarrow>
   inv s' \<and> out @ content s' = content s @ enqueued es"
proof (induction es arbitrary: s out)
  case (Cons e es)
  show ?case
  proof (cases e)
    case (Enq p)
    then show ?thesis
      using Cons.IH [of "enq p s" out] Cons.prems by (simp add: content_enq inv_enq)
  next
    case Deq
    obtain r s1 where d: "deq s = (r, s1)" by (cases "deq s")
    obtain out1 where run: "queue_run enq deq es s1 = (out1, s')"
      and o: "out = (case r of None \<Rightarrow> out1 | Some p \<Rightarrow> p # out1)"
      using Cons.prems(3) Deq d by (auto simp: Let_def split: prod.splits)
    have "inv s1" using inv_deq [of s] Cons.prems(1) d by simp
    then have "inv s' \<and> out1 @ content s' = content s1 @ enqueued es"
      using Cons.IH [of s1 out1] Cons.prems(2) run Deq d by simp
    then show ?thesis
      using content_deq [of s] Cons.prems(1) d o Deq by (auto split: option.splits)
  qed
qed simp

end

section \<open>A queue of slots that are lent out\<close>

text \<open>
  The holder of a slot got it from the queue and puts it back at most once.  \<open>queue_held\<close> tracks
  the slots that are out; it is \<open>None\<close> when somebody puts back a slot it does not hold.
\<close>

fun queue_held ::
    "('p \<Rightarrow> 's \<Rightarrow> 's) \<Rightarrow> ('s \<Rightarrow> 'p option \<times> 's) \<Rightarrow> 'p queue_event list \<Rightarrow> 's \<Rightarrow> 'p list \<Rightarrow> 'p list option"
where
  "queue_held enq deq [] s held = Some held"
| "queue_held enq deq (Enq p # es) s held =
     (if p \<in> set held then queue_held enq deq es (enq p s) (remove1 p held) else None)"
| "queue_held enq deq (Deq # es) s held =
     (case deq s of (None, s') \<Rightarrow> queue_held enq deq es s' held
                  | (Some p, s') \<Rightarrow> queue_held enq deq es s' (p # held))"

locale slot_pool = fifo_queue enq deq content inv room
  for enq :: "'p \<Rightarrow> 's \<Rightarrow> 's" and deq :: "'s \<Rightarrow> 'p option \<times> 's" and content :: "'s \<Rightarrow> 'p list"
    and inv :: "'s \<Rightarrow> bool" and room :: "'p \<Rightarrow> 's \<Rightarrow> bool" +
  fixes slots :: "'s \<Rightarrow> 'p list"
  assumes room_below: "inv s \<Longrightarrow> length (content s) < length (slots s) \<Longrightarrow> p \<in> set (slots s) \<Longrightarrow> room p s"
    and slots_enq: "inv s \<Longrightarrow> room p s \<Longrightarrow> slots (enq p s) = slots s"
    and slots_deq: "slots (snd (deq s)) = slots s"
begin

text \<open>
  With every slot either in the queue or held once, putting back always finds room, and the
  slots stay accounted for.
\<close>

lemma held_conserved:
  "inv s \<Longrightarrow> mset (content s) + mset held = mset (slots s) \<Longrightarrow>
   queue_held enq deq es s held = Some held' \<Longrightarrow> queue_run enq deq es s = (out, s') \<Longrightarrow>
   queue_admissible room enq deq es s \<and> inv s' \<and> slots s' = slots s \<and>
   mset (content s') + mset held' = mset (slots s)"
proof (induction es arbitrary: s held out)
  case (Cons e es)
  show ?case
  proof (cases e)
    case (Enq p)
    then have p: "p \<in> set held" and rest: "queue_held enq deq es (enq p s) (remove1 p held) = Some held'"
      using Cons.prems(3) by (auto split: if_splits)
    have "length (content s) + length held = length (slots s)"
      using Cons.prems(2) by (metis size_mset size_union)
    moreover have "0 < length held" using p by (cases held) auto
    moreover have "p \<in> set (slots s)"
      using Cons.prems(2) p by (metis set_mset_mset union_iff)
    ultimately have room: "room p s" by (intro room_below [OF Cons.prems(1)]) linarith+
    have "mset held = add_mset p (mset (remove1 p held))" using p by simp
    then have "mset (content (enq p s)) + mset (remove1 p held) = mset (slots (enq p s))"
      using Cons.prems(1,2) room
      by (metis (no_types, lifting) content_enq slots_enq add_mset_add_single mset_append mset_single_iff_right
          union_mset_add_mset_left union_mset_add_mset_right)
    then show ?thesis
      using Cons.IH [OF _ _ rest, of out] Cons.prems(1,4) room Enq by (simp add: inv_enq slots_enq)
  next
    case Deq
    obtain r s1 where d: "deq s = (r, s1)" by (cases "deq s")
    obtain out1 where run: "queue_run enq deq es s1 = (out1, s')"
      using Cons.prems(4) Deq d by (auto simp: Let_def split: prod.splits)
    have s1: "inv s1" "slots s1 = slots s"
      using inv_deq [of s] slots_deq [of s] Cons.prems(1) d by simp_all
    define h where "h = (case r of None \<Rightarrow> held | Some p \<Rightarrow> p # held)"
    have "mset (content s1) + mset h = mset (slots s1)"
      using content_deq [OF Cons.prems(1)] Cons.prems(2) d s1(2)
      by (auto simp: h_def split: option.splits)
    moreover have "queue_held enq deq es s1 h = Some held'"
      using Cons.prems(3) Deq d by (auto simp: h_def split: option.splits)
    ultimately show ?thesis
      using Cons.IH [OF s1(1) _ _ run] s1(2) Deq d by simp
  qed
qed simp

end

end
