(* ===== verification/Rx_Shared.thy ===== *)
theory Rx_Shared
  imports Packet Uring_Config Fifo_Queue
begin

text \<open>
  The state shared by the RX driver thread and the consumer: \<^verbatim>\<open>RxState\<close>, the waiter slot, the
  queue of ready packets and the operations on them (\<^verbatim>\<open>RxState\<close>, \<^verbatim>\<open>RxShared\<close>, \<^verbatim>\<open>RxWaiterSlot\<close> of
  \<^verbatim>\<open>src/src/core/rx.rs\<close>), and the consumer's futures \<^verbatim>\<open>recv\<close> and \<^verbatim>\<open>recv_many\<close>.

  Every method of \<^verbatim>\<open>RxShared\<close> is one critical section of its mutex, so it is one function on
  \<open>RxSharedState\<close>.  A \<^verbatim>\<open>Waker\<close> is a number, \<^verbatim>\<open>will_wake\<close> is equality; an operation that wakes
  returns the wakers it woke beside its new state.
\<close>

section \<open>RX states\<close>

datatype RxState = Running | Stopped | Faulted io_error

fun initial :: "RxStartMode \<Rightarrow> RxState" where
  "initial AutoStart = Running"
| "initial ManualStart = Stopped"

definition stop :: "RxState \<Rightarrow> RxState" where
  "stop self = Stopped"

definition restart :: "RxState \<Rightarrow> RxState" where
  "restart self = Running"

definition fault :: "io_error \<Rightarrow> RxState \<Rightarrow> RxState" where
  "fault error self = Faulted error"

fun terminal_error :: "RxState \<Rightarrow> io_error option" where
  "terminal_error Running = None"
| "terminal_error Stopped = Some rx_stopped"
| "terminal_error (Faulted error) = Some (clone_io_error error)"

section \<open>The waiter slot\<close>

record RxWaiterSlot =
  waker :: "nat option"

definition is_registered :: "RxWaiterSlot \<Rightarrow> bool" where
  "is_registered self = (waker self \<noteq> None)"

definition register :: "nat \<Rightarrow> RxWaiterSlot \<Rightarrow> bool \<times> RxWaiterSlot" where
  "register w self =
     (if waker self = Some w then (False, self) else (True, self\<lparr>waker := Some w\<rparr>))"

definition wake :: "RxWaiterSlot \<Rightarrow> bool \<times> RxWaiterSlot \<times> nat list" where
  "wake self =
     (case waker self of
        Some w \<Rightarrow> (True, self\<lparr>waker := None\<rparr>, [w])
      | None \<Rightarrow> (False, self, []))"

section \<open>The shared state\<close>

record 't RxSharedState =
  rx_state :: RxState
  packets :: "'t Packet list"
  waiter :: RxWaiterSlot

text \<open>\<^verbatim>\<open>RxShared::default()\<close>.\<close>

definition shared_default :: "'t RxSharedState" where
  "shared_default = \<lparr> rx_state = Stopped, packets = [], waiter = \<lparr> waker = None \<rparr> \<rparr>"

definition ready_len :: "'t RxSharedState \<Rightarrow> nat" where
  "ready_len inner = length (packets inner)"

definition waiter_registered :: "'t RxSharedState \<Rightarrow> bool" where
  "waiter_registered inner = is_registered (waiter inner)"

definition wake_waiter :: "'t RxSharedState \<Rightarrow> 't RxSharedState \<times> nat list" where
  "wake_waiter inner = (let (_, slot, ws) = wake (waiter inner) in (inner\<lparr>waiter := slot\<rparr>, ws))"

definition set_running :: "'t RxSharedState \<Rightarrow> 't RxSharedState" where
  "set_running inner = inner\<lparr>rx_state := restart (rx_state inner)\<rparr>"

definition set_stopped :: "'t RxSharedState \<Rightarrow> 't RxSharedState \<times> nat list" where
  "set_stopped inner = wake_waiter (inner\<lparr>rx_state := stop (rx_state inner)\<rparr>)"

definition set_faulted :: "io_error \<Rightarrow> 't RxSharedState \<Rightarrow> 't RxSharedState \<times> nat list" where
  "set_faulted error inner = wake_waiter (inner\<lparr>rx_state := fault error (rx_state inner)\<rparr>)"

definition push_packet :: "'t Packet \<Rightarrow> 't RxSharedState \<Rightarrow> 't RxSharedState \<times> nat list" where
  "push_packet packet inner = wake_waiter (inner\<lparr>packets := packets inner @ [packet]\<rparr>)"

definition no_packet_error :: "RxState \<Rightarrow> io_error" where
  "no_packet_error s = (case terminal_error s of Some e \<Rightarrow> e | None \<Rightarrow> Simple WouldBlock)"

definition shared_try_recv :: "'t RxSharedState \<Rightarrow> 't Packet res \<times> 't RxSharedState" where
  "shared_try_recv inner =
     (case packets inner of
        packet # rest \<Rightarrow> (Ok packet, inner\<lparr>packets := rest\<rparr>)
      | [] \<Rightarrow> (Err (no_packet_error (rx_state inner)), inner))"

text \<open>The loop of \<^verbatim>\<open>try_recv_many\<close>: fill \<open>out\<close> from the front until it or the queue is exhausted.\<close>

fun fill_out :: "nat \<Rightarrow> 't Packet option list \<Rightarrow> 't Packet list \<Rightarrow>
    nat \<times> 't Packet option list \<times> 't Packet list" where
  "fill_out cnt out (packet # rest) =
     (if cnt < length out then fill_out (cnt + 1) (out[cnt := Some packet]) rest
      else (cnt, out, packet # rest))"
| "fill_out cnt out [] = (cnt, out, [])"

definition shared_try_recv_many ::
    "'t Packet option list \<Rightarrow> 't RxSharedState \<Rightarrow> nat res \<times> 't Packet option list \<times> 't RxSharedState" where
  "shared_try_recv_many out inner =
     (if out = [] then (Ok 0, out, inner)
      else if packets inner = [] then (Err (no_packet_error (rx_state inner)), out, inner)
      else (let (cnt, out, rest) = fill_out 0 out (packets inner)
            in (Ok cnt, out, inner\<lparr>packets := rest\<rparr>)))"

definition poll_readable :: "nat \<Rightarrow> 't RxSharedState \<Rightarrow> unit res Poll \<times> 't RxSharedState" where
  "poll_readable cx inner =
     (if packets inner \<noteq> [] then (Ready (Ok ()), inner)
      else case terminal_error (rx_state inner) of
             Some error \<Rightarrow> (Ready (Err error), inner)
           | None \<Rightarrow> (Pending, inner\<lparr>waiter := snd (register cx (waiter inner))\<rparr>))"

lemmas rx_state_defs = stop_def restart_def fault_def
lemmas shared_defs = set_running_def set_stopped_def set_faulted_def push_packet_def
  wake_waiter_def wake_def rx_state_defs

lemma terminal_error_None_iff [simp]: "terminal_error s = None \<longleftrightarrow> s = Running"
  by (cases s) simp_all

lemma shared_push [simp]:
  "packets (fst (push_packet p inner)) = packets inner @ [p]"
  "rx_state (fst (push_packet p inner)) = rx_state inner"
  "waiter (fst (push_packet p inner)) = \<lparr> waker = None \<rparr>"
  by (auto simp: shared_defs split: option.split)

lemma shared_set [simp]:
  "packets (set_running inner) = packets inner" "rx_state (set_running inner) = Running"
  "waiter (set_running inner) = waiter inner"
  "packets (fst (set_stopped inner)) = packets inner" "rx_state (fst (set_stopped inner)) = Stopped"
  "packets (fst (set_faulted e inner)) = packets inner" "rx_state (fst (set_faulted e inner)) = Faulted e"
  "waiter (fst (set_stopped inner)) = \<lparr> waker = None \<rparr>"
  "waiter (fst (set_faulted e inner)) = \<lparr> waker = None \<rparr>"
  by (auto simp: shared_defs split: option.split)

lemma wakes_registered [simp]:
  "snd (push_packet p inner) = (case waker (waiter inner) of Some w \<Rightarrow> [w] | None \<Rightarrow> [])"
  "snd (set_stopped inner) = (case waker (waiter inner) of Some w \<Rightarrow> [w] | None \<Rightarrow> [])"
  "snd (set_faulted e inner) = (case waker (waiter inner) of Some w \<Rightarrow> [w] | None \<Rightarrow> [])"
  by (auto simp: shared_defs split: option.split)

section \<open>The queue of ready packets\<close>

definition shared_enq :: "'t Packet \<Rightarrow> 't RxSharedState \<Rightarrow> 't RxSharedState" where
  "shared_enq p inner = fst (push_packet p inner)"

definition shared_deq :: "'t RxSharedState \<Rightarrow> 't Packet option \<times> 't RxSharedState" where
  "shared_deq inner =
     (case shared_try_recv inner of (Ok p, inner) \<Rightarrow> (Some p, inner) | (_, inner) \<Rightarrow> (None, inner))"

lemma shared_deq_eq:
  "shared_deq inner =
     (case packets inner of [] \<Rightarrow> (None, inner) | p # rest \<Rightarrow> (Some p, inner\<lparr>packets := rest\<rparr>))"
  by (simp add: shared_deq_def shared_try_recv_def split: list.split)

interpretation rx_queue: fifo_queue shared_enq shared_deq packets "\<lambda>_. True" "\<lambda>_ _. True"
  by unfold_locales (auto simp: shared_enq_def shared_deq_eq split: list.split)

lemma admissible_always [simp]: "queue_admissible (\<lambda>_ _. True) enq deq es s"
  by (induction es arbitrary: s rule: enqueued.induct) simp_all

text \<open>
  Packets reach the consumer in completion order and none is lost or duplicated: over any
  interleaving of \<^verbatim>\<open>push_packet\<close> by the driver and \<^verbatim>\<open>try_recv\<close> by the consumer, what was received
  followed by what is still queued is what was queued at the start followed by what was pushed.
\<close>

theorem rx_queue_fifo:
  assumes "queue_run shared_enq shared_deq es inner = (received, inner')"
  shows "received @ packets inner' = packets inner @ enqueued es"
  using rx_queue.run_fifo [OF _ _ assms] by simp

theorem rx_queue_fifo_witness:
  "let a = from_owned [1]; b = from_owned [2];
       (received, inner') = queue_run shared_enq shared_deq [Enq a, Enq b, Deq, Deq, Deq]
         (shared_default :: nat RxSharedState)
   in received @ packets inner' = packets (shared_default :: nat RxSharedState) @ [a, b]"
proof -
  let ?es = "[Enq (from_owned [1]), Enq (from_owned [2]), Deq, Deq, Deq] :: nat Packet queue_event list"
  obtain received inner' where "queue_run shared_enq shared_deq ?es shared_default = (received, inner')"
    by (cases "queue_run shared_enq shared_deq ?es shared_default")
  from rx_queue_fifo [OF this] this show ?thesis by (simp add: Let_def)
qed

lemma fill_out_spec:
  "cnt \<le> length out \<Longrightarrow> fill_out cnt out ps = (n, out', rest) \<Longrightarrow>
   n = min (length out) (cnt + length ps) \<and> rest = drop (n - cnt) ps \<and>
   out' = take cnt out @ map Some (take (n - cnt) ps) @ drop n out"
proof (induction cnt out ps rule: fill_out.induct)
  case (1 cnt out packet ps)
  show ?case
  proof (cases "cnt < length out")
    case True
    with 1 have "n = min (length out) (cnt + 1 + length ps)" "rest = drop (n - (cnt + 1)) ps"
      "out' = take (cnt + 1) (out[cnt := Some packet]) @ map Some (take (n - (cnt + 1)) ps) @
         drop n (out[cnt := Some packet])"
      by (simp_all add: Suc_le_eq)
    moreover from this True have "n - cnt = Suc (n - (cnt + 1))" "cnt < n" by auto
    ultimately show ?thesis
      using True by (simp add: take_Suc_conv_app_nth)
  next
    case False
    with 1 show ?thesis by auto
  qed
qed auto

text \<open>
  C32.  \<^verbatim>\<open>try_recv_many\<close> takes as many packets as fit, from the front and in order, leaves the rest
  of \<^verbatim>\<open>out\<close> alone, and fails only with an empty queue: with the terminal error of a stopped or
  faulted RX, or with \<^verbatim>\<open>WouldBlock\<close> while RX runs.
\<close>

theorem try_recv_many_spec:
  "shared_try_recv_many out inner =
     (if out = [] then (Ok 0, out, inner)
      else if packets inner = [] then
        (Err (case rx_state inner of Running \<Rightarrow> Simple WouldBlock | Stopped \<Rightarrow> rx_stopped
                | Faulted e \<Rightarrow> clone_io_error e), out, inner)
      else let n = min (length out) (ready_len inner) in
        (Ok n, map Some (take n (packets inner)) @ drop n out, inner\<lparr>packets := drop n (packets inner)\<rparr>))"
proof -
  obtain n out' rest where f: "fill_out 0 out (packets inner) = (n, out', rest)"
    by (cases "fill_out 0 out (packets inner)")
  have e: "no_packet_error (rx_state inner) =
      (case rx_state inner of Running \<Rightarrow> Simple WouldBlock | Stopped \<Rightarrow> rx_stopped
         | Faulted e \<Rightarrow> clone_io_error e)"
    by (cases "rx_state inner") (simp_all add: no_packet_error_def)
  show ?thesis
    using fill_out_spec [OF _ f] by (simp add: shared_try_recv_many_def f e ready_len_def Let_def)
qed

end
