(* ===== verification/Rx_Consumer.thy ===== *)
theory Rx_Consumer
  imports Rx_Shared
begin

text \<open>
  The consumer side of \<^verbatim>\<open>RxController\<close> (\<^verbatim>\<open>src/src/core/rx.rs\<close>): the futures \<^verbatim>\<open>readable\<close>, \<^verbatim>\<open>recv\<close> and
  \<^verbatim>\<open>recv_many\<close>.  A future is a small state machine; one step is one critical section of the
  shared mutex, so the driver and the controller may act between any two steps.  The main
  result is that a pending consumer is never forgotten.
\<close>

section \<open>The futures\<close>

datatype 'r recv_pc = RecvTry | RecvPoll | RecvPending | RecvDone "'r res"

text \<open>A poll inside \<^verbatim>\<open>self.readable().await?\<close>.\<close>

definition readable_poll :: "nat \<Rightarrow> 't RxSharedState \<Rightarrow> 'r recv_pc \<times> 't RxSharedState" where
  "readable_poll cx inner =
     (case poll_readable cx inner of
        (Ready (Ok _), inner) \<Rightarrow> (RecvTry, inner)
      | (Ready (Err e), inner) \<Rightarrow> (RecvDone (Err e), inner)
      | (Ready Panic, inner) \<Rightarrow> (RecvDone Panic, inner)
      | (Pending, inner) \<Rightarrow> (RecvPending, inner))"

text \<open>
  One step of the loop of \<^verbatim>\<open>recv\<close> or \<^verbatim>\<open>recv_many\<close>: \<open>attempt\<close> is \<^verbatim>\<open>try_recv\<close> or \<^verbatim>\<open>try_recv_many\<close>.
\<close>

fun recv_step :: "('t RxSharedState \<Rightarrow> 'r res \<times> 't RxSharedState) \<Rightarrow> nat \<Rightarrow>
    'r recv_pc \<Rightarrow> 't RxSharedState \<Rightarrow> 'r recv_pc \<times> 't RxSharedState" where
  "recv_step attempt cx RecvTry inner =
     (case attempt inner of
        (Ok x, inner) \<Rightarrow> (RecvDone (Ok x), inner)
      | (Err e, inner) \<Rightarrow> (if kind e = WouldBlock then RecvPoll else RecvDone (Err e), inner)
      | (Panic, inner) \<Rightarrow> (RecvDone Panic, inner))"
| "recv_step attempt cx RecvPoll inner = readable_poll cx inner"
| "recv_step attempt cx RecvPending inner = readable_poll cx inner"
| "recv_step attempt cx (RecvDone r) inner = (RecvDone r, inner)"

definition recv_attempt :: "'t RxSharedState \<Rightarrow> 't Packet res \<times> 't RxSharedState" where
  "recv_attempt = shared_try_recv"

definition recv_many_attempt :: "'t Packet option list \<Rightarrow> 't RxSharedState \<Rightarrow>
    (nat \<times> 't Packet option list) res \<times> 't RxSharedState" where
  "recv_many_attempt out inner =
     (case shared_try_recv_many out inner of
        (Ok n, out, inner) \<Rightarrow> (Ok (n, out), inner)
      | (Err e, out, inner) \<Rightarrow> (Err e, inner)
      | (Panic, out, inner) \<Rightarrow> (Panic, inner))"

text \<open>\<^verbatim>\<open>recv_many\<close> returns at once on an empty slice.\<close>

definition recv_many_start :: "'t Packet option list \<Rightarrow> (nat \<times> 't Packet option list) recv_pc" where
  "recv_many_start out = (if out = [] then RecvDone (Ok (0, out)) else RecvTry)"

section \<open>The consumer among the others\<close>

text \<open>
  \<open>woken\<close> records that the consumer's waker fired since it last went pending; the executor
  polls a pending future when it is woken, and may do so spuriously.
\<close>

record ('r, 't) recv_sys =
  shared :: "'t RxSharedState"
  pc :: "'r recv_pc"
  woken :: bool

definition others :: "nat \<Rightarrow> 't RxSharedState \<times> nat list \<Rightarrow> ('r, 't) recv_sys \<Rightarrow> ('r, 't) recv_sys" where
  "others cx e s = s\<lparr>shared := fst e, woken := woken s \<or> cx \<in> set (snd e)\<rparr>"

inductive recv_sys_step :: "('t RxSharedState \<Rightarrow> 'r res \<times> 't RxSharedState) \<Rightarrow> nat \<Rightarrow>
    ('r, 't) recv_sys \<Rightarrow> ('r, 't) recv_sys \<Rightarrow> bool"
  for attempt :: "'t RxSharedState \<Rightarrow> 'r res \<times> 't RxSharedState" and cx :: nat where
  driver_pushes: "recv_sys_step attempt cx s (others cx (push_packet p (shared s)) s)"
| somebody_stops: "recv_sys_step attempt cx s (others cx (set_stopped (shared s)) s)"
| somebody_faults: "recv_sys_step attempt cx s (others cx (set_faulted e (shared s)) s)"
| driver_runs: "recv_sys_step attempt cx s (others cx (set_running (shared s), []) s)"
| consumer: "pc s \<noteq> RecvPending \<Longrightarrow> recv_step attempt cx (pc s) (shared s) = (pc', inner') \<Longrightarrow>
    recv_sys_step attempt cx s (s\<lparr>pc := pc', shared := inner'\<rparr>)"
| repoll: "pc s = RecvPending \<Longrightarrow> recv_step attempt cx RecvPending (shared s) = (pc', inner') \<Longrightarrow>
    recv_sys_step attempt cx s (s\<lparr>pc := pc', shared := inner', woken := False\<rparr>)"

definition recv_sys_init :: "'t RxSharedState \<Rightarrow> ('r, 't) recv_sys" where
  "recv_sys_init inner = \<lparr> shared = inner, pc = RecvTry, woken = False \<rparr>"

definition not_forgotten :: "nat \<Rightarrow> ('r, 't) recv_sys \<Rightarrow> bool" where
  "not_forgotten cx s \<longleftrightarrow>
     pc s = RecvPending \<longrightarrow>
       woken s \<or> packets (shared s) = [] \<and> rx_state (shared s) = Running \<and>
                 waker (waiter (shared s)) = Some cx"

lemma readable_poll_eq:
  "(readable_poll cx inner :: 'r recv_pc \<times> 't RxSharedState) =
     (if packets inner \<noteq> [] then (RecvTry, inner)
      else case rx_state inner of
             Running \<Rightarrow> (RecvPending, inner\<lparr>waiter := \<lparr> waker = Some cx \<rparr>\<rparr>)
           | Stopped \<Rightarrow> (RecvDone (Err rx_stopped), inner)
           | Faulted e \<Rightarrow> (RecvDone (Err (clone_io_error e)), inner))"
proof -
  have "(snd (register cx slot) :: RxWaiterSlot) = \<lparr> waker = Some cx \<rparr>" for slot :: RxWaiterSlot
    by (cases slot) (simp add: register_def)
  then show ?thesis by (auto simp: readable_poll_def poll_readable_def split: RxState.split)
qed

text \<open>What the futures rely on: an attempt only takes packets from the queue.\<close>

locale rx_attempt =
  fixes attempt :: "'t RxSharedState \<Rightarrow> 'r res \<times> 't RxSharedState"
  assumes attempt_succeeds: "packets inner \<noteq> [] \<Longrightarrow> is_ok (fst (attempt inner))"
    and attempt_empty: "packets inner = [] \<Longrightarrow> attempt inner = (Err (no_packet_error (rx_state inner)), inner)"
begin

lemma attempt_not_pending: "fst (recv_step attempt cx RecvTry inner) \<noteq> RecvPending"
proof (cases "packets inner = []")
  case False
  then obtain x inner' where "attempt inner = (Ok x, inner')"
    using attempt_succeeds [OF False] by (cases "attempt inner"; cases "fst (attempt inner)") auto
  then show ?thesis by simp
qed (simp add: attempt_empty)

lemma step_not_forgotten:
  assumes "recv_sys_step attempt cx s s'" "not_forgotten cx s"
  shows "not_forgotten cx s'"
  using assms(1)
proof (cases rule: recv_sys_step.cases)
  case (consumer pc' inner')
  show ?thesis
  proof (cases "pc s")
    case RecvTry
    then have "pc' \<noteq> RecvPending" using consumer attempt_not_pending [of cx "shared s"] by simp
    then show ?thesis using consumer by (simp add: not_forgotten_def)
  next
    case RecvPoll
    then show ?thesis
      using consumer by (auto simp: readable_poll_eq not_forgotten_def
          split: if_splits RxState.splits)
  qed (use consumer in \<open>auto simp: not_forgotten_def\<close>)
next
  case (repoll pc' inner')
  then show ?thesis by (auto simp: readable_poll_eq not_forgotten_def
        split: if_splits RxState.splits)
qed (use assms(2) in \<open>auto simp: not_forgotten_def others_def\<close>)

lemma reachable_not_forgotten:
  "(recv_sys_step attempt cx)\<^sup>*\<^sup>* (recv_sys_init inner) s \<Longrightarrow> not_forgotten cx s"
  by (induction rule: rtranclp_induct)
     (simp add: not_forgotten_def recv_sys_init_def, rule step_not_forgotten)

end

interpretation recv_one: rx_attempt recv_attempt
  by unfold_locales (auto simp: recv_attempt_def shared_try_recv_def split: list.split)

lemma recv_many_is_attempt:
  assumes "out \<noteq> []"
  shows "rx_attempt (recv_many_attempt out)"
  using assms
  by unfold_locales (auto simp: recv_many_attempt_def shared_try_recv_many_def Let_def split: prod.split)

text \<open>
  C16.  No lost wakeup: in every interleaving of the consumer's \<^verbatim>\<open>recv\<close> with pushes, stops, faults
  and restarts by the driver and the controller, a consumer that is pending although a packet
  is queued or RX has left \<^verbatim>\<open>Running\<close> has been woken.
\<close>

theorem recv_no_lost_wakeup:
  assumes "(recv_sys_step recv_attempt cx)\<^sup>*\<^sup>* (recv_sys_init inner) s"
    and "pc s = RecvPending" "packets (shared s) \<noteq> [] \<or> rx_state (shared s) \<noteq> Running"
  shows "woken s"
  using recv_one.reachable_not_forgotten [OF assms(1)] assms(2,3) by (auto simp: not_forgotten_def)

text \<open>
  The same holds for \<^verbatim>\<open>recv_many\<close> into any nonempty slice.
\<close>

theorem recv_many_no_lost_wakeup:
  assumes "out \<noteq> []" "(recv_sys_step (recv_many_attempt out) cx)\<^sup>*\<^sup>* (recv_sys_init inner) s"
    and "pc s = RecvPending" "packets (shared s) \<noteq> [] \<or> rx_state (shared s) \<noteq> Running"
  shows "woken s"
  using rx_attempt.reachable_not_forgotten [OF recv_many_is_attempt [OF assms(1)] assms(2)] assms(3,4)
  by (auto simp: not_forgotten_def)

section \<open>A run\<close>

text \<open>A consumer finds the queue empty, registers, and a packet arrives.\<close>

definition example_running :: "nat RxSharedState" where
  "example_running = shared_default\<lparr>rx_state := Running\<rparr>"

definition example_parked :: "('r, nat) recv_sys" where
  "example_parked =
     \<lparr> shared = example_running\<lparr>waiter := \<lparr> waker = Some 7 \<rparr>\<rparr>, pc = RecvPending, woken = False \<rparr>"

definition example_woken :: "('r, nat) recv_sys" where
  "example_woken = (let s = example_parked :: ('r, nat) recv_sys
     in others 7 (push_packet (from_owned [1]) (shared s)) s)"

lemma example_park:
  assumes "attempt example_running = (Err (Simple WouldBlock), example_running)"
  shows "(recv_sys_step attempt 7)\<^sup>*\<^sup>* (recv_sys_init example_running) example_woken"
proof -
  let ?poll = "(recv_sys_init example_running)\<lparr>pc := RecvPoll, shared := example_running\<rparr>"
  have 1: "recv_sys_step attempt 7 (recv_sys_init example_running) ?poll"
    by (rule recv_sys_step.consumer) (simp_all add: recv_sys_init_def assms)
  have "recv_sys_step attempt 7 ?poll
      (?poll\<lparr>pc := RecvPending, shared := example_running\<lparr>waiter := \<lparr> waker = Some 7 \<rparr>\<rparr>\<rparr>)"
    by (rule recv_sys_step.consumer)
       (simp_all add: readable_poll_eq example_running_def shared_default_def)
  then have 2: "recv_sys_step attempt 7 ?poll example_parked"
    by (simp add: recv_sys_init_def example_parked_def)
  have 3: "recv_sys_step attempt 7 example_parked example_woken"
    unfolding example_woken_def Let_def by (rule recv_sys_step.driver_pushes)
  let ?r = "recv_sys_step attempt 7"
  have "?r\<^sup>*\<^sup>* (recv_sys_init example_running) ?poll" by (rule r_into_rtranclp [where r = ?r, OF 1])
  also have "?r\<^sup>*\<^sup>* ?poll example_parked" by (rule r_into_rtranclp [where r = ?r, OF 2])
  also have "?r\<^sup>*\<^sup>* example_parked example_woken" by (rule r_into_rtranclp [where r = ?r, OF 3])
  finally show ?thesis .
qed

lemma example_woken_facts:
  "pc example_woken = RecvPending" "packets (shared example_woken) = [from_owned [1]]"
  by (simp_all add: example_woken_def Let_def example_parked_def others_def example_running_def shared_default_def)

theorem recv_no_lost_wakeup_witness:
  "woken (example_woken :: (nat Packet, nat) recv_sys)"
proof (rule recv_no_lost_wakeup)
  show "(recv_sys_step recv_attempt 7)\<^sup>*\<^sup>* (recv_sys_init example_running) example_woken"
    by (rule example_park)
       (simp add: recv_attempt_def shared_try_recv_def example_running_def shared_default_def no_packet_error_def)
qed (simp_all add: example_woken_facts)

theorem recv_many_no_lost_wakeup_witness:
  "woken (example_woken :: (nat \<times> nat Packet option list, nat) recv_sys)"
proof (rule recv_many_no_lost_wakeup [where out = "[None, None]"])
  show "(recv_sys_step (recv_many_attempt [None, None]) 7)\<^sup>*\<^sup>* (recv_sys_init example_running) example_woken"
    by (rule example_park)
       (simp add: recv_many_attempt_def shared_try_recv_many_def example_running_def shared_default_def
         no_packet_error_def)
qed (simp_all add: example_woken_facts)

end
