(* ===== verification/Rx_Auto_Resume.thy ===== *)
theory Rx_Auto_Resume
  imports Uring_Prelude
begin

text \<open>
  The auto-resume controller (\<^verbatim>\<open>RxAutoResume\<close> of \<^verbatim>\<open>src/src/core/rx.rs\<close>): after an \<^verbatim>\<open>ENOBUFS\<close> fault it
  counts recycled buffers and asks the driver to resume once the threshold is reached.

  \<^verbatim>\<open>note_recycled\<close> runs on whatever thread drops a packet, so besides the function itself the
  theory has its atomic steps, interleaved between any number of threads.  Sending
  \<^verbatim>\<open>AutoResumeCheck\<close> and signalling the eventfd is returned as a flag.
\<close>

section \<open>State and operations\<close>

record RxAutoResume =
  threshold :: usize
  pending_enobufs :: bool
  recycled_since_fault :: u64
  wake_enqueued :: bool

definition auto_resume_new :: "usize \<Rightarrow> RxAutoResume" where
  "auto_resume_new t = \<lparr> threshold = t, pending_enobufs = False, recycled_since_fault = 0,
     wake_enqueued = False \<rparr>"

definition disarm :: "RxAutoResume \<Rightarrow> RxAutoResume" where
  "disarm self = self\<lparr>pending_enobufs := False, recycled_since_fault := 0, wake_enqueued := False\<rparr>"

definition arm_enobufs :: "RxAutoResume \<Rightarrow> RxAutoResume" where
  "arm_enobufs self =
     (if threshold self = 0 then disarm self
      else self\<lparr>recycled_since_fault := 0, wake_enqueued := False, pending_enobufs := True\<rparr>)"

text \<open>\<^verbatim>\<open>fetch_add(1)\<close> wraps, \<^verbatim>\<open>saturating_add(1)\<close> on the value it returns does not.\<close>

definition saturating_succ :: "u64 \<Rightarrow> nat" where
  "saturating_succ prev = min (unat prev + 1) usize_max"

lemma saturating_succ_code [code]:
  "saturating_succ prev = (if prev = - 1 then usize_max else unat prev + 1)"
proof (cases "prev = - 1")
  case True
  then have "unat prev = 18446744073709551615"
    by (simp add: unsigned_minus_1_eq_mask mask_eq_exp_minus_1)
  with True show ?thesis by (simp add: saturating_succ_def usize_max_def)
next
  case False
  have "unat prev \<noteq> unat (- 1 :: u64)" using False by (simp add: word_unat_eq_iff)
  then have "unat prev \<noteq> 18446744073709551615"
    by (simp add: unsigned_minus_1_eq_mask mask_eq_exp_minus_1)
  with False unat_u64_less [of prev] show ?thesis by (simp add: saturating_succ_def usize_max_def)
qed

definition note_recycled :: "RxAutoResume \<Rightarrow> RxAutoResume \<times> bool" where
  "note_recycled self =
     (if threshold self = 0 \<or> \<not> pending_enobufs self then (self, False)
      else
        let recycled = saturating_succ (recycled_since_fault self);
            self = self\<lparr>recycled_since_fault := recycled_since_fault self + 1\<rparr>
        in if recycled < threshold self then (self, False)
           else let was = wake_enqueued self; self = self\<lparr>wake_enqueued := True\<rparr>
                in if was then (self, False) else (self, True))"

section \<open>The atomic steps\<close>

datatype note_pc = NoteLoad | NoteAdd | NoteSwap | NoteSend | NoteDone

fun note_step :: "note_pc \<Rightarrow> RxAutoResume \<Rightarrow> note_pc \<times> RxAutoResume \<times> bool" where
  "note_step NoteLoad self =
     (if threshold self = 0 \<or> \<not> pending_enobufs self then (NoteDone, self, False)
      else (NoteAdd, self, False))"
| "note_step NoteAdd self =
     (if saturating_succ (recycled_since_fault self) < threshold self then NoteDone else NoteSwap,
      self\<lparr>recycled_since_fault := recycled_since_fault self + 1\<rparr>, False)"
| "note_step NoteSwap self =
     (if wake_enqueued self then NoteDone else NoteSend, self\<lparr>wake_enqueued := True\<rparr>, False)"
| "note_step NoteSend self = (NoteDone, self, True)"
| "note_step NoteDone self = (NoteDone, self, False)"

text \<open>Run alone, the steps are the function.\<close>

fun note_steps :: "nat \<Rightarrow> note_pc \<Rightarrow> RxAutoResume \<Rightarrow> note_pc \<times> RxAutoResume \<times> bool" where
  "note_steps 0 pc self = (pc, self, False)"
| "note_steps (Suc n) pc self =
     (let (pc, self, sent) = note_step pc self; (pc, self, sent') = note_steps n pc self
      in (pc, self, sent \<or> sent'))"

lemma note_steps_alone: "note_steps 4 NoteLoad self = (NoteDone, note_recycled self)"
  by (simp add: note_recycled_def Let_def eval_nat_numeral)

record note_sys =
  ar :: RxAutoResume
  pcs :: "note_pc list"
  sent :: nat

inductive note_sys_step :: "note_sys \<Rightarrow> note_sys \<Rightarrow> bool" where
  thread: "i < length (pcs s) \<Longrightarrow> note_step (pcs s ! i) (ar s) = (pc', ar', b) \<Longrightarrow>
    note_sys_step s \<lparr> ar = ar', pcs = (pcs s)[i := pc'], sent = sent s + (if b then 1 else 0) \<rparr>"

definition note_sys_init :: "RxAutoResume \<Rightarrow> nat \<Rightarrow> note_sys" where
  "note_sys_init self n = \<lparr> ar = arm_enobufs self, pcs = replicate n NoteLoad, sent = 0 \<rparr>"

text \<open>Threads that have counted their buffer, and the invariant of one arming.\<close>

definition counted :: "note_pc \<Rightarrow> bool" where
  "counted pc = (pc \<notin> {NoteLoad, NoteAdd})"

definition note_inv :: "nat \<Rightarrow> nat \<Rightarrow> note_sys \<Rightarrow> bool" where
  "note_inv t n s \<longleftrightarrow>
     threshold (ar s) = t \<and> pending_enobufs (ar s) \<and> length (pcs s) = n \<and>
     unat (recycled_since_fault (ar s)) = count_if counted (pcs s) \<and>
     sent s + count_if (\<lambda>pc. pc = NoteSend) (pcs s) = (if wake_enqueued (ar s) then 1 else 0) \<and>
     (wake_enqueued (ar s) \<or> 0 < count_if (\<lambda>pc. pc = NoteSwap) (pcs s) \<longleftrightarrow>
        t \<le> unat (recycled_since_fault (ar s)))"

lemma note_inv_init:
  "0 < threshold self \<Longrightarrow> note_inv (threshold self) n (note_sys_init self n)"
  by (simp add: note_inv_def note_sys_init_def arm_enobufs_def counted_def)

lemma note_inv_step:
  assumes "note_sys_step s s'" "note_inv t n s" "0 < t" "n < 2 ^ 64 - 1"
  shows "note_inv t n s'"
  using assms(1)
proof cases
  case (thread i pc' ar' b)
  let ?p = "pcs s ! i" and ?r = "recycled_since_fault (ar s)"
  note up = count_if_update [OF thread(2), of counted pc']
    count_if_update [OF thread(2), of "\<lambda>pc. pc = NoteSend" pc']
    count_if_update [OF thread(2), of "\<lambda>pc. pc = NoteSwap" pc']
  have inv: "threshold (ar s) = t" "pending_enobufs (ar s)" "length (pcs s) = n"
    "unat ?r = count_if counted (pcs s)"
    "sent s + count_if (\<lambda>pc. pc = NoteSend) (pcs s) = (if wake_enqueued (ar s) then 1 else 0)"
    "wake_enqueued (ar s) \<or> 0 < count_if (\<lambda>pc. pc = NoteSwap) (pcs s) \<longleftrightarrow> t \<le> unat ?r"
    using assms(2) by (simp_all add: note_inv_def)
  show ?thesis
  proof (cases ?p)
    case NoteLoad
    then have "pc' = NoteAdd" "ar' = ar s" "\<not> b" using thread(3) inv(1,2) assms(3) by auto
    then show ?thesis using inv up NoteLoad thread(1) by (simp add: note_inv_def counted_def)
  next
    case NoteAdd
    have "count_if counted (pcs s) \<le> n" using count_if_le [of counted "pcs s"] inv(3) by simp
    then have r: "unat ?r + 1 < 18446744073709551616" using inv(4) assms(4) by simp
    then have u: "unat (?r + 1) = Suc (unat ?r)" by (simp add: unat_word_ariths)
    have "saturating_succ ?r = Suc (unat ?r)"
      using r by (simp add: saturating_succ_def usize_max_def)
    then have "pc' = (if Suc (unat ?r) < t then NoteDone else NoteSwap)" "\<not> b"
      "ar' = (ar s)\<lparr>recycled_since_fault := ?r + 1\<rparr>"
      using thread(3) NoteAdd inv(1) by auto
    then show ?thesis
      using inv up NoteAdd thread(1) u by (auto simp: note_inv_def counted_def)
  next
    case NoteSwap
    then have "pc' = (if wake_enqueued (ar s) then NoteDone else NoteSend)" "\<not> b"
      "ar' = (ar s)\<lparr>wake_enqueued := True\<rparr>" using thread(3) by auto
    then show ?thesis
      using inv up NoteSwap thread(1) by (auto simp: note_inv_def counted_def split: if_splits)
  next
    case NoteSend
    then have "pc' = NoteDone" "b" "ar' = ar s" using thread(3) by auto
    then show ?thesis
      using inv up NoteSend thread(1) by (auto simp: note_inv_def counted_def split: if_splits)
  next
    case NoteDone
    then have "pc' = NoteDone" "\<not> b" "ar' = ar s" using thread(3) by auto
    moreover have "(pcs s)[i := NoteDone] = pcs s" using NoteDone by (metis list_update_id)
    ultimately show ?thesis using thread(1) inv by (simp add: note_inv_def)
  qed
qed

lemma note_inv_reachable:
  assumes "note_sys_step\<^sup>*\<^sup>* (note_sys_init self n) s" "0 < threshold self" "n < 2 ^ 64 - 1"
  shows "note_inv (threshold self) n s"
  using assms(1)
proof (induction rule: rtranclp_induct)
  case base
  show ?case by (rule note_inv_init [OF assms(2)])
next
  case (step s s')
  then show ?case using note_inv_step assms(2,3) by blast
qed

text \<open>
  C33.  Exactly one resume request per fault: when \<open>n\<close> threads recycle a buffer after the fault was
  armed, in whatever interleaving of their atomic operations, at most one \<^verbatim>\<open>AutoResumeCheck\<close> is
  sent at any moment, and once they are done exactly one was sent if at least \<open>threshold\<close>
  buffers came back, and none otherwise.
\<close>

theorem auto_resume_sends_once:
  assumes "note_sys_step\<^sup>*\<^sup>* (note_sys_init self n) s" "0 < threshold self" "n < 2 ^ 64 - 1"
  shows "sent s \<le> 1 \<and>
         (set (pcs s) \<subseteq> {NoteDone} \<longrightarrow> sent s = (if threshold self \<le> n then 1 else 0))"
proof -
  have inv: "note_inv (threshold self) n s" by (rule note_inv_reachable [OF assms])
  then have "sent s \<le> 1" by (auto simp: note_inv_def split: if_splits)
  moreover have "sent s = (if threshold self \<le> n then 1 else 0)" if "set (pcs s) \<subseteq> {NoteDone}"
  proof -
    have "\<forall>i < length (pcs s). pcs s ! i = NoteDone" using that nth_mem by blast
    then have "count_if counted (pcs s) = length (pcs s)" "count_if (\<lambda>pc. pc = NoteSend) (pcs s) = 0"
      "count_if (\<lambda>pc. pc = NoteSwap) (pcs s) = 0"
      by (simp_all add: count_if_full_iff count_if_zero_iff counted_def)
    then show ?thesis using inv by (auto simp: note_inv_def split: if_splits)
  qed
  ultimately show ?thesis by blast
qed

theorem auto_resume_sends_once_witness:
  "let s = \<lparr> ar = \<lparr> threshold = 1, pending_enobufs = True, recycled_since_fault = 1, wake_enqueued = True \<rparr>,
             pcs = [NoteDone], sent = 1 \<rparr>
   in note_sys_step\<^sup>*\<^sup>* (note_sys_init (auto_resume_new 1) 1) s \<and>
      sent s \<le> 1 \<and> (set (pcs s) \<subseteq> {NoteDone} \<longrightarrow> sent s = (if (1::nat) \<le> 1 then 1 else 0))"
proof -
  let ?t = "\<lambda>r w. \<lparr> threshold = 1, pending_enobufs = True, recycled_since_fault = r, wake_enqueued = w \<rparr>"
  let ?s = "\<lambda>r w p k. \<lparr> ar = ?t r w, pcs = [p], sent = k \<rparr>"
  have step: "note_sys_step (?s r w p k) (?s r' w' p' (k + (if b then 1 else 0)))"
    if "note_step p (?t r w) = (p', ?t r' w', b)" for r w p k r' w' p' b
    using note_sys_step.thread [of 0 "?s r w p k" p' "?t r' w'" b] that by simp
  have i: "note_sys_init (auto_resume_new 1) 1 = ?s 0 False NoteLoad 0"
    by (simp add: note_sys_init_def auto_resume_new_def arm_enobufs_def)
  have "note_sys_step\<^sup>*\<^sup>* (?s 0 False NoteLoad 0) (?s 0 False NoteAdd 0)"
    using step [of NoteLoad 0 False NoteAdd 0 False False 0] by (intro r_into_rtranclp) simp
  also have "note_sys_step\<^sup>*\<^sup>* (?s 0 False NoteAdd 0) (?s 1 False NoteSwap 0)"
    using step [of NoteAdd 0 False NoteSwap 1 False False 0]
    by (intro r_into_rtranclp) (simp add: saturating_succ_def usize_max_def)
  also have "note_sys_step\<^sup>*\<^sup>* (?s 1 False NoteSwap 0) (?s 1 True NoteSend 0)"
    using step [of NoteSwap 1 False NoteSend 1 True False 0] by (intro r_into_rtranclp) simp
  also have "note_sys_step\<^sup>*\<^sup>* (?s 1 True NoteSend 0) (?s 1 True NoteDone 1)"
    using step [of NoteSend 1 True NoteDone 1 True True 0] by (intro r_into_rtranclp) simp
  finally have "note_sys_step\<^sup>*\<^sup>* (note_sys_init (auto_resume_new 1) 1) (?s 1 True NoteDone 1)"
    unfolding i .
  with auto_resume_sends_once [OF this] show ?thesis by (simp add: auto_resume_new_def)
qed

end
