(* ===== verification/Provided_Buffers.thy ===== *)
theory Provided_Buffers
  imports Io_Error Fifo_Queue
begin

text \<open>
  The provided buffer ring (\<^verbatim>\<open>ProvidedBuffers\<close>, \<^verbatim>\<open>PageAlignedMemory\<close>, \<^verbatim>\<open>IoUringBuf\<close> of
  \<^verbatim>\<open>src/src/core/rx.rs\<close>).

  The ring memory is the array of its descriptors.  The published tail is not a separate cell:
  it lies at byte 14 of the ring, which is the \<open>resv\<close> field of descriptor 0, and the model keeps
  that overlay.  Allocation (\<^verbatim>\<open>sysconf\<close>, \<^verbatim>\<open>posix_memalign\<close>, the buffers' addresses) is a
  parameter.  A buffer is available to the kernel when it lies between the kernel's head and
  the published tail, which is the contract of \<^verbatim>\<open>io_uring\<close> buffer rings.
\<close>

section \<open>Layout\<close>

definition RX_BUFFER_GROUP_ID :: u16 where "RX_BUFFER_GROUP_ID = 0"
definition IO_URING_BUF_RING_HEADER_SIZE :: nat where "IO_URING_BUF_RING_HEADER_SIZE = 16"
definition IO_URING_BUF_SIZE :: nat where "IO_URING_BUF_SIZE = 16"

record IoUringBuf =
  buf_addr :: u64
  buf_len :: u32
  buf_bid :: u16
  buf_resv :: u16

definition zero_buf :: IoUringBuf where
  "zero_buf = \<lparr> buf_addr = 0, buf_len = 0, buf_bid = 0, buf_resv = 0 \<rparr>"

section \<open>Page-aligned memory\<close>

record PageAlignedMemory =
  pam_addr :: usize
  pam_size :: usize

text \<open>
  The C library: \<^verbatim>\<open>sysconf(_SC_PAGESIZE)\<close> with the error code it leaves, and \<^verbatim>\<open>posix_memalign\<close>,
  which returns a code and the address.
\<close>

record libc_memory =
  sysconf_pagesize :: int
  last_errno :: int
  posix_memalign :: "nat \<Rightarrow> nat \<Rightarrow> int \<times> nat"

definition page_aligned_new :: "libc_memory \<Rightarrow> usize \<Rightarrow> PageAlignedMemory res" where
  "page_aligned_new libc bytes =
     (if sysconf_pagesize libc \<le> 0 then Err (Os (last_errno libc))
      else (let (code, addr) = posix_memalign libc (nat (sysconf_pagesize libc)) bytes in
            if code \<noteq> 0 then Err (Os code)
            else Ok \<lparr> pam_addr = addr, pam_size = bytes \<rparr>))"

section \<open>The ring\<close>

record ProvidedBuffers =
  ring_memory :: PageAlignedMemory
  ring_entries :: "IoUringBuf list"
  buffer_ptrs :: "usize list"
  pb_buffer_len :: usize
  pb_entry_count :: u16
  pb_mask :: u16
  pb_group_id :: u16
  pb_tail :: u16
  pb_active :: bool

definition provided_new :: "libc_memory \<Rightarrow> (nat \<Rightarrow> usize) \<Rightarrow> usize \<Rightarrow> usize \<Rightarrow> u16 \<Rightarrow> ProvidedBuffers res" where
  "provided_new libc box_ptr buffer_len buffer_count group_id =
     bind_res (if buffer_count < 65536 then Ok (of_nat buffer_count :: u16)
               else Err (invalid_input ''rx buffer count exceeds u16 range'')) (\<lambda>entry_count.
     bind_res (ok_or (checked_mul buffer_count IO_URING_BUF_SIZE)
                 (invalid_input ''rx buffer ring size overflows usize'')) (\<lambda>ring_bytes.
     bind_res (page_aligned_new libc ring_bytes) (\<lambda>mem.
       Ok \<lparr> ring_memory = mem, ring_entries = replicate buffer_count zero_buf,
            buffer_ptrs = map box_ptr [0 ..< buffer_count], pb_buffer_len = buffer_len,
            pb_entry_count = entry_count, pb_mask = entry_count - 1, pb_group_id = group_id,
            pb_tail = 0, pb_active = True \<rparr>)))"

definition ring_addr :: "ProvidedBuffers \<Rightarrow> u64" where
  "ring_addr self = of_nat (pam_addr (ring_memory self))"

definition buffer_count :: "ProvidedBuffers \<Rightarrow> usize" where
  "buffer_count self = length (buffer_ptrs self)"

text \<open>\<^verbatim>\<open>tail_ptr()\<close>: the \<^verbatim>\<open>u16\<close> at byte 14, that is \<open>resv\<close> of descriptor 0.\<close>

definition published_tail :: "ProvidedBuffers \<Rightarrow> u16" where
  "published_tail self = buf_resv (ring_entries self ! 0)"

definition write_buffer_descriptor :: "u16 \<Rightarrow> u16 \<Rightarrow> ProvidedBuffers \<Rightarrow> ProvidedBuffers res" where
  "write_buffer_descriptor tail bid self =
     (let index = unat (tail AND pb_mask self) in
      bind_res (idx (buffer_ptrs self) (unat bid)) (\<lambda>buffer.
        Ok (self\<lparr>ring_entries := (ring_entries self)
              [index := \<lparr> buf_addr = of_nat buffer, buf_len = of_nat (pb_buffer_len self),
                          buf_bid = bid, buf_resv = 0 \<rparr>]\<rparr>)))"

definition advance_locked :: "u16 \<Rightarrow> ProvidedBuffers \<Rightarrow> ProvidedBuffers" where
  "advance_locked cnt self =
     (let tail = pb_tail self + cnt in
      self\<lparr>pb_tail := tail,
           ring_entries := (ring_entries self)[0 := (ring_entries self ! 0)\<lparr>buf_resv := tail\<rparr>]\<rparr>)"

text \<open>The loop of \<^verbatim>\<open>publish_all\<close> over \<open>bid\<close>.\<close>

fun publish_loop :: "nat list \<Rightarrow> ProvidedBuffers \<Rightarrow> ProvidedBuffers res" where
  "publish_loop [] self = Ok self"
| "publish_loop (bid # rest) self =
     bind_res (write_buffer_descriptor (pb_tail self + of_nat bid) (of_nat bid) self) (publish_loop rest)"

definition publish_all :: "ProvidedBuffers \<Rightarrow> ProvidedBuffers res" where
  "publish_all self =
     bind_res (publish_loop [0 ..< unat (pb_entry_count self)] self) (\<lambda>self.
       Ok (advance_locked (pb_entry_count self) self))"

definition recycle :: "u16 \<Rightarrow> ProvidedBuffers \<Rightarrow> ProvidedBuffers res" where
  "recycle bid self =
     (if \<not> pb_active self then Ok self
      else bind_res (write_buffer_descriptor (pb_tail self) bid self) (\<lambda>self.
             Ok (advance_locked 1 self)))"

definition packet_ptr :: "u16 \<Rightarrow> ProvidedBuffers \<Rightarrow> usize res" where
  "packet_ptr bid self = idx (buffer_ptrs self) (unat bid)"

definition deactivate :: "ProvidedBuffers \<Rightarrow> ProvidedBuffers" where
  "deactivate self = self\<lparr>pb_active := False\<rparr>"

lemmas provided_defs = write_buffer_descriptor_def advance_locked_def publish_all_def recycle_def
  packet_ptr_def deactivate_def published_tail_def

section \<open>What the kernel may take\<close>

text \<open>
  The kernel's side of the ring: it may take the descriptor at its head while the head has not
  reached the published tail.
\<close>

type_synonym ring_view = "ProvidedBuffers \<times> u16"

definition kernel_take :: "ring_view \<Rightarrow> u16 option \<times> ring_view" where
  "kernel_take v =
     (let (pb, head) = v in
      if published_tail pb = head then (None, v)
      else (Some (buf_bid (ring_entries pb ! unat (head AND pb_mask pb))), (pb, head + 1)))"

definition ring_level :: "ring_view \<Rightarrow> nat" where
  "ring_level v = unat (published_tail (fst v) - snd v)"

definition ring_slot :: "ring_view \<Rightarrow> nat \<Rightarrow> IoUringBuf" where
  "ring_slot v k = ring_entries (fst v) ! unat ((snd v + of_nat k) AND pb_mask (fst v))"

definition available :: "ring_view \<Rightarrow> u16 list" where
  "available v = map (\<lambda>k. buf_bid (ring_slot v k)) [0 ..< ring_level v]"

definition ring_recycle :: "u16 \<Rightarrow> ring_view \<Rightarrow> ring_view" where
  "ring_recycle bid v = (case recycle bid (fst v) of Ok pb \<Rightarrow> (pb, snd v) | _ \<Rightarrow> v)"

definition ring_room :: "u16 \<Rightarrow> ring_view \<Rightarrow> bool" where
  "ring_room bid v \<longleftrightarrow> ring_level v < unat (pb_entry_count (fst v)) \<and> unat bid < unat (pb_entry_count (fst v))"

definition ring_inv :: "ring_view \<Rightarrow> bool" where
  "ring_inv v \<longleftrightarrow>
     (let pb = fst v; n = unat (pb_entry_count pb) in
      (\<exists>k \<le> 15. n = 2 ^ k) \<and> pb_mask pb = pb_entry_count pb - 1 \<and>
      length (ring_entries pb) = n \<and> length (buffer_ptrs pb) = n \<and> pb_active pb \<and>
      published_tail pb = pb_tail pb \<and> ring_level v \<le> n \<and>
      (\<forall>k < ring_level v. unat (buf_bid (ring_slot v k)) < n \<and>
         buf_addr (ring_slot v k) = of_nat (buffer_ptrs pb ! unat (buf_bid (ring_slot v k))) \<and>
         buf_len (ring_slot v k) = of_nat (pb_buffer_len pb)))"

lemma mask_index:
  assumes "n = 2 ^ k" "k \<le> 15" "unat (cnt :: u16) = n"
  shows "unat (w AND (cnt - 1)) = unat w mod n"
proof -
  have "cnt = of_nat (unat cnt)" by simp
  also have "\<dots> = 2 ^ k" using assms by simp
  finally have "cnt = 2 ^ k" .
  then have "w AND (cnt - 1) = take_bit k w" by (simp add: take_bit_eq_mask mask_eq_exp_minus_1)
  moreover have "unat (take_bit k w) = take_bit k (unat w)" by (rule unsigned_take_bit_eq)
  ultimately show ?thesis using assms(1) by (simp add: take_bit_eq_mod)
qed

lemma index_add:
  assumes "n = 2 ^ k" "k \<le> 15"
  shows "unat (w + of_nat j :: u16) mod n = (unat w + j) mod n"
proof -
  have "(2::nat) ^ k dvd 2 ^ 16" using assms(2) by (intro le_imp_power_dvd) simp
  then have d: "n dvd 65536" using assms(1) by simp
  have "unat (w + of_nat j :: u16) = (unat w + j) mod 65536"
    by (simp add: unat_word_ariths unat_of_nat mod_add_right_eq)
  then show ?thesis using d by (simp add: mod_mod_cancel)
qed

lemma index_inj:
  assumes "(h + k) mod n = (h + l) mod (n::nat)" "k < n" "l < n"
  shows "k = l"
proof -
  have "n dvd d" if "(h + a) mod n = (h + (a + d)) mod n" for a d
    using that by (metis add_diff_cancel_left' add.assoc le_add1 mod_eq_dvd_iff_nat)
  from this [of k "l - k"] this [of l "k - l"] assms show ?thesis
    by (cases "k \<le> l") (auto dest: dvd_imp_le)
qed

lemma ring_inv_facts:
  assumes "ring_inv v"
  defines "n \<equiv> unat (pb_entry_count (fst v))"
  shows "0 < n" "n \<le> 32768" "length (ring_entries (fst v)) = n" "length (buffer_ptrs (fst v)) = n"
    "unat ((snd v + of_nat j) AND pb_mask (fst v)) = (unat (snd v) + j) mod n"
    "unat (pb_tail (fst v) AND pb_mask (fst v)) = (unat (snd v) + ring_level v) mod n"
proof -
  obtain k where k: "n = 2 ^ k" "k \<le> 15"
    using assms by (auto simp: ring_inv_def Let_def)
  have "(2::nat) ^ k \<le> 2 ^ 15" using k(2) by (intro power_increasing) simp_all
  then show "0 < n" "n \<le> 32768" using k(1) by simp_all
  have i: "unat ((snd v + of_nat j) AND pb_mask (fst v)) = (unat (snd v) + j) mod n" for j
    using mask_index [OF k, of "pb_entry_count (fst v)"] index_add [OF k] assms(1)
    by (simp add: ring_inv_def Let_def n_def)
  then show "unat ((snd v + of_nat j) AND pb_mask (fst v)) = (unat (snd v) + j) mod n" .
  have "pb_tail (fst v) = snd v + of_nat (ring_level v)"
    using assms by (simp add: ring_inv_def Let_def ring_level_def)
  then show "unat (pb_tail (fst v) AND pb_mask (fst v)) = (unat (snd v) + ring_level v) mod n"
    by (simp only: i)
qed (use assms in \<open>simp_all add: ring_inv_def Let_def\<close>)

text \<open>Storing the tail leaves what the kernel reads of a descriptor alone.\<close>

lemma store_tail_fields:
  "buf_bid (xs[0 := (xs ! 0)\<lparr>buf_resv := t\<rparr>] ! i) = buf_bid (xs ! i)"
  "buf_addr (xs[0 := (xs ! 0)\<lparr>buf_resv := t\<rparr>] ! i) = buf_addr (xs ! i)"
  "buf_len (xs[0 := (xs ! 0)\<lparr>buf_resv := t\<rparr>] ! i) = buf_len (xs ! i)"
  by (cases "i = 0"; cases "xs = []"; simp)+

lemma level_after_store:
  assumes "unat (tail - head :: u16) < 65535"
  shows "unat (tail + 1 - head) = Suc (unat (tail - head))"
proof -
  have "tail + 1 - head = (tail - head) + 1" by simp
  moreover have "unat (w + 1) = Suc (unat w)" if "unat w < 65535" for w :: u16
    using that by (simp add: unat_word_ariths)
  ultimately show ?thesis using assms by (simp only:)
qed

lemma recycle_step:
  assumes inv: "ring_inv v" and room: "ring_room bid v"
  shows "\<exists>pb'. recycle bid (fst v) = Ok pb' \<and> ring_inv (pb', snd v) \<and>
           available (pb', snd v) = available v @ [bid] \<and>
           ring_level (pb', snd v) = Suc (ring_level v) \<and>
           pb_entry_count pb' = pb_entry_count (fst v) \<and> buffer_ptrs pb' = buffer_ptrs (fst v) \<and>
           pb_buffer_len pb' = pb_buffer_len (fst v)"
proof -
  define pb head where "pb = fst v" and "head = snd v"
  then have v: "v = (pb, head)" by simp
  define n where "n = unat (pb_entry_count pb)"
  note facts = ring_inv_facts [OF inv, folded pb_def head_def, folded n_def]
  note n = facts(1,2) and len = facts(3,4) and ix = facts(5) and tix = facts(6)
  let ?L = "ring_level v" and ?i = "(unat head + ring_level v) mod n" and ?t = "pb_tail pb + 1"
  have L: "?L < n" "unat bid < n" using room by (simp_all add: ring_room_def v n_def)
  have act: "pb_active pb" and pt: "published_tail pb = pb_tail pb"
    using inv by (simp_all add: ring_inv_def Let_def v)
  define e where "e = \<lparr> buf_addr = of_nat (buffer_ptrs pb ! unat bid),
    buf_len = of_nat (pb_buffer_len pb), buf_bid = bid, buf_resv = 0 \<rparr>"
  define es where "es = (ring_entries pb)[?i := e]"
  define pb' where "pb' = pb\<lparr>pb_tail := ?t, ring_entries := es[0 := (es ! 0)\<lparr>buf_resv := ?t\<rparr>]\<rparr>"
  have run: "recycle bid pb = Ok pb'"
    using act L(2) len(2) tix
    by (simp add: recycle_def write_buffer_descriptor_def advance_locked_def idx_Ok Let_def pb'_def es_def e_def)
  have tl: "published_tail pb' = ?t" using len(1) n(1) by (simp add: published_tail_def pb'_def es_def)
  have "?L < 65535" using L(1) n(2) by linarith
  then have lev: "ring_level (pb', head) = Suc ?L"
    using level_after_store [of "pb_tail pb" head] tl pt by (simp add: ring_level_def v)
  have slot_fields: "buf_bid (ring_slot (pb', head) j) = buf_bid (es ! ((unat head + j) mod n))"
    "buf_addr (ring_slot (pb', head) j) = buf_addr (es ! ((unat head + j) mod n))"
    "buf_len (ring_slot (pb', head) j) = buf_len (es ! ((unat head + j) mod n))" for j
    using ix [of j] by (simp_all add: ring_slot_def pb'_def store_tail_fields)
  have es_old: "es ! ((unat head + j) mod n) = ring_slot v j" if "j < ?L" for j
  proof -
    have "(unat head + j) mod n \<noteq> ?i" using that L(1) index_inj [of "unat head" j n ?L] by auto
    then show ?thesis using ix [of j] by (simp add: es_def ring_slot_def v)
  qed
  have es_new: "es ! ?i = e" using len(1) n(1) by (simp add: es_def)
  have "available (pb', head) = available v @ [bid]"
    using es_old es_new by (simp add: available_def lev slot_fields e_def)
  moreover have "ring_inv (pb', head)"
    unfolding ring_inv_def Let_def
  proof (intro conjI allI impI)
    fix j
    assume "j < ring_level (pb', head)"
    then consider "j = ?L" | "j < ?L" by (auto simp: lev less_Suc_eq)
    then have "unat (buf_bid (es ! ((unat head + j) mod n))) < n \<and>
        buf_addr (es ! ((unat head + j) mod n)) =
          of_nat (buffer_ptrs pb ! unat (buf_bid (es ! ((unat head + j) mod n)))) \<and>
        buf_len (es ! ((unat head + j) mod n)) = of_nat (pb_buffer_len pb)"
    proof cases
      case 1
      then show ?thesis using L(2) es_new by (simp add: e_def)
    next
      case 2
      then show ?thesis
        using inv unfolding es_old [OF 2] by (simp add: ring_inv_def Let_def v n_def)
    qed
    then show "unat (buf_bid (ring_slot (pb', head) j)) < unat (pb_entry_count (fst (pb', head)))"
      "buf_addr (ring_slot (pb', head) j) =
         of_nat (buffer_ptrs (fst (pb', head)) ! unat (buf_bid (ring_slot (pb', head) j)))"
      "buf_len (ring_slot (pb', head) j) = of_nat (pb_buffer_len (fst (pb', head)))"
      unfolding slot_fields by (simp_all add: pb'_def n_def)
  next
    have "pb_entry_count pb' = pb_entry_count pb" by (simp add: pb'_def)
    then show "ring_level (pb', head) \<le> unat (pb_entry_count (fst (pb', head)))"
      using L(1) by (simp add: lev n_def)
    show "published_tail (fst (pb', head)) = pb_tail (fst (pb', head))"
      using tl by (simp add: pb'_def)
  qed (use inv in \<open>auto simp: pb'_def es_def ring_inv_def Let_def v\<close>)
  ultimately show ?thesis using run lev by (auto simp: v pb'_def)
qed

lemma available_Nil_iff: "available v = [] \<longleftrightarrow> published_tail (fst v) = snd v"
  by (auto simp: available_def ring_level_def unat_eq_0)

lemma take_step:
  assumes inv: "ring_inv v" and ne: "published_tail (fst v) \<noteq> snd v"
  shows "\<exists>bid. kernel_take v = (Some bid, (fst v, snd v + 1)) \<and>
           available v = bid # available (fst v, snd v + 1) \<and> ring_inv (fst v, snd v + 1)"
proof -
  let ?v = "(fst v, snd v + 1)"
  define w where "w = published_tail (fst v) - snd v"
  then have w: "w \<noteq> 0" "published_tail (fst v) - (snd v + 1) = w - 1" using ne by simp_all
  have "unat w = Suc (unat (w - 1))" using unat_minus_one [OF w(1)] unat_gt_0 [of w] w(1) by simp
  then have lev: "ring_level v = Suc (ring_level ?v)"
    unfolding ring_level_def fst_conv snd_conv w(2) w_def .
  have slot: "ring_slot ?v k = ring_slot v (Suc k)" for k
    by (simp add: ring_slot_def add.assoc)
  have "available v = buf_bid (ring_slot v 0) # available ?v"
    by (simp add: available_def lev slot upt_conv_Cons del: upt_Suc flip: map_Suc_upt)
  moreover have "kernel_take v = (Some (buf_bid (ring_slot v 0)), ?v)"
    using ne by (simp add: kernel_take_def ring_slot_def split_beta)
  moreover have "ring_inv ?v"
    using inv unfolding ring_inv_def Let_def lev slot fst_conv by (auto simp: slot)
  ultimately show ?thesis by blast
qed

lemma take_empty: "published_tail (fst v) = snd v \<Longrightarrow> kernel_take v = (None, v)"
  by (simp add: kernel_take_def split_beta)

section \<open>The ring as a queue of buffer ids\<close>

definition ring_slots :: "ring_view \<Rightarrow> u16 list" where
  "ring_slots v = map of_nat [0 ..< unat (pb_entry_count (fst v))]"

lemma length_available [simp]: "length (available v) = ring_level v"
  by (simp add: available_def)

lemma ring_recycle_step:
  assumes "ring_inv v" "ring_room bid v"
  shows "available (ring_recycle bid v) = available v @ [bid]" "ring_inv (ring_recycle bid v)"
    "ring_slots (ring_recycle bid v) = ring_slots v"
  using recycle_step [OF assms] by (auto simp: ring_recycle_def ring_slots_def)

interpretation buffer_ring: slot_pool ring_recycle kernel_take available ring_inv ring_room ring_slots
proof unfold_locales
  fix v :: ring_view and bid :: u16
  assume v: "ring_inv v"
  show "case kernel_take v of (None, v') \<Rightarrow> available v = [] \<and> available v' = []
      | (Some b, v') \<Rightarrow> available v = b # available v'"
    using take_step [OF v] take_empty [of v] available_Nil_iff [of v]
    by (cases "published_tail (fst v) = snd v") auto
  show "ring_inv (snd (kernel_take v))"
    using take_step [OF v] take_empty [of v] v by (cases "published_tail (fst v) = snd v") auto
  assume lt: "length (available v) < length (ring_slots v)" and "bid \<in> set (ring_slots v)"
  then obtain i where i: "i < unat (pb_entry_count (fst v))" "bid = of_nat i" by (auto simp: ring_slots_def)
  then have "unat bid = i"
    using ring_inv_facts(2) [OF v] by (simp add: unat_of_nat_u16)
  then show "ring_room bid v" using lt i by (simp add: ring_room_def ring_slots_def)
next
  fix v :: ring_view
  show "ring_slots (snd (kernel_take v)) = ring_slots v"
    by (simp add: kernel_take_def ring_slots_def split_beta)
qed (simp_all add: ring_recycle_step)

section \<open>Publishing\<close>

definition descriptor :: "ProvidedBuffers \<Rightarrow> nat \<Rightarrow> IoUringBuf" where
  "descriptor pb bid = \<lparr> buf_addr = of_nat (buffer_ptrs pb ! bid),
     buf_len = of_nat (pb_buffer_len pb), buf_bid = of_nat bid, buf_resv = 0 \<rparr>"

lemma publish_loop_Ok:
  assumes "n = 2 ^ k" "k \<le> 15" "unat (pb_entry_count pb) = n" "pb_mask pb = pb_entry_count pb - 1"
    and "pb_tail pb = 0" "length (buffer_ptrs pb) = n" "\<forall>b \<in> set bs. b < n"
  shows "publish_loop bs pb =
    Ok (pb\<lparr>ring_entries := fold (\<lambda>b es. es[b := descriptor pb b]) bs (ring_entries pb)\<rparr>)"
  using assms(3-)
proof (induction bs arbitrary: pb)
  case (Cons b bs)
  have "(2::nat) ^ k \<le> 2 ^ 15" using assms(2) by (intro power_increasing) simp_all
  then have b: "b < n" "b < 65536" using Cons.prems(5) assms(1) by auto
  then have u: "unat (of_nat b :: u16) = b" by (intro unat_of_nat_u16)
  have ix: "unat (of_nat b AND pb_mask pb) = b"
    using mask_index [OF assms(1,2) Cons.prems(1)] Cons.prems(2) b u by simp
  let ?pb = "pb\<lparr>ring_entries := (ring_entries pb)[b := descriptor pb b]\<rparr>"
  have "write_buffer_descriptor (pb_tail pb + of_nat b) (of_nat b) pb = Ok ?pb"
    using b Cons.prems(3,4) u ix
    by (simp add: write_buffer_descriptor_def idx_Ok descriptor_def)
  moreover have "descriptor ?pb = descriptor pb" by (simp add: descriptor_def fun_eq_iff)
  moreover have "publish_loop bs ?pb =
      Ok (?pb\<lparr>ring_entries := fold (\<lambda>b es. es[b := descriptor ?pb b]) bs (ring_entries ?pb)\<rparr>)"
    using Cons.prems by (intro Cons.IH) simp_all
  ultimately show ?case by simp
qed simp

lemma fold_update_upt:
  "m \<le> length es \<Longrightarrow> fold (\<lambda>b es. es[b := f b]) [0 ..< m] es = map f [0 ..< m] @ drop m es"
proof (induction m)
  case (Suc m)
  then have "drop m es = es ! m # drop (Suc m) es" by (simp add: Cons_nth_drop_Suc)
  with Suc show ?case by (simp add: list_update_append)
qed simp

lemma publish_new:
  assumes new: "provided_new libc box_ptr buffer_len cnt gid = Ok pb" and "cnt = 2 ^ k" "k \<le> 15"
  shows "\<exists>pb'. publish_all pb = Ok pb' \<and> ring_inv (pb', 0) \<and>
           available (pb', 0) = map of_nat [0 ..< cnt] \<and> unat (pb_entry_count pb') = cnt \<and>
           pb_buffer_len pb' = buffer_len \<and> buffer_ptrs pb' = map box_ptr [0 ..< cnt]"
proof -
  have "(2::nat) ^ k \<le> 2 ^ 15" using assms(3) by (intro power_increasing) simp_all
  then have c: "0 < cnt" "cnt \<le> 32768" using assms(2) by simp_all
  then have u: "unat (of_nat cnt :: u16) = cnt" by (intro unat_of_nat_u16) simp
  have pb: "unat (pb_entry_count pb) = cnt" "pb_mask pb = pb_entry_count pb - 1" "pb_tail pb = 0"
    "length (buffer_ptrs pb) = cnt" "ring_entries pb = replicate cnt zero_buf" "pb_active pb"
    "pb_buffer_len pb = buffer_len" "buffer_ptrs pb = map box_ptr [0 ..< cnt]"
    using new u by (auto simp: provided_new_def bind_res_Ok_iff split: if_splits)
  let ?es = "map (descriptor pb) [0 ..< cnt]"
  define pb' where "pb' = pb\<lparr>pb_tail := pb_entry_count pb,
    ring_entries := ?es[0 := (?es ! 0)\<lparr>buf_resv := pb_entry_count pb\<rparr>]\<rparr>"
  have "publish_loop [0 ..< cnt] pb = Ok (pb\<lparr>ring_entries := ?es\<rparr>)"
    using publish_loop_Ok [OF assms(2,3) pb(1,2,3,4)] fold_update_upt [of cnt "ring_entries pb" "descriptor pb"]
    by (simp add: pb(5))
  then have run: "publish_all pb = Ok pb'"
    by (simp add: publish_all_def pb(1,3) advance_locked_def Let_def pb'_def)
  have tl: "published_tail pb' = pb_entry_count pb" using c by (simp add: published_tail_def pb'_def)
  then have lev: "ring_level (pb', 0) = cnt" by (simp add: ring_level_def pb(1))
  have slot: "buf_bid (ring_slot (pb', 0) j) = of_nat j"
    "buf_addr (ring_slot (pb', 0) j) = of_nat (buffer_ptrs pb ! j)"
    "buf_len (ring_slot (pb', 0) j) = of_nat (pb_buffer_len pb)" if "j < cnt" for j
  proof -
    have "unat (of_nat j :: u16) = j" using that c by (intro unat_of_nat_u16) simp
    then have "unat (of_nat j AND pb_mask pb) = j"
      using mask_index [OF assms(2,3) pb(1)] pb(2) that by simp
    then show "buf_bid (ring_slot (pb', 0) j) = of_nat j"
      "buf_addr (ring_slot (pb', 0) j) = of_nat (buffer_ptrs pb ! j)"
      "buf_len (ring_slot (pb', 0) j) = of_nat (pb_buffer_len pb)"
      using that by (cases "j = 0"; simp add: ring_slot_def pb'_def descriptor_def)+
  qed
  have av: "available (pb', 0) = map of_nat [0 ..< cnt]"
    by (simp add: available_def lev slot(1))
  have "unat (of_nat j :: u16) = j" if "j < cnt" for j
    using that c by (intro unat_of_nat_u16) simp
  then have "ring_inv (pb', 0)"
    using slot pb tl c assms(2,3) lev unfolding ring_inv_def Let_def fst_conv
    by (auto simp: pb'_def)
  then show ?thesis using run av pb by (auto simp: pb'_def)
qed

section \<open>Correctness of the ring\<close>


definition example_libc :: libc_memory where
  "example_libc = \<lparr> sysconf_pagesize = 4096, last_errno = 0, posix_memalign = (\<lambda>align bytes. (0, align)) \<rparr>"

text \<open>A ring of two buffers as \<^verbatim>\<open>new\<close> and \<^verbatim>\<open>publish_all\<close> leave it.\<close>

definition example_ring :: ProvidedBuffers where
  "example_ring =
     \<lparr> ring_memory = \<lparr> pam_addr = 4096, pam_size = 32 \<rparr>,
       ring_entries = [\<lparr> buf_addr = 100, buf_len = 50, buf_bid = 0, buf_resv = 2 \<rparr>,
                       \<lparr> buf_addr = 200, buf_len = 50, buf_bid = 1, buf_resv = 0 \<rparr>],
       buffer_ptrs = [100, 200], pb_buffer_len = 50, pb_entry_count = 2, pb_mask = 1,
       pb_group_id = 0, pb_tail = 2, pb_active = True \<rparr>"

definition example_fresh :: ProvidedBuffers where
  "example_fresh = example_ring\<lparr>ring_entries := [zero_buf, zero_buf], pb_tail := 0\<rparr>"

lemma example_ring_published:
  "provided_new example_libc (\<lambda>i. 100 + 100 * i) 50 2 0 = Ok example_fresh"
  "publish_all example_fresh = Ok example_ring"
proof -
  have "replicate 2 zero_buf = [zero_buf, zero_buf]" "[0 ..< 2] = [0, 1 :: nat]"
    by (simp_all add: numeral_2_eq_2)
  then show "provided_new example_libc (\<lambda>i. 100 + 100 * i) 50 2 0 = Ok example_fresh"
    by (simp add: provided_new_def example_libc_def checked_mul_def IO_URING_BUF_SIZE_def usize_max_def
        page_aligned_new_def example_fresh_def example_ring_def)
  show "publish_all example_fresh = Ok example_ring" by code_simp
qed


text \<open>
  \<^verbatim>\<open>recycle\<close> has a window in which the ring is not well-formed.  Writing descriptor 0 stores
  \<^verbatim>\<open>resv: 0\<close> over the published tail, and the tail is restored only by the store that follows.
  For the two-buffer ring with both buffers held by the application (head and tail are 2),
  giving back buffer 0 makes the kernel see tail 0 in between; a kernel that looks at the ring
  then takes buffer 0 and next buffer 1, which the application still reads.
\<close>

theorem recycle_window_hands_out_held_buffer:
  "let held = snd (queue_run ring_recycle kernel_take [Deq, Deq] (example_ring, 0)) in
   available held = [] \<and>
   (case write_buffer_descriptor (pb_tail (fst held)) 0 (fst held) of
      Ok pb \<Rightarrow> published_tail pb = 0 \<and> snd held = 2 \<and>
               fst (queue_run ring_recycle kernel_take [Deq, Deq] (pb, snd held)) = [0, 1]
    | _ \<Rightarrow> False)"
  by code_simp

end
