(* ===== verification/Uring_Env.thy ===== *)
theory Uring_Env
  imports Io_Error
begin

text \<open>
  What the two driver threads use of the outside: the \<^verbatim>\<open>io_uring\<close> crate, eventfds and \<^verbatim>\<open>poll\<close> from
  libc, and the clock.  None of it is part of the repository, so every call is a field of
  \<open>uring_env\<close>, a function on a world \<open>'w\<close>; the drivers are defined for any such environment.

  The eventfd helpers (\<^verbatim>\<open>drain_eventfd\<close>, \<^verbatim>\<open>signal_eventfd\<close>, \<^verbatim>\<open>new_eventfd\<close>, \<^verbatim>\<open>dup_fd\<close>; the same code in
  \<^verbatim>\<open>src/src/core/rx.rs\<close> and \<^verbatim>\<open>src/src/core/tx.rs\<close>) are defined here.  Loops are partial functions into
  \<open>option\<close>: \<open>None\<close> is a call that does not return.
\<close>

section \<open>Calls that may fail or not return\<close>

type_synonym ('x, 's) call = "('x res \<times> 's) option"

text \<open>The \<^verbatim>\<open>?\<close> operator: go on with the value, or return the error.\<close>

definition andthen :: "('x, 's) call \<Rightarrow> ('x \<Rightarrow> 's \<Rightarrow> ('y, 's) call) \<Rightarrow> ('y, 's) call" where
  "andthen m f = Option.bind m (\<lambda>(r, s). case r of
     Ok x \<Rightarrow> f x s | Err e \<Rightarrow> Some (Err e, s) | Panic \<Rightarrow> Some (Panic, s))"

text \<open>\<^verbatim>\<open>if let Err(error) = m { handler }\<close>, \<^verbatim>\<open>let _ = m;\<close> and a call on a part of the state.\<close>

definition on_err :: "('x, 's) call \<Rightarrow> (io_error \<Rightarrow> 's \<Rightarrow> 's) \<Rightarrow> (unit, 's) call" where
  "on_err m handler = Option.bind m (\<lambda>(r, s). case r of
     Ok x \<Rightarrow> Some (Ok (), s) | Err e \<Rightarrow> Some (Ok (), handler e s) | Panic \<Rightarrow> Some (Panic, s))"

definition ignoring :: "('x, 's) call \<Rightarrow> (unit, 's) call" where
  "ignoring m = on_err m (\<lambda>_ s. s)"

definition on_world :: "('x, 'w) call \<Rightarrow> 't \<Rightarrow> ('x, 't \<times> 'w) call" where
  "on_world m t = map_option (\<lambda>(r, w). (r, t, w)) m"

lemma andthen_simps [simp]:
  "andthen (Some (Ok x, s)) f = f x s"
  "andthen (Some (Err e, s)) f = Some (Err e, s)"
  "andthen (Some (Panic, s)) f = Some (Panic, s)"
  "andthen None f = None"
  by (simp_all add: andthen_def)

lemma andthen_Ok_iff:
  "andthen m f = Some (Ok y, s') \<longleftrightarrow> (\<exists>x s. m = Some (Ok x, s) \<and> f x s = Some (Ok y, s'))"
  by (auto simp: andthen_def split: Option.bind_splits res.splits)

lemma andthen_Err_iff:
  "andthen m f = Some (Err e, s') \<longleftrightarrow>
     m = Some (Err e, s') \<or> (\<exists>x s. m = Some (Ok x, s) \<and> f x s = Some (Err e, s'))"
  by (auto simp: andthen_def split: Option.bind_splits res.splits)

lemma andthen_Some_iff:
  "andthen m f = Some (r, s') \<longleftrightarrow>
     (\<exists>x s. m = Some (Ok x, s) \<and> f x s = Some (r, s')) \<or>
     (\<exists>e. r = Err e \<and> m = Some (Err e, s')) \<or> r = Panic \<and> m = Some (Panic, s')"
  by (auto simp: andthen_def split: Option.bind_splits res.splits)

lemma on_err_simps [simp]:
  "on_err (Some (Ok x, s)) h = Some (Ok (), s)"
  "on_err (Some (Err e, s)) h = Some (Ok (), h e s)"
  "on_err (Some (Panic, s)) h = Some (Panic, s)"
  "on_err None h = None"
  by (simp_all add: on_err_def)

lemma on_err_Some_iff:
  "on_err m h = Some (r, s') \<longleftrightarrow>
     r = Ok () \<and> (\<exists>x. m = Some (Ok x, s')) \<or> r = Ok () \<and> (\<exists>e s. m = Some (Err e, s) \<and> s' = h e s) \<or>
     r = Panic \<and> m = Some (Panic, s')"
  by (auto simp: on_err_def split: Option.bind_splits res.splits)

lemma on_world_Some_iff:
  "on_world m t = Some (r, s) \<longleftrightarrow> (\<exists>w. m = Some (r, w) \<and> s = (t, w))"
  by (auto simp: on_world_def)

lemma on_world_simps [simp]: "on_world (Some (r, w)) t = Some (r, t, w)" "on_world None t = None"
  by (simp_all add: on_world_def)

lemma andthen_mono [partial_function_mono]:
  assumes "mono_option B" "\<And>x s. mono_option (\<lambda>f. C x s f)"
  shows "mono_option (\<lambda>f. andthen (B f) (\<lambda>x s. C x s f))"
  unfolding andthen_def using assms
  by (intro bind_mono) (auto simp: monotone_def flat_ord_def fun_ord_def split: res.splits prod.splits)

lemma on_err_mono [partial_function_mono]:
  assumes "mono_option B"
  shows "mono_option (\<lambda>f. on_err (B f) h)"
  unfolding on_err_def using assms
  by (intro bind_mono) (auto simp: monotone_def flat_ord_def fun_ord_def split: res.splits prod.splits)

text \<open>A postcondition of a call: it holds of what the call returns, if it returns.\<close>

definition call_post :: "('x res \<Rightarrow> 's \<Rightarrow> bool) \<Rightarrow> ('x, 's) call \<Rightarrow> bool" where
  "call_post Q m \<longleftrightarrow> (\<forall>r s. m = Some (r, s) \<longrightarrow> Q r s)"

lemma call_postI: "(\<And>r s. m = Some (r, s) \<Longrightarrow> Q r s) \<Longrightarrow> call_post Q m"
  by (simp add: call_post_def)

lemma call_postD: "call_post Q m \<Longrightarrow> m = Some (r, s) \<Longrightarrow> Q r s"
  by (simp add: call_post_def)

lemma call_post_Some [simp]: "call_post Q (Some (r, s)) \<longleftrightarrow> Q r s"
  by (simp add: call_post_def)

lemma call_post_None [simp]: "call_post Q None"
  by (simp add: call_post_def)

lemma call_post_mono: "call_post P m \<Longrightarrow> (\<And>r s. P r s \<Longrightarrow> Q r s) \<Longrightarrow> call_post Q m"
  by (simp add: call_post_def)

lemma call_post_andthen:
  assumes "call_post P m" "\<And>x s. P (Ok x) s \<Longrightarrow> call_post Q (f x s)"
    and "\<And>e s. P (Err e) s \<Longrightarrow> Q (Err e) s" "\<And>s. P Panic s \<Longrightarrow> Q Panic s"
  shows "call_post Q (andthen m f)"
  using assms by (auto simp: call_post_def andthen_Some_iff)

lemma call_post_on_err:
  assumes "call_post P m" "\<And>x s. P (Ok x) s \<Longrightarrow> Q (Ok ()) s" "\<And>e s. P (Err e) s \<Longrightarrow> Q (Ok ()) (h e s)"
    and "\<And>s. P Panic s \<Longrightarrow> Q Panic s"
  shows "call_post Q (on_err m h)"
  using assms by (auto simp: call_post_def on_err_Some_iff)

lemma call_post_on_world:
  "(\<And>r w'. m = Some (r, w') \<Longrightarrow> Q r (t, w')) \<Longrightarrow> call_post Q (on_world m t)"
  by (auto simp: call_post_def on_world_Some_iff)

lemma call_post_conj: "call_post P m \<Longrightarrow> call_post Q m \<Longrightarrow> call_post (\<lambda>r s. P r s \<and> Q r s) m"
  by (simp add: call_post_def)

text \<open>Total correctness: the call returns, without a panic, and the postcondition holds.\<close>

definition call_total :: "('x res \<Rightarrow> 's \<Rightarrow> bool) \<Rightarrow> ('x, 's) call \<Rightarrow> bool" where
  "call_total Q m \<longleftrightarrow> (\<exists>r s. m = Some (r, s) \<and> r \<noteq> Panic \<and> Q r s)"

lemma call_total_Some [simp]: "call_total Q (Some (r, s)) \<longleftrightarrow> r \<noteq> Panic \<and> Q r s"
  by (auto simp: call_total_def)

lemma call_totalE:
  assumes "call_total Q m"
  obtains r s where "m = Some (r, s)" "r \<noteq> Panic" "Q r s"
  using assms by (auto simp: call_total_def)

lemma call_total_mono: "call_total P m \<Longrightarrow> (\<And>r s. P r s \<Longrightarrow> Q r s) \<Longrightarrow> call_total Q m"
  by (auto simp: call_total_def)

lemma call_total_and_post: "call_total P m \<Longrightarrow> call_post Q m \<Longrightarrow> call_total (\<lambda>r s. P r s \<and> Q r s) m"
  by (auto simp: call_total_def call_post_def)

lemma call_total_andthen:
  assumes "call_total P m" "\<And>x s. P (Ok x) s \<Longrightarrow> call_total Q (f x s)" "\<And>e s. P (Err e) s \<Longrightarrow> Q (Err e) s"
  shows "call_total Q (andthen m f)"
  using assms(1)
proof (rule call_totalE)
  fix r s
  assume "m = Some (r, s)" "r \<noteq> Panic" "P r s"
  then show ?thesis using assms(2,3) by (cases r) auto
qed

lemma call_total_on_err:
  assumes "call_total P m" "\<And>x s. P (Ok x) s \<Longrightarrow> Q (Ok ()) s" "\<And>e s. P (Err e) s \<Longrightarrow> Q (Ok ()) (h e s)"
  shows "call_total Q (on_err m h)"
  using assms(1)
proof (rule call_totalE)
  fix r s
  assume "m = Some (r, s)" "r \<noteq> Panic" "P r s"
  then show ?thesis using assms(2,3) by (cases r) auto
qed

lemma call_total_on_world:
  "call_total (\<lambda>r w. Q r (t, w)) m \<Longrightarrow> call_total Q (on_world m t)"
  by (auto simp: call_total_def on_world_Some_iff)

text \<open>Calls that always return, as a result beside the world.\<close>

definition then_try :: "'x res \<times> 'w \<Rightarrow> ('x \<Rightarrow> 'w \<Rightarrow> 'y res \<times> 'w) \<Rightarrow> 'y res \<times> 'w" where
  "then_try m f = (case m of (Ok x, w) \<Rightarrow> f x w | (Err e, w) \<Rightarrow> (Err e, w) | (Panic, w) \<Rightarrow> (Panic, w))"

lemma then_try_Ok_iff:
  "then_try m f = (Ok y, w') \<longleftrightarrow> (\<exists>x w. m = (Ok x, w) \<and> f x w = (Ok y, w'))"
  by (auto simp: then_try_def split: prod.splits res.splits)

section \<open>Submission and completion entries\<close>

text \<open>
  The result of a completion is a count or a negated error number, so \<^verbatim>\<open>-result\<close> does not overflow.
\<close>

record cqe =
  cqe_user_data :: u64
  cqe_result :: i32
  cqe_flags :: u32

text \<open>The operations the crate builds, with the arguments it gives them.\<close>

datatype sqe =
    ReadMulti i32 u64 u16 u64
  | AsyncCancel u64 u64
  | Write i32 usize u32 u64 bool

section \<open>The environment\<close>

record 'w uring_env =
  sq_push :: "sqe \<Rightarrow> 'w \<Rightarrow> bool \<times> 'w"
  sq_push_multiple :: "sqe list \<Rightarrow> 'w \<Rightarrow> bool \<times> 'w"
  sq_capacity :: "'w \<Rightarrow> usize"
  sq_len :: "'w \<Rightarrow> usize"
  ring_submit :: "'w \<Rightarrow> unit res \<times> 'w"
  cq_collect :: "'w \<Rightarrow> cqe list \<times> 'w"
  cq_is_empty :: "'w \<Rightarrow> bool"
  cq_overflow :: "'w \<Rightarrow> bool"
  buffer_select :: "u32 \<Rightarrow> u16 option"
  cqe_more :: "u32 \<Rightarrow> bool"
  poll_fds :: "i32 list \<Rightarrow> i32 \<Rightarrow> 'w \<Rightarrow> bool list res \<times> 'w"
  fd_read_u64 :: "i32 \<Rightarrow> 'w \<Rightarrow> int res \<times> 'w"
  fd_write_u64 :: "i32 \<Rightarrow> u64 \<Rightarrow> 'w \<Rightarrow> int res \<times> 'w"
  sys_eventfd :: "'w \<Rightarrow> i32 res \<times> 'w"
  sys_dup :: "i32 \<Rightarrow> 'w \<Rightarrow> i32 res \<times> 'w"
  instant_now :: "'w \<Rightarrow> nat \<times> 'w"

section \<open>Submitting and receiving\<close>

text \<open>What \<^verbatim>\<open>Receiver::try_recv\<close> returns.\<close>

datatype 'c try_recv_result = Received 'c | Empty | Closed

text \<open>The retry loop of \<^verbatim>\<open>submit_entry\<close>: a full queue is submitted and the push repeated.\<close>

partial_function (option) push_retry ::
    "('w, 'm) uring_env_scheme \<Rightarrow> sqe \<Rightarrow> 'w \<Rightarrow> (unit, 'w) call" where
  "push_retry env entry w =
     (let (pushed, w) = sq_push env entry w in
      if pushed then Some (Ok (), w)
      else
        (case ring_submit env w of
           (Ok _, w) \<Rightarrow> push_retry env entry w
         | (Err e, w) \<Rightarrow> Some (Err e, w)
         | (Panic, w) \<Rightarrow> Some (Panic, w)))"

declare push_retry.simps [code]

section \<open>Eventfds\<close>

definition new_eventfd :: "('w, 'm) uring_env_scheme \<Rightarrow> 'w \<Rightarrow> i32 res \<times> 'w" where
  "new_eventfd env w = sys_eventfd env w"

definition dup_fd :: "('w, 'm) uring_env_scheme \<Rightarrow> i32 \<Rightarrow> 'w \<Rightarrow> i32 res \<times> 'w" where
  "dup_fd env fd w = sys_dup env fd w"

partial_function (option) drain_eventfd ::
    "('w, 'm) uring_env_scheme \<Rightarrow> i32 \<Rightarrow> 'w \<Rightarrow> (unit, 'w) call" where
  "drain_eventfd env fd w =
     (case fd_read_u64 env fd w of
        (Ok n, w) \<Rightarrow> if n = 8 then drain_eventfd env fd w else Some (Ok (), w)
      | (Err e, w) \<Rightarrow>
          if kind e = WouldBlock then Some (Ok (), w)
          else if kind e = Interrupted then drain_eventfd env fd w
          else Some (Err e, w)
      | (Panic, w) \<Rightarrow> Some (Panic, w))"

partial_function (option) signal_eventfd ::
    "('w, 'm) uring_env_scheme \<Rightarrow> i32 \<Rightarrow> 'w \<Rightarrow> (unit, 'w) call" where
  "signal_eventfd env fd w =
     (case fd_write_u64 env fd 1 w of
        (Ok n, w) \<Rightarrow> if n = 8 then Some (Ok (), w) else signal_eventfd env fd w
      | (Err e, w) \<Rightarrow>
          if kind e = Interrupted then signal_eventfd env fd w else Some (Err e, w)
      | (Panic, w) \<Rightarrow> Some (Panic, w))"

text \<open>\<^verbatim>\<open>poll\<close>, restarted when a signal interrupts it.\<close>

partial_function (option) poll_retry ::
    "('w, 'm) uring_env_scheme \<Rightarrow> i32 list \<Rightarrow> i32 \<Rightarrow> 'w \<Rightarrow> (bool list, 'w) call" where
  "poll_retry env fds timeout w =
     (case poll_fds env fds timeout w of
        (Ok revents, w) \<Rightarrow> Some (Ok revents, w)
      | (Err e, w) \<Rightarrow>
          if kind e = Interrupted then poll_retry env fds timeout w else Some (Err e, w)
      | (Panic, w) \<Rightarrow> Some (Panic, w))"

declare drain_eventfd.simps [code] signal_eventfd.simps [code] poll_retry.simps [code]

text \<open>
  A counter eventfd is drained by at most one successful read, so draining ends: if a measure
  of the world bounds how often a read can succeed or be interrupted, \<^verbatim>\<open>drain_eventfd\<close> returns.
\<close>

lemma drain_eventfd_returns:
  assumes "\<And>w r w'. fd_read_u64 env fd w = (r, w') \<Longrightarrow>
      r = Ok 8 \<or> (\<exists>e. r = Err e \<and> kind e = Interrupted) \<Longrightarrow> m w' < (m w :: nat)"
  shows "\<exists>r w'. drain_eventfd env fd w = Some (r, w')"
proof (induction "m w" arbitrary: w rule: less_induct)
  case less
  obtain r w' where rd: "fd_read_u64 env fd w = (r, w')" by (cases "fd_read_u64 env fd w")
  show ?case
  proof (cases "r = Ok 8 \<or> (\<exists>e. r = Err e \<and> kind e = Interrupted)")
    case True
    then have "\<exists>r w''. drain_eventfd env fd w' = Some (r, w'')" using less assms rd by blast
    then show ?thesis
      using True rd by (subst drain_eventfd.simps) (auto simp: rd)
  next
    case False
    then show ?thesis using rd by (subst drain_eventfd.simps) (cases r; auto)
  qed
qed

text \<open>A property of the world that the single calls keep is kept by the loops.\<close>

lemma drain_eventfd_keeps:
  fixes env :: "('w, 'm) uring_env_scheme"
  assumes "\<And>w r w'. I w \<Longrightarrow> fd_read_u64 env fd w = (r, w') \<Longrightarrow> I w'"
    and "drain_eventfd env fd w = Some (r, w')" "I w"
  shows "I w'"
proof -
  let ?P = "\<lambda>(e :: ('w, 'm) uring_env_scheme) f w y. e = env \<longrightarrow> f = fd \<longrightarrow> I w \<longrightarrow> I (snd y)"
  have "?P env fd w (r, w')"
  proof (rule drain_eventfd.raw_induct [where P = ?P, OF _ assms(2)], intro impI)
    fix cont :: "('w, 'm) uring_env_scheme \<Rightarrow> i32 \<Rightarrow> 'w \<Rightarrow> (unit, 'w) call"
    fix e f w y
    assume IH: "\<And>e f w y. cont e f w = Some y \<Longrightarrow> ?P e f w y"
      and y: "(case fd_read_u64 e f w of
          (Ok n, w) \<Rightarrow> if n = 8 then cont e f w else Some (Ok (), w)
        | (Err err, w) \<Rightarrow> if kind err = WouldBlock then Some (Ok (), w)
            else if kind err = Interrupted then cont e f w else Some (Err err, w)
        | (Panic, w) \<Rightarrow> Some (Panic, w)) = Some y"
      and eq: "e = env" "f = fd" "I w"
    obtain r w1 where rd: "fd_read_u64 env fd w = (r, w1)" by (cases "fd_read_u64 env fd w")
    have "I w1" using assms(1) [OF eq(3) rd] .
    with y rd eq IH [of env fd w1 y] show "I (snd y)" by (cases r) (auto split: if_splits)
  qed
  with assms(3) show ?thesis by simp
qed

lemma signal_eventfd_keeps:
  fixes env :: "('w, 'm) uring_env_scheme"
  assumes "\<And>w r w'. I w \<Longrightarrow> fd_write_u64 env fd 1 w = (r, w') \<Longrightarrow> I w'"
    and "signal_eventfd env fd w = Some (r, w')" "I w"
  shows "I w'"
proof -
  let ?P = "\<lambda>(e :: ('w, 'm) uring_env_scheme) f w y. e = env \<longrightarrow> f = fd \<longrightarrow> I w \<longrightarrow> I (snd y)"
  have "?P env fd w (r, w')"
  proof (rule signal_eventfd.raw_induct [where P = ?P, OF _ assms(2)], intro impI)
    fix cont :: "('w, 'm) uring_env_scheme \<Rightarrow> i32 \<Rightarrow> 'w \<Rightarrow> (unit, 'w) call"
    fix e f w y
    assume IH: "\<And>e f w y. cont e f w = Some y \<Longrightarrow> ?P e f w y"
      and y: "(case fd_write_u64 e f 1 w of
          (Ok n, w) \<Rightarrow> if n = 8 then Some (Ok (), w) else cont e f w
        | (Err err, w) \<Rightarrow> if kind err = Interrupted then cont e f w else Some (Err err, w)
        | (Panic, w) \<Rightarrow> Some (Panic, w)) = Some y"
      and eq: "e = env" "f = fd" "I w"
    obtain r w1 where wr: "fd_write_u64 env fd 1 w = (r, w1)" by (cases "fd_write_u64 env fd 1 w")
    have "I w1" using assms(1) [OF eq(3) wr] .
    with y wr eq IH [of env fd w1 y] show "I (snd y)" by (cases r) (auto split: if_splits)
  qed
  with assms(3) show ?thesis by simp
qed

lemma poll_retry_keeps:
  fixes env :: "('w, 'm) uring_env_scheme"
  assumes "\<And>w r w'. I w \<Longrightarrow> poll_fds env fds timeout w = (r, w') \<Longrightarrow> I w'"
    and "poll_retry env fds timeout w = Some (r, w')" "I w"
  shows "I w'"
proof -
  let ?P = "\<lambda>(e :: ('w, 'm) uring_env_scheme) f t w y. e = env \<longrightarrow> f = fds \<longrightarrow> t = timeout \<longrightarrow> I w \<longrightarrow> I (snd y)"
  have "?P env fds timeout w (r, w')"
  proof (rule poll_retry.raw_induct [where P = ?P, OF _ assms(2)], intro impI)
    fix cont :: "('w, 'm) uring_env_scheme \<Rightarrow> i32 list \<Rightarrow> i32 \<Rightarrow> 'w \<Rightarrow> (bool list, 'w) call"
    fix e f t w y
    assume IH: "\<And>e f t w y. cont e f t w = Some y \<Longrightarrow> ?P e f t w y"
      and y: "(case poll_fds e f t w of
          (Ok revents, w) \<Rightarrow> Some (Ok revents, w)
        | (Err err, w) \<Rightarrow> if kind err = Interrupted then cont e f t w else Some (Err err, w)
        | (Panic, w) \<Rightarrow> Some (Panic, w)) = Some y"
      and eq: "e = env" "f = fds" "t = timeout" "I w"
    obtain r w1 where rd: "poll_fds env fds timeout w = (r, w1)" by (cases "poll_fds env fds timeout w")
    have "I w1" using assms(1) [OF eq(4) rd] .
    with y rd eq IH [of env fds timeout w1 y] show "I (snd y)"
      by (cases r; cases y) (auto split: if_splits)
  qed
  with assms(3) show ?thesis by simp
qed

end
