(* ===== verification/Rx_Driver.thy ===== *)
theory Rx_Driver
  imports Rx_Consumer Rx_Auto_Resume Provided_Buffers Uring_Env
begin

text \<open>
  The RX driver thread (\<^verbatim>\<open>RxDriverThread\<close>, \<^verbatim>\<open>RxDriverCommand\<close> and \<^verbatim>\<open>ProvidedBufferRecycle\<close> of
  \<^verbatim>\<open>src/src/core/rx.rs\<close>).

  A method of the driver is a function on the thread's state and the world; beside the ring
  and the eventfds of \<open>uring_env\<close> it uses the command channel, the acknowledgement channels
  and the executor's wakers, the further fields of \<open>rx_env\<close>.
\<close>

section \<open>State and environment\<close>

datatype 'a RxDriverCommand = Start 'a | Stop 'a | Shutdown | AutoResumeCheck

definition RX_READ_USER_DATA :: u64 where "RX_READ_USER_DATA = 0x525852454144"
definition RX_CANCEL_USER_DATA :: u64 where "RX_CANCEL_USER_DATA = 0x525843414e43"

record ('w, 'a) rx_env = "'w uring_env" +
  rx_try_recv :: "'w \<Rightarrow> 'a RxDriverCommand try_recv_result \<times> 'w"
  rx_recv_blocking :: "'w \<Rightarrow> 'a RxDriverCommand option \<times> 'w"
  ack_send :: "'a \<Rightarrow> unit res \<Rightarrow> 'w \<Rightarrow> 'w"
  wake_tasks :: "nat list \<Rightarrow> 'w \<Rightarrow> 'w"
  virtio_hdr_len :: usize

text \<open>The recycle handle of a ring packet is the id of its buffer.\<close>

record 'a RxDriverThread =
  rx_buffers :: ProvidedBuffers
  rx_cq_eventfd :: i32
  device :: i32
  rx_shared :: "u16 RxSharedState"
  command_eventfd :: i32
  running :: bool
  read_active :: bool
  stop_ack :: "'a option"
  shutdown_requested :: bool
  auto_resume :: RxAutoResume
  packets_include_virtio_net_hdr :: bool

type_synonym ('a, 'w) rx_sys = "'a RxDriverThread \<times> 'w"

section \<open>Recycling a buffer\<close>

text \<open>\<^verbatim>\<open>ProvidedBufferRecycle::recycle\<close>; the flag says that \<^verbatim>\<open>AutoResumeCheck\<close> was sent.\<close>

definition provided_buffer_recycle ::
    "u16 \<Rightarrow> ProvidedBuffers \<times> RxAutoResume \<Rightarrow> (ProvidedBuffers \<times> RxAutoResume \<times> bool) res" where
  "provided_buffer_recycle bid s =
     bind_res (recycle bid (fst s)) (\<lambda>buffers.
       let (resume, sends) = note_recycled (snd s) in Ok (buffers, resume, sends))"

section \<open>Submitting\<close>

definition rx_submit_entry :: "('w, 'm) uring_env_scheme \<Rightarrow> sqe \<Rightarrow> 'w \<Rightarrow> (unit, 'w) call" where
  "rx_submit_entry env entry w =
     andthen (push_retry env entry w) (\<lambda>_ w. Some (ring_submit env w))"

definition submit_multishot_read ::
    "('w, 'a, 'm) rx_env_scheme \<Rightarrow> ('a, 'w) rx_sys \<Rightarrow> (unit, ('a, 'w) rx_sys) call" where
  "submit_multishot_read env s =
     (let (self, w) = s in
      andthen (on_world (rx_submit_entry env
                 (ReadMulti (device self) 0 (pb_group_id (rx_buffers self)) RX_READ_USER_DATA) w) self)
        (\<lambda>_ (self, w). Some (Ok (), self\<lparr>read_active := True\<rparr>, w)))"

definition submit_cancel ::
    "('w, 'a, 'm) rx_env_scheme \<Rightarrow> ('a, 'w) rx_sys \<Rightarrow> (unit, ('a, 'w) rx_sys) call" where
  "submit_cancel env s =
     (let (self, w) = s in
      on_world (rx_submit_entry env (AsyncCancel RX_READ_USER_DATA RX_CANCEL_USER_DATA) w) self)"

section \<open>Shared state and failure\<close>

definition update_shared :: "('w, 'a, 'm) rx_env_scheme \<Rightarrow>
    (u16 RxSharedState \<Rightarrow> u16 RxSharedState \<times> nat list) \<Rightarrow> ('a, 'w) rx_sys \<Rightarrow> ('a, 'w) rx_sys" where
  "update_shared env f s =
     (let (self, w) = s; (sh, ws) = f (rx_shared self)
      in (self\<lparr>rx_shared := sh\<rparr>, wake_tasks env ws w))"

definition fail :: "('w, 'a, 'm) rx_env_scheme \<Rightarrow> io_error \<Rightarrow> ('a, 'w) rx_sys \<Rightarrow> ('a, 'w) rx_sys" where
  "fail env error s =
     (let (self, w) = s;
          self = self\<lparr>running := False, read_active := False, auto_resume := disarm (auto_resume self)\<rparr>;
          (self, w) = update_shared env (set_faulted (clone_io_error error)) (self, w)
      in case stop_ack self of
           Some ack \<Rightarrow> (self\<lparr>stop_ack := None\<rparr>, ack_send env ack (Err error) w)
         | None \<Rightarrow> (self, w))"

definition enter_enobufs_fault :: "('w, 'a, 'm) rx_env_scheme \<Rightarrow> ('a, 'w) rx_sys \<Rightarrow> ('a, 'w) rx_sys" where
  "enter_enobufs_fault env s =
     (let (self, w) = s;
          self = self\<lparr>running := False, auto_resume := arm_enobufs (auto_resume self)\<rparr>
      in update_shared env (set_faulted rx_buffers_exhausted) (self, w))"

text \<open>\<^verbatim>\<open>self.stop_ack.take()\<close>, acknowledged with success, and \<^verbatim>\<open>set_stopped\<close>.\<close>

definition finish_stop :: "('w, 'a, 'm) rx_env_scheme \<Rightarrow> ('a, 'w) rx_sys \<Rightarrow> ('a, 'w) rx_sys" where
  "finish_stop env s =
     (let (self, w) = s in
      case stop_ack self of
        Some ack \<Rightarrow>
          update_shared env set_stopped (self\<lparr>stop_ack := None\<rparr>, ack_send env ack (Ok ()) w)
      | None \<Rightarrow> s)"

section \<open>Commands\<close>

definition start_rx ::
    "('w, 'a, 'm) rx_env_scheme \<Rightarrow> ('a, 'w) rx_sys \<Rightarrow> (unit, ('a, 'w) rx_sys) call" where
  "start_rx env s =
     (let (self, w) = s;
          self = self\<lparr>auto_resume := disarm (auto_resume self), running := True\<rparr>;
          set_run = (\<lambda>s. update_shared env (\<lambda>sh. (set_running sh, [])) s)
      in if read_active self then Some (Ok (), set_run (self, w))
         else
           Option.bind (submit_multishot_read env (self, w)) (\<lambda>(r, s). case r of
             Ok _ \<Rightarrow> Some (Ok (), set_run s)
           | Err e \<Rightarrow> Some (Err e, (fst s)\<lparr>running := False\<rparr>, snd s)
           | Panic \<Rightarrow> Some (Panic, s)))"

definition begin_stop ::
    "('w, 'a, 'm) rx_env_scheme \<Rightarrow> 'a \<Rightarrow> ('a, 'w) rx_sys \<Rightarrow> (unit, ('a, 'w) rx_sys) call" where
  "begin_stop env ack s =
     (let (self, w) = s;
          self = self\<lparr>auto_resume := disarm (auto_resume self), running := False\<rparr>
      in if \<not> read_active self then Some (Ok (), self, ack_send env ack (Ok ()) w)
         else submit_cancel env (self\<lparr>stop_ack := Some ack\<rparr>, w))"

definition try_auto_resume ::
    "('w, 'a, 'm) rx_env_scheme \<Rightarrow> ('a, 'w) rx_sys \<Rightarrow> (unit, ('a, 'w) rx_sys) call" where
  "try_auto_resume env s =
     (let (self, w) = s in
      if \<not> pending_enobufs (auto_resume self) then Some (Ok (), s)
      else
        (let self = self\<lparr>running := True\<rparr> in
         andthen (if read_active self then Some (Ok (), self, w)
                  else submit_multishot_read env (self, w))
           (\<lambda>_ (self, w). Some (Ok (),
              update_shared env (\<lambda>sh. (set_running sh, []))
                (self\<lparr>auto_resume := disarm (auto_resume self)\<rparr>, w)))))"

fun handle_command :: "('w, 'a, 'm) rx_env_scheme \<Rightarrow> 'a RxDriverCommand \<Rightarrow> ('a, 'w) rx_sys \<Rightarrow>
    (unit, ('a, 'w) rx_sys) call" where
  "handle_command env (Start ack) s =
     Option.bind (start_rx env s) (\<lambda>(r, self, w). case r of
       Panic \<Rightarrow> Some (Panic, self, w)
     | _ \<Rightarrow> Some (Ok (), self, ack_send env ack r w))"
| "handle_command env (Stop ack) s = on_err (begin_stop env ack s) (fail env)"
| "handle_command env Shutdown s =
     (let (self, w) = s;
          self = self\<lparr>auto_resume := disarm (auto_resume self), shutdown_requested := True, running := False\<rparr>
      in if read_active self then submit_cancel env (self, w) else Some (Ok (), self, w))"
| "handle_command env AutoResumeCheck s = try_auto_resume env s"

partial_function (option) drain_commands ::
    "('w, 'a, 'm) rx_env_scheme \<Rightarrow> ('a, 'w) rx_sys \<Rightarrow> (unit, ('a, 'w) rx_sys) call" where
  "drain_commands env s =
     (case rx_try_recv env (snd s) of
        (Received command, w) \<Rightarrow>
          andthen (handle_command env command (fst s, w)) (\<lambda>_ s. drain_commands env s)
      | (Empty, w) \<Rightarrow> Some (Ok (), fst s, w)
      | (Closed, w) \<Rightarrow> Some (Err rx_driver_closed, fst s, w))"

declare drain_commands.simps [code]

section \<open>Completions\<close>

text \<open>A completion of the multishot read that carries a packet.\<close>

definition deliver_packet :: "('w, 'a, 'm) rx_env_scheme \<Rightarrow> cqe \<Rightarrow> ('a, 'w) rx_sys \<Rightarrow>
    (unit, ('a, 'w) rx_sys) call" where
  "deliver_packet env entry s =
     (let (self, w) = s; len = nat (cqe_result entry) in
      case buffer_select env (cqe_flags entry) of
        None \<Rightarrow> Some (Err (Custom InvalidData ''rx multishot completion missing selected buffer id''), s)
      | Some bid \<Rightarrow>
          if packets_include_virtio_net_hdr self \<and> len \<le> virtio_hdr_len env
          then Some (Err (Custom InvalidData ''rx offload packet is shorter than virtio header''), s)
          else (case packet_ptr bid (rx_buffers self) of
                  Ok addr \<Rightarrow>
                    Some (Ok (), update_shared env (push_packet
                      (if packets_include_virtio_net_hdr self
                       then from_ring_with_virtio_net_hdr (virtio_hdr_len env) addr len bid
                       else from_ring addr len bid None)) s)
                | Err e \<Rightarrow> Some (Err e, s)
                | Panic \<Rightarrow> Some (Panic, s)))"

definition handle_read_cqe :: "('w, 'a, 'm) rx_env_scheme \<Rightarrow> cqe \<Rightarrow> ('a, 'w) rx_sys \<Rightarrow>
    (unit, ('a, 'w) rx_sys) call" where
  "handle_read_cqe env entry s =
     (let result = cqe_result entry in
      andthen
        (if result \<ge> 0 then deliver_packet env entry s
         else if result = - ENOBUFS then Some (Ok (), enter_enobufs_fault env s)
         else if result \<noteq> - ECANCELED \<or> running (fst s) then Some (Err (Os (- result)), s)
         else Some (Ok (), s))
        (\<lambda>_ (self, w).
           if cqe_more env (cqe_flags entry) then Some (Ok (), self, w)
           else
             (let self = self\<lparr>read_active := False\<rparr> in
              if running self then submit_multishot_read env (self, w)
              else Some (Ok (), finish_stop env (self, w)))))"

definition handle_cancel_cqe :: "('w, 'a, 'm) rx_env_scheme \<Rightarrow> cqe \<Rightarrow> ('a, 'w) rx_sys \<Rightarrow>
    (unit, ('a, 'w) rx_sys) call" where
  "handle_cancel_cqe env entry s =
     (let result = cqe_result entry in
      if result < 0 \<and> result \<noteq> - ENOENT then Some (Err (Os (- result)), s)
      else if \<not> read_active (fst s) then Some (Ok (), finish_stop env s)
      else Some (Ok (), s))"

definition handle_cqe :: "('w, 'a, 'm) rx_env_scheme \<Rightarrow> cqe \<Rightarrow> ('a, 'w) rx_sys \<Rightarrow>
    (unit, ('a, 'w) rx_sys) call" where
  "handle_cqe env entry s =
     (if cqe_user_data entry = RX_READ_USER_DATA then handle_read_cqe env entry s
      else if cqe_user_data entry = RX_CANCEL_USER_DATA then handle_cancel_cqe env entry s
      else Some (Ok (), s))"

fun process_entries :: "('w, 'a, 'm) rx_env_scheme \<Rightarrow> cqe list \<Rightarrow> ('a, 'w) rx_sys \<Rightarrow>
    (unit, ('a, 'w) rx_sys) call" where
  "process_entries env [] s = Some (Ok (), s)"
| "process_entries env (entry # rest) s =
     andthen (handle_cqe env entry s) (\<lambda>_ s. process_entries env rest s)"

partial_function (option) process_cqes ::
    "('w, 'a, 'm) rx_env_scheme \<Rightarrow> ('a, 'w) rx_sys \<Rightarrow> (unit, ('a, 'w) rx_sys) call" where
  "process_cqes env s =
     (let (entries, w) = cq_collect env (snd s) in
      andthen (process_entries env entries (fst s, w)) (\<lambda>_ s.
        if \<not> cq_overflow env (snd s) then Some (Ok (), s)
        else andthen (drain_commands env s) (\<lambda>_ s.
          case ring_submit env (snd s) of
            (Ok _, w) \<Rightarrow> process_cqes env (fst s, w)
          | (Err e, w) \<Rightarrow>
              if kind e = Interrupted then process_cqes env (fst s, w) else Some (Err e, fst s, w)
          | (Panic, w) \<Rightarrow> Some (Panic, fst s, w))))"

declare process_cqes.simps [code]

section \<open>The loop of the thread\<close>

definition wait_for_activity ::
    "('w, 'a, 'm) rx_env_scheme \<Rightarrow> ('a, 'w) rx_sys \<Rightarrow> (unit, ('a, 'w) rx_sys) call" where
  "wait_for_activity env s =
     (let (self, w) = s in
      if \<not> cq_is_empty env w \<or> cq_overflow env w then process_cqes env s
      else
        andthen (on_world (poll_retry env [command_eventfd self, rx_cq_eventfd self] (- 1) w) self)
          (\<lambda>revents (self, w).
             andthen
               (if revents ! 0 then
                  andthen (on_world (drain_eventfd env (command_eventfd self) w) self)
                    (\<lambda>_ s. drain_commands env s)
                else Some (Ok (), self, w))
               (\<lambda>_ (self, w).
                  if revents ! 1 then
                    andthen (on_world (drain_eventfd env (rx_cq_eventfd self) w) self)
                      (\<lambda>_ s. process_cqes env s)
                  else Some (Ok (), self, w))))"

text \<open>
  One iteration of the loop of \<^verbatim>\<open>run\<close>: \<open>Ok True\<close> goes on, \<open>Ok False\<close> is \<^verbatim>\<open>break\<close>.
\<close>

definition run_iteration ::
    "('w, 'a, 'm) rx_env_scheme \<Rightarrow> ('a, 'w) rx_sys \<Rightarrow> (bool, ('a, 'w) rx_sys) call" where
  "run_iteration env s =
     andthen (on_err (drain_commands env s) (fail env)) (\<lambda>_ (self, w).
       if shutdown_requested self \<and> \<not> read_active self then Some (Ok False, self, w)
       else if \<not> running self \<and> \<not> read_active self then
         (case rx_recv_blocking env w of
            (Some command, w) \<Rightarrow>
              andthen (on_world (ignoring (drain_eventfd env (command_eventfd self) w)) self) (\<lambda>_ s.
              andthen (on_err (handle_command env command s) (fail env)) (\<lambda>_ s. Some (Ok True, s)))
          | (None, w) \<Rightarrow> Some (Ok False, self, w))
       else andthen (on_err (wait_for_activity env (self, w)) (fail env)) (\<lambda>_ s. Some (Ok True, s)))"

partial_function (option) run ::
    "('w, 'a, 'm) rx_env_scheme \<Rightarrow> ('a, 'w) rx_sys \<Rightarrow> (unit, ('a, 'w) rx_sys) call" where
  "run env s =
     andthen (run_iteration env s) (\<lambda>continue s. if continue then run env s else Some (Ok (), s))"

declare run.simps [code]

lemmas rx_driver_defs = submit_multishot_read_def submit_cancel_def update_shared_def fail_def
  enter_enobufs_fault_def finish_stop_def start_rx_def begin_stop_def try_auto_resume_def
  deliver_packet_def handle_read_cqe_def handle_cancel_cqe_def handle_cqe_def

end
