(* ===== verification/Rx_Host.thy ===== *)
theory Rx_Host
  imports Rx_Driver
begin

text \<open>
  A concrete environment for the RX driver: submission and completion queues, the command
  queue and the acknowledgements as lists, with the io_uring and eventfd behaviour their
  documentation describes (a full queue is emptied by a submit, an eventfd read on an empty
  counter is \<^verbatim>\<open>EAGAIN\<close>, bit 0 of the completion flags marks a selected buffer whose id is in the
  upper half, bit 1 says that more completions follow).  It shows that what the theorems ask
  of an environment can be had, and it runs the driver on the scenarios below.
\<close>

record sim =
  sim_sq :: "sqe list"
  sim_submitted :: "sqe list"
  sim_cq :: "cqe list"
  sim_cmds :: "nat RxDriverCommand list"
  sim_acks :: "(nat \<times> unit res) list"
  sim_wakes :: "nat list"

definition sim_push :: "sqe list \<Rightarrow> sim \<Rightarrow> bool \<times> sim" where
  "sim_push es w =
     (if length (sim_sq w) + length es \<le> 4 then (True, w\<lparr>sim_sq := sim_sq w @ es\<rparr>) else (False, w))"

definition sim_submit :: "sim \<Rightarrow> unit res \<times> sim" where
  "sim_submit w = (Ok (), w\<lparr>sim_sq := [], sim_submitted := sim_submitted w @ sim_sq w\<rparr>)"

definition sim_try_recv :: "sim \<Rightarrow> nat RxDriverCommand try_recv_result \<times> sim" where
  "sim_try_recv w =
     (case sim_cmds w of [] \<Rightarrow> (Empty, w) | c # cs \<Rightarrow> (Received c, w\<lparr>sim_cmds := cs\<rparr>))"

definition sim_recv_blocking :: "sim \<Rightarrow> nat RxDriverCommand option \<times> sim" where
  "sim_recv_blocking w =
     (case sim_cmds w of [] \<Rightarrow> (None, w) | c # cs \<Rightarrow> (Some c, w\<lparr>sim_cmds := cs\<rparr>))"

definition sim_env :: "(sim, nat) rx_env" where
  "sim_env =
     \<lparr> sq_push = (\<lambda>e. sim_push [e]), sq_push_multiple = sim_push, sq_capacity = (\<lambda>_. 4),
       sq_len = (\<lambda>w. length (sim_sq w)), ring_submit = sim_submit,
       cq_collect = (\<lambda>w. (sim_cq w, w\<lparr>sim_cq := []\<rparr>)), cq_is_empty = (\<lambda>w. sim_cq w = []),
       cq_overflow = (\<lambda>_. False),
       buffer_select = (\<lambda>flags. if bit flags 0 then Some (ucast (drop_bit 16 flags)) else None),
       cqe_more = (\<lambda>flags. bit flags 1),
       poll_fds = (\<lambda>fds timeout w. (Ok [sim_cmds w \<noteq> [], sim_cq w \<noteq> []], w)),
       fd_read_u64 = (\<lambda>fd w. (Err (Os EAGAIN), w)), fd_write_u64 = (\<lambda>fd v w. (Ok 8, w)),
       sys_eventfd = (\<lambda>w. (Ok 3, w)), sys_dup = (\<lambda>fd w. (Ok (fd + 1), w)), instant_now = (\<lambda>w. (0, w)),
       rx_try_recv = sim_try_recv, rx_recv_blocking = sim_recv_blocking,
       ack_send = (\<lambda>a r w. w\<lparr>sim_acks := sim_acks w @ [(a, r)]\<rparr>),
       wake_tasks = (\<lambda>ws w. w\<lparr>sim_wakes := sim_wakes w @ ws\<rparr>), virtio_hdr_len = 10 \<rparr>"

definition sim_empty :: sim where
  "sim_empty = \<lparr> sim_sq = [], sim_submitted = [], sim_cq = [], sim_cmds = [], sim_acks = [], sim_wakes = [] \<rparr>"

text \<open>A thread with a read in flight, over the two-buffer ring.\<close>

definition sim_thread :: "bool \<Rightarrow> nat RxDriverThread" where
  "sim_thread offload =
     \<lparr> rx_buffers = example_ring, rx_cq_eventfd = 4, device = 5,
       rx_shared = shared_default\<lparr>rx_state := Running\<rparr>, command_eventfd = 3,
       running = True, read_active = True, stop_ack = None, shutdown_requested = False,
       auto_resume = auto_resume_new 1, packets_include_virtio_net_hdr = offload \<rparr>"

definition read_cqe :: "i32 \<Rightarrow> u32 \<Rightarrow> cqe" where
  "read_cqe result flags = \<lparr> cqe_user_data = RX_READ_USER_DATA, cqe_result = result, cqe_flags = flags \<rparr>"

lemma sim_env_simps [simp]:
  "sq_push sim_env e w = sim_push [e] w" "ring_submit sim_env w = sim_submit w"
  "cq_collect sim_env w = (sim_cq w, w\<lparr>sim_cq := []\<rparr>)" "cq_is_empty sim_env w = (sim_cq w = [])"
  "cq_overflow sim_env w = False"
  "buffer_select sim_env flags = (if bit flags 0 then Some (ucast (drop_bit 16 flags)) else None)"
  "cqe_more sim_env flags = bit flags 1"
  "poll_fds sim_env fds timeout w = (Ok [sim_cmds w \<noteq> [], sim_cq w \<noteq> []], w)"
  "fd_read_u64 sim_env fd w = (Err (Os EAGAIN), w)"
  "rx_try_recv sim_env w = sim_try_recv w" "rx_recv_blocking sim_env w = sim_recv_blocking w"
  "ack_send sim_env a r w = w\<lparr>sim_acks := sim_acks w @ [(a, r)]\<rparr>"
  "wake_tasks sim_env ws w = w\<lparr>sim_wakes := sim_wakes w @ ws\<rparr>" "virtio_hdr_len sim_env = 10"
  by (simp_all add: sim_env_def)

lemma sim_push_retry:
  "\<exists>w'. push_retry sim_env e w = Some (Ok (), w') \<and> sim_cmds w' = sim_cmds w \<and> sim_acks w' = sim_acks w"
proof (cases "fst (sim_push [e] w)")
  case True
  then show ?thesis by (subst push_retry.simps) (auto simp: sim_push_def split: if_splits)
next
  case False
  then show ?thesis
    by (subst push_retry.simps; subst push_retry.simps) (auto simp: sim_push_def sim_submit_def split: if_splits)
qed

end
