(* ===== verification/Rx_Progress.thy ===== *)
theory Rx_Progress
  imports Rx_Host
begin

text \<open>
  The loops of the RX driver end.  \<^verbatim>\<open>submit_entry\<close> retries while the submission queue is full,
  \<^verbatim>\<open>drain_commands\<close> runs while commands are queued, \<^verbatim>\<open>process_cqes\<close> while the completion queue has
  overflowed.  What they need of the environment is stated as hypotheses: a submit makes room
  in the submission queue, the commands queued at any moment and the completions in the
  kernel's overflow list are finitely many and only the drivers' own calls are made meanwhile.
\<close>

definition sq_drains :: "('w, 'm) uring_env_scheme \<Rightarrow> bool" where
  "sq_drains env \<longleftrightarrow>
     (\<forall>e w w1 r w2. sq_push env e w = (False, w1) \<longrightarrow> ring_submit env w1 = (Ok r, w2) \<longrightarrow>
        fst (sq_push env e w2))"

text \<open>A quantity of the world that no call of the driver increases.\<close>

definition calm :: "('w, 'a, 'm) rx_env_scheme \<Rightarrow> ('w \<Rightarrow> nat) \<Rightarrow> bool" where
  "calm env k \<longleftrightarrow>
     (\<forall>e w. k (snd (sq_push env e w)) \<le> k w) \<and> (\<forall>w. k (snd (ring_submit env w)) \<le> k w) \<and>
     (\<forall>a r w. k (ack_send env a r w) \<le> k w) \<and> (\<forall>ws w. k (wake_tasks env ws w) \<le> k w) \<and>
     (\<forall>w. k (snd (rx_try_recv env w)) \<le> k w) \<and> (\<forall>w. k (snd (cq_collect env w)) \<le> k w)"

definition settles :: "('w \<Rightarrow> nat) \<Rightarrow> nat \<Rightarrow> ('x, 't \<times> 'w) call \<Rightarrow> bool" where
  "settles k n m \<longleftrightarrow> (\<exists>r self w. m = Some (r, self, w) \<and> k w \<le> n)"

named_theorems settle_intros \<open>calls that return without increasing a quantity\<close>

lemma calmD:
  assumes "calm env k"
  shows "sq_push env e w = (b, w') \<Longrightarrow> k w' \<le> k w" "ring_submit env w = (r, w') \<Longrightarrow> k w' \<le> k w"
    "k (ack_send env a ru w) \<le> k w" "k (wake_tasks env ws w) \<le> k w"
    "rx_try_recv env w = (c, w') \<Longrightarrow> k w' \<le> k w" "cq_collect env w = (es, w') \<Longrightarrow> k w' \<le> k w"
  using assms unfolding calm_def by (metis snd_conv)+

lemma settles_Some [settle_intros]: "k w \<le> n \<Longrightarrow> settles k n (Some (r, self, w))"
  by (auto simp: settles_def)

lemma settles_andthen:
  "settles k n m \<Longrightarrow> (\<And>x self w. k w \<le> n \<Longrightarrow> settles k n (f x (self, w))) \<Longrightarrow> settles k n (andthen m f)"
  unfolding settles_def by (auto, (case_tac r; auto))

lemma settles_on_err:
  "settles k n m \<Longrightarrow> (\<And>e self w. k w \<le> n \<Longrightarrow> k (snd (h e (self, w))) \<le> n) \<Longrightarrow> settles k n (on_err m h)"
  unfolding settles_def by (auto, (case_tac r; auto), (metis prod.collapse snd_conv))

lemma push_retry_settles:
  assumes "calm env k" "sq_drains env"
  shows "\<exists>r w'. push_retry env e w = Some (r, w') \<and> k w' \<le> k w"
proof -
  obtain b w1 where push: "sq_push env e w = (b, w1)" by (cases "sq_push env e w")
  have 1: "k w1 \<le> k w" using calmD(1) [OF assms(1) push] .
  show ?thesis
  proof (cases b)
    case True
    then show ?thesis using push 1 by (subst push_retry.simps) auto
  next
    case False
    obtain r w2 where sub: "ring_submit env w1 = (r, w2)" by (cases "ring_submit env w1")
    have 2: "k w2 \<le> k w" using calmD(2) [OF assms(1) sub] 1 by simp
    show ?thesis
    proof (cases r)
      case (Ok x)
      obtain w3 where again: "sq_push env e w2 = (True, w3)"
        using assms(2) push sub False Ok unfolding sq_drains_def by (metis prod.collapse)
      have "push_retry env e w = push_retry env e w2"
        using push sub False Ok by (subst push_retry.simps) simp
      moreover have "push_retry env e w2 = Some (Ok (), w3)"
        using again by (subst push_retry.simps) simp
      ultimately show ?thesis using calmD(1) [OF assms(1) again] 2 by simp
    qed (use push sub False 2 in \<open>subst push_retry.simps; simp\<close>)+
  qed
qed

lemma submit_entry_settles:
  assumes "calm env k" "sq_drains env" "k w \<le> n"
  shows "settles k n (on_world (rx_submit_entry env e w) self)"
proof -
  obtain r w1 where 1: "push_retry env e w = Some (r, w1)" "k w1 \<le> k w"
    using push_retry_settles [OF assms(1,2)] by blast
  obtain r2 w2 where 2: "ring_submit env w1 = (r2, w2)" by (cases "ring_submit env w1")
  show ?thesis
    using 1 assms(3) calmD(2) [OF assms(1) 2] by (cases r) (auto simp: rx_submit_entry_def settles_def 2)
qed

lemma submit_read_settles:
  "calm env k \<Longrightarrow> sq_drains env \<Longrightarrow> k w \<le> n \<Longrightarrow> settles k n (submit_multishot_read env (self, w))"
  by (auto simp: submit_multishot_read_def intro!: settles_andthen submit_entry_settles settle_intros)

lemma submit_cancel_settles:
  "calm env k \<Longrightarrow> sq_drains env \<Longrightarrow> k w \<le> n \<Longrightarrow> settles k n (submit_cancel env (self, w))"
  by (auto simp: submit_cancel_def intro!: submit_entry_settles)

lemma update_shared_calm:
  "calm env k \<Longrightarrow> k (snd (update_shared env f (self, w))) \<le> k w"
  by (auto simp: update_shared_def split_beta calmD(4))

lemma fail_calm: "calm env k \<Longrightarrow> k (snd (fail env e (self, w))) \<le> k w"
  by (auto simp: fail_def update_shared_def Let_def split_beta split: option.split
      intro: calmD(4) order_trans [OF calmD(3) calmD(4)])

lemma finish_stop_calm: "calm env k \<Longrightarrow> k (snd (finish_stop env (self, w))) \<le> k w"
  by (auto simp: finish_stop_def split: option.split
      intro: order_trans [OF update_shared_calm calmD(3)])

lemma settles_pair: "k (snd s) \<le> n \<Longrightarrow> settles k n (Some (r, s))"
  by (cases s) (auto simp: settles_def)

lemma handle_command_settles:
  assumes "calm env k" "sq_drains env" "k w \<le> n"
  shows "settles k n (handle_command env cmd (self, w))"
proof (cases cmd)
  case (Start ack)
  have "settles k n (start_rx env (self, w))"
  proof -
    let ?self = "self\<lparr>auto_resume := disarm (auto_resume self), running := True\<rparr>"
    obtain r self1 w1 where 1: "submit_multishot_read env (?self, w) = Some (r, self1, w1)" "k w1 \<le> n"
      using submit_read_settles [OF assms, of ?self] by (auto simp: settles_def)
    show ?thesis
      using 1 assms(3) order_trans [OF update_shared_calm [OF assms(1)]]
      by (cases r) (auto simp: start_rx_def Let_def intro!: settles_pair)
  qed
  then obtain r self1 w1 where 1: "start_rx env (self, w) = Some (r, self1, w1)" "k w1 \<le> n"
    by (auto simp: settles_def)
  then show ?thesis
    using Start order_trans [OF calmD(3) [OF assms(1)]] by (cases r) (auto intro!: settles_pair)
next
  case (Stop ack)
  have "settles k n (begin_stop env ack (self, w))"
    using assms order_trans [OF calmD(3) [OF assms(1)]]
    by (auto simp: begin_stop_def Let_def intro!: settles_pair submit_cancel_settles)
  then show ?thesis
    using Stop order_trans [OF fail_calm [OF assms(1)]] by (auto intro!: settles_on_err)
next
  case Shutdown
  then show ?thesis using assms by (auto simp: Let_def intro!: settles_pair submit_cancel_settles)
next
  case AutoResumeCheck
  then show ?thesis
    using assms order_trans [OF update_shared_calm [OF assms(1)]]
    by (auto simp: try_auto_resume_def Let_def intro!: settles_pair settles_andthen submit_read_settles)
qed

lemma drain_commands_settles:
  assumes "calm env c" "sq_drains env" "calm env k"
    and dec: "\<And>w cmd w'. rx_try_recv env w = (Received cmd, w') \<Longrightarrow> c w' < c w"
  shows "k (snd s) \<le> n \<Longrightarrow> settles k n (drain_commands env s)"
proof (induction "c (snd s)" arbitrary: s rule: less_induct)
  case less
  obtain self w where s: "s = (self, w)" by (cases s)
  obtain r w1 where recv: "rx_try_recv env w = (r, w1)" by (cases "rx_try_recv env w")
  have k1: "k w1 \<le> n" using calmD(5) [OF assms(3) recv] less.prems s by simp
  show ?case
  proof (cases r)
    case (Received cmd)
    have c1: "c w1 < c w" using dec recv Received by blast
    obtain r2 self2 w2 where 2: "handle_command env cmd (self, w1) = Some (r2, self2, w2)" "c w2 \<le> c w1"
      using handle_command_settles [OF assms(1,2) order_refl, where w = w1 and cmd = cmd and self = self]
      by (auto simp: settles_def)
    have k2: "k w2 \<le> n"
      using handle_command_settles [OF assms(3,2) k1, of cmd self] 2(1) by (auto simp: settles_def)
    have "settles k n (drain_commands env (self2, w2))"
      using less.hyps [of "(self2, w2)"] c1 2(2) k2 s by simp
    then show ?thesis
      using 2(1) k2 recv Received s by (subst drain_commands.simps) (cases r2; auto intro!: settles_pair)
  qed (use recv s k1 in \<open>subst drain_commands.simps; auto intro!: settles_pair\<close>)+
qed

text \<open>
  Draining the command queue ends: if a submit makes room in the submission queue and the
  queued commands are finitely many, \<^verbatim>\<open>drain_commands\<close> returns, whatever the commands are and
  whichever of the driver's calls fail.
\<close>

theorem drain_commands_returns:
  assumes "calm env c" "sq_drains env"
    and "\<And>w cmd w'. rx_try_recv env w = (Received cmd, w') \<Longrightarrow> c w' < c w"
  shows "\<exists>r s'. drain_commands env s = Some (r, s')"
proof -
  have "settles c (c (snd s)) (drain_commands env s)"
    using assms(3) by (intro drain_commands_settles [OF assms(1,2,1)]) auto
  then show ?thesis by (auto simp: settles_def)
qed

lemma handle_cqe_settles:
  assumes "calm env k" "sq_drains env" "k w \<le> n"
  shows "settles k n (handle_cqe env entry (self, w))"
proof -
  have d: "settles k n (deliver_packet env entry (self, w))"
    using assms(3) order_trans [OF update_shared_calm [OF assms(1)]]
    by (auto simp: deliver_packet_def Let_def intro!: settles_pair split: option.split res.split)
  have "settles k n (handle_read_cqe env entry (self, w))"
    unfolding handle_read_cqe_def Let_def
    using d assms order_trans [OF update_shared_calm [OF assms(1)]] order_trans [OF finish_stop_calm [OF assms(1)]]
    by (intro settles_andthen)
       (auto simp: enter_enobufs_fault_def Let_def intro!: settles_pair submit_read_settles)
  moreover have "settles k n (handle_cancel_cqe env entry (self, w))"
    using assms(3) order_trans [OF finish_stop_calm [OF assms(1)]]
    by (auto simp: handle_cancel_cqe_def Let_def intro!: settles_pair)
  ultimately show ?thesis using assms(3) by (auto simp: handle_cqe_def intro!: settles_pair)
qed

lemma process_entries_settles:
  assumes "calm env k" "sq_drains env"
  shows "k w \<le> n \<Longrightarrow> settles k n (process_entries env entries (self, w))"
  by (induction entries arbitrary: self w)
     (auto intro!: settles_pair settles_andthen handle_cqe_settles [OF assms])


section \<open>Instances\<close>

lemma sim_calm_commands: "calm sim_env (\<lambda>w. length (sim_cmds w))"
  by (auto simp: calm_def sim_push_def sim_submit_def sim_try_recv_def split: list.split)

lemma sim_calm_const: "calm sim_env (\<lambda>_. 0)"
  by (simp add: calm_def)

lemma sim_sq_drains: "sq_drains sim_env"
  by (auto simp: sq_drains_def sim_push_def sim_submit_def split: if_splits)

lemma sim_recv_decreases:
  "rx_try_recv sim_env w = (Received cmd, w') \<Longrightarrow> length (sim_cmds w') < length (sim_cmds w)"
  by (auto simp: sim_try_recv_def split: list.splits)

theorem drain_commands_returns_witness:
  "\<exists>r s'. drain_commands sim_env (sim_thread False, sim_empty\<lparr>sim_cmds := [Stop 7, Start 8]\<rparr>) = Some (r, s')"
  by (rule drain_commands_returns [OF sim_calm_commands sim_sq_drains sim_recv_decreases])


end
