(* ===== verification/Rx_Driver_Correct.thy ===== *)
theory Rx_Driver_Correct
  imports Rx_Host
begin

text \<open>
  What the RX driver keeps and promises: the invariant that ties the public RX state to the
  multishot read in flight, through every handler and every iteration of the thread's loop;
  delivery in completion order; the stop protocol; that the command loop ends; and the places
  where the driver's bookkeeping falls short of the design.
\<close>

section \<open>The invariant\<close>

text \<open>
  RX is shown as running only while a read is in flight and wanted (or is being stopped on
  somebody's behalf); a stop that waits for the read has a read to wait for.
\<close>

definition rx_inv :: "'a RxDriverThread \<Rightarrow> bool" where
  "rx_inv self \<longleftrightarrow>
     (stop_ack self \<noteq> None \<longrightarrow> read_active self) \<and> (running self \<longrightarrow> read_active self) \<and>
     (rx_state (rx_shared self) = Running \<longrightarrow>
        read_active self \<and> (running self \<or> stop_ack self \<noteq> None) \<or> shutdown_requested self)"

definition inv_call :: "('x, ('a, 'w) rx_sys) call \<Rightarrow> bool" where
  "inv_call m \<longleftrightarrow> (\<forall>x s. m = Some (Ok x, s) \<longrightarrow> rx_inv (fst s))"

lemma inv_callI [intro]: "(\<And>x s. m = Some (Ok x, s) \<Longrightarrow> rx_inv (fst s)) \<Longrightarrow> inv_call m"
  by (simp add: inv_call_def)

lemma inv_call_andthen [inv_intros]:
  "inv_call m \<Longrightarrow> (\<And>x s. rx_inv (fst s) \<Longrightarrow> inv_call (f x s)) \<Longrightarrow> inv_call (andthen m f)"
  unfolding inv_call_def andthen_Ok_iff by blast

lemma inv_call_Some [inv_intros]: "rx_inv (fst s) \<Longrightarrow> inv_call (Some (r, s))"
  by (auto simp: inv_call_def)

lemma inv_call_on_world [inv_intros]: "rx_inv self \<Longrightarrow> inv_call (on_world m self)"
  by (auto simp: inv_call_def on_world_Some_iff)

lemma update_shared_fst [simp]:
  "fst (update_shared env f (self, w)) = self\<lparr>rx_shared := fst (f (rx_shared self))\<rparr>"
  by (simp add: update_shared_def split_beta)

lemma fail_fst:
  "fst (fail env e (self, w)) =
     self\<lparr>running := False, read_active := False, stop_ack := None, auto_resume := disarm (auto_resume self),
          rx_shared := fst (set_faulted (clone_io_error e) (rx_shared self))\<rparr>"
  by (cases self) (simp add: fail_def update_shared_def Let_def split_beta split: option.split)

lemma rx_inv_fail [inv_intros]: "rx_inv (fst (fail env e s))"
  by (cases s) (simp add: fail_fst rx_inv_def)

lemma inv_call_on_err [inv_intros]: "inv_call m \<Longrightarrow> inv_call (on_err m (fail env))"
  unfolding inv_call_def on_err_Some_iff using rx_inv_fail by blast

lemma finish_stop_fst:
  "fst (finish_stop env (self, w)) =
     (if stop_ack self = None then self
      else self\<lparr>stop_ack := None, rx_shared := fst (set_stopped (rx_shared self))\<rparr>)"
  by (simp add: finish_stop_def Let_def split: option.split)

lemma rx_inv_enobufs:
  "stop_ack self \<noteq> None \<longrightarrow> read_active self \<Longrightarrow> rx_inv (fst (enter_enobufs_fault env (self, w)))"
  by (simp add: enter_enobufs_fault_def rx_inv_def)

lemma submit_read_state:
  "submit_multishot_read env (self, w) = Some (r, self', w') \<Longrightarrow>
   self' = (if r = Ok () then self\<lparr>read_active := True\<rparr> else self)"
  by (auto simp: submit_multishot_read_def andthen_Some_iff on_world_Some_iff)

lemma submit_cancel_state:
  "submit_cancel env (self, w) = Some (r, self', w') \<Longrightarrow> self' = self"
  by (auto simp: submit_cancel_def on_world_Some_iff)

lemma start_rx_inv:
  assumes "rx_inv self" "start_rx env (self, w) = Some (r, s)" "r \<noteq> Panic"
  shows "rx_inv (fst s)"
  using assms
  by (cases s; cases r)
     (auto simp: start_rx_def Let_def rx_inv_def update_shared_def split: if_splits option.splits res.splits
       Option.bind_splits dest!: submit_read_state)

lemma handle_command_inv [inv_intros]:
  assumes "rx_inv (fst s)"
  shows "inv_call (handle_command env cmd s)"
proof (cases s)
  case (Pair self w)
  with assms have inv: "rx_inv self" by simp
  show ?thesis
  proof (cases cmd)
    case (Start ack)
    then show ?thesis
      using start_rx_inv [OF inv, of env w]
      by (auto simp: Pair inv_call_def split: Option.bind_splits res.splits)
  next
    case (Stop ack)
    have "inv_call (begin_stop env ack (self, w))"
      using inv by (auto simp: inv_call_def begin_stop_def Let_def rx_inv_def split: if_splits dest!: submit_cancel_state)
    then show ?thesis by (simp add: Pair Stop inv_call_on_err)
  next
    case Shutdown
    then show ?thesis
      using inv by (auto simp: Pair inv_call_def Let_def rx_inv_def split: if_splits dest!: submit_cancel_state)
  next
    case AutoResumeCheck
    then show ?thesis
      using inv by (auto simp: Pair inv_call_def try_auto_resume_def Let_def rx_inv_def andthen_Ok_iff
          update_shared_def split: if_splits dest!: submit_read_state)
  qed
qed

lemma deliver_packet_fst:
  "deliver_packet env entry (self, w) = Some (r, self', w') \<Longrightarrow>
   \<exists>sh. self' = self\<lparr>rx_shared := sh\<rparr> \<and> rx_state sh = rx_state (rx_shared self)"
  by (auto simp: deliver_packet_def update_shared_def Let_def split_beta split: option.splits if_splits res.splits
      intro: exI [of _ "rx_shared self"])

lemma read_ended_inv:
  "rx_inv self \<Longrightarrow> \<not> running self \<Longrightarrow>
   rx_inv (fst (finish_stop env (self\<lparr>read_active := False\<rparr>, w)))"
  by (auto simp: finish_stop_fst rx_inv_def)

lemma reread_inv:
  "rx_inv self \<Longrightarrow> running self \<Longrightarrow>
   submit_multishot_read env (self\<lparr>read_active := False\<rparr>, w) = Some (Ok x, s) \<Longrightarrow> rx_inv (fst s)"
  by (cases s) (auto simp: rx_inv_def dest!: submit_read_state)

lemma handle_cqe_inv [inv_intros]:
  fixes s :: "('a, 'b) rx_sys"
  assumes "rx_inv (fst s)"
  shows "inv_call (handle_cqe env entry s)"
proof (cases s)
  case (Pair self w)
  with assms have inv: "rx_inv self" by simp
  have read: "inv_call (handle_read_cqe env entry (self, w))"
    unfolding handle_read_cqe_def Let_def
  proof (intro inv_call_andthen)
    have "rx_inv (fst s)" if "deliver_packet env entry (self, w) = Some (Ok x, s)" for x s
      using deliver_packet_fst [of env entry self w "Ok x" "fst s" "snd s"] that inv
      by (auto simp: rx_inv_def)
    moreover have "rx_inv (fst (enter_enobufs_fault env (self, w)))"
      using inv by (intro rx_inv_enobufs) (simp add: rx_inv_def)
    ultimately show "inv_call (if 0 \<le> cqe_result entry then deliver_packet env entry (self, w)
         else if cqe_result entry = - ENOBUFS then Some (Ok (), enter_enobufs_fault env (self, w))
         else if cqe_result entry \<noteq> - ECANCELED \<or> running (fst (self, w)) then Some (Err (Os (- cqe_result entry)), self, w)
         else Some (Ok (), self, w))"
      using inv by (auto simp: inv_call_def)
  next
    fix s :: "('a, 'b) rx_sys"
    assume "rx_inv (fst s)"
    then show "inv_call (case s of (self, w) \<Rightarrow>
        if cqe_more env (cqe_flags entry) then Some (Ok (), self, w)
        else if running (self\<lparr>read_active := False\<rparr>)
          then submit_multishot_read env (self\<lparr>read_active := False\<rparr>, w)
          else Some (Ok (), finish_stop env (self\<lparr>read_active := False\<rparr>, w)))"
      using read_ended_inv [of "fst s" env "snd s"] reread_inv [of "fst s" env "snd s"]
      by (auto simp: inv_call_def split: prod.splits)
  qed
  have "rx_inv (fst (finish_stop env (self, w)))" if "\<not> read_active self"
    using inv that by (auto simp: finish_stop_fst rx_inv_def)
  then have "inv_call (handle_cancel_cqe env entry (self, w))"
    using inv by (auto simp: handle_cancel_cqe_def Let_def intro!: inv_call_Some)
  with read show ?thesis using inv by (auto simp: Pair handle_cqe_def inv_call_def)
qed

lemma process_entries_inv [inv_intros]:
  "rx_inv (fst s) \<Longrightarrow> inv_call (process_entries env entries s)"
  by (induction entries arbitrary: s) (auto intro!: inv_intros)

lemma drain_commands_inv [inv_intros]:
  fixes s :: "('a, 'b) rx_sys" and env :: "('b, 'a, 'c) rx_env_scheme"
  assumes "rx_inv (fst s)"
  shows "inv_call (drain_commands env s)"
proof -
  have "fst y = Ok () \<longrightarrow> rx_inv (fst s) \<longrightarrow> rx_inv (fst (snd y))"
    if "drain_commands env s = Some y" for y
  proof (rule drain_commands.raw_induct [where P = "\<lambda>_ s y. fst y = Ok () \<longrightarrow> rx_inv (fst s) \<longrightarrow> rx_inv (fst (snd y))",
        OF _ that], intro impI)
    fix drain :: "('b, 'a, 'c) rx_env_scheme \<Rightarrow> ('a, 'b) rx_sys \<Rightarrow> (unit, ('a, 'b) rx_sys) call"
    fix env :: "('b, 'a, 'c) rx_env_scheme" and s y
    assume IH: "\<And>env s y. drain env s = Some y \<Longrightarrow> fst y = Ok () \<longrightarrow> rx_inv (fst s) \<longrightarrow> rx_inv (fst (snd y))"
      and y: "(case rx_try_recv env (snd s) of
        (Received command, w) \<Rightarrow> andthen (handle_command env command (fst s, w)) (\<lambda>_. drain env)
      | (Empty, w) \<Rightarrow> Some (Ok (), fst s, w)
      | (Closed, w) \<Rightarrow> Some (Err rx_driver_closed, fst s, w)) = Some y"
      and ok: "fst y = Ok ()" and inv: "rx_inv (fst s)"
    obtain r w where recv: "rx_try_recv env (snd s) = (r, w)" by (cases "rx_try_recv env (snd s)")
    show "rx_inv (fst (snd y))"
    proof (cases r)
      case (Received command)
      have "inv_call (handle_command env command (fst s, w))" using inv by (intro handle_command_inv) simp
      moreover obtain x s1 where "handle_command env command (fst s, w) = Some (Ok x, s1)" "drain env s1 = Some y"
        using y ok recv Received by (cases y) (auto simp: andthen_Ok_iff)
      ultimately show ?thesis using IH ok by (auto simp: inv_call_def)
    qed (use y ok inv recv in auto)
  qed
  with assms show ?thesis by (fastforce simp: inv_call_def)
qed

lemma process_cqes_inv [inv_intros]:
  fixes s :: "('a, 'b) rx_sys" and env :: "('b, 'a, 'c) rx_env_scheme"
  assumes "rx_inv (fst s)"
  shows "inv_call (process_cqes env s)"
proof -
  have "fst y = Ok () \<longrightarrow> rx_inv (fst s) \<longrightarrow> rx_inv (fst (snd y))"
    if "process_cqes env s = Some y" for y
  proof (rule process_cqes.raw_induct [where P = "\<lambda>_ s y. fst y = Ok () \<longrightarrow> rx_inv (fst s) \<longrightarrow> rx_inv (fst (snd y))",
        OF _ that], intro impI)
    fix cont :: "('b, 'a, 'c) rx_env_scheme \<Rightarrow> ('a, 'b) rx_sys \<Rightarrow> (unit, ('a, 'b) rx_sys) call"
    fix env :: "('b, 'a, 'c) rx_env_scheme" and s y
    assume IH: "\<And>env s y. cont env s = Some y \<Longrightarrow> fst y = Ok () \<longrightarrow> rx_inv (fst s) \<longrightarrow> rx_inv (fst (snd y))"
      and y: "(let (entries, w) = cq_collect env (snd s) in
      andthen (process_entries env entries (fst s, w)) (\<lambda>_ s.
        if \<not> cq_overflow env (snd s) then Some (Ok (), s)
        else andthen (drain_commands env s) (\<lambda>_ s.
          case ring_submit env (snd s) of
            (Ok _, w) \<Rightarrow> cont env (fst s, w)
          | (Err e, w) \<Rightarrow> if kind e = Interrupted then cont env (fst s, w) else Some (Err e, fst s, w)
          | (Panic, w) \<Rightarrow> Some (Panic, fst s, w)))) = Some y"
      and ok: "fst y = Ok ()" and inv: "rx_inv (fst s)"
    have rest: "inv_call (case ring_submit env (snd s) of
            (Ok _, w) \<Rightarrow> cont env (fst s, w)
          | (Err e, w) \<Rightarrow> if kind e = Interrupted then cont env (fst s, w) else Some (Err e, fst s, w)
          | (Panic, w) \<Rightarrow> Some (Panic, fst s, w))" if "rx_inv (fst s)" for s :: "('a, 'b) rx_sys"
      using IH [of env "(fst s, _)"] that by (auto simp: inv_call_def split: prod.splits res.splits)
    have "inv_call (let (entries, w) = cq_collect env (snd s) in
      andthen (process_entries env entries (fst s, w)) (\<lambda>_ s.
        if \<not> cq_overflow env (snd s) then Some (Ok (), s)
        else andthen (drain_commands env s) (\<lambda>_ s.
          case ring_submit env (snd s) of
            (Ok _, w) \<Rightarrow> cont env (fst s, w)
          | (Err e, w) \<Rightarrow> if kind e = Interrupted then cont env (fst s, w) else Some (Err e, fst s, w)
          | (Panic, w) \<Rightarrow> Some (Panic, fst s, w))))"
      unfolding Let_def using inv
      by (cases "cq_collect env (snd s)") (auto intro!: inv_intros rest)
    with y ok show "rx_inv (fst (snd y))" by (cases y) (simp add: inv_call_def)
  qed
  with assms show ?thesis by (fastforce simp: inv_call_def)
qed

lemma wait_for_activity_inv [inv_intros]:
  "rx_inv (fst s) \<Longrightarrow> inv_call (wait_for_activity env s)"
  by (cases s) (auto simp: wait_for_activity_def intro!: inv_intros split: prod.split)

lemma run_iteration_keeps_inv:
  assumes "rx_inv (fst s)" "run_iteration env s = Some (Ok continue, s')"
  shows "rx_inv (fst s')"
proof -
  have "inv_call (run_iteration env s)"
    unfolding run_iteration_def using assms(1)
    by (intro inv_intros) (auto intro!: inv_intros split: prod.split option.split)
  with assms(2) show ?thesis by (cases s') (simp add: inv_call_def)
qed


text \<open>
  C15.  The driver's invariant, through every iteration of the thread: whatever commands arrive,
  whatever completions the ring delivers and whichever of its calls fail, at the head of the
  loop RX is reported \<^verbatim>\<open>Running\<close> only while a multishot read is in flight that is wanted or being
  cancelled for a waiting stop (or the device is shutting down), the driver wants packets only
  with a read in flight, and a stop that waits for its acknowledgement waits for such a read.
\<close>

theorem rx_iteration_inv:
  assumes "rx_inv (fst s)" "run_iteration env s = Some (Ok continue, s')"
  shows "rx_inv (fst s')"
  by (rule run_iteration_keeps_inv [OF assms])

lemma iteration_break:
  assumes "run_iteration env s = Some (Ok False, s')"
  shows "\<not> read_active (fst s')"
proof -
  obtain x s1 where "(case s1 of (self, w) \<Rightarrow>
       if shutdown_requested self \<and> \<not> read_active self then Some (Ok False, self, w)
       else if \<not> running self \<and> \<not> read_active self then
         (case rx_recv_blocking env w of
            (Some command, w) \<Rightarrow>
              andthen (on_world (ignoring (drain_eventfd env (command_eventfd self) w)) self) (\<lambda>_ s.
              andthen (on_err (handle_command env command s) (fail env)) (\<lambda>_ s. Some (Ok True, s)))
          | (None, w) \<Rightarrow> Some (Ok False, self, w))
       else andthen (on_err (wait_for_activity env (self, w)) (fail env)) (\<lambda>_ s. Some (Ok True, s)))
     = Some (Ok False, s')"
    using assms unfolding run_iteration_def andthen_Ok_iff by blast
  moreover obtain self w where "s1 = (self, w)" by (cases s1)
  moreover obtain c w1 where "rx_recv_blocking env w = (c, w1)" by (cases "rx_recv_blocking env w")
  ultimately show ?thesis
    by (cases c; cases "shutdown_requested self \<and> \<not> read_active self"; cases "\<not> running self \<and> \<not> read_active self")
       (auto simp: andthen_Ok_iff)
qed

text \<open>
  When the driver thread ends, nothing is left behind: no multishot read is recorded as in
  flight, packets are no longer wanted, and no caller of \<^verbatim>\<open>stop\<close> is left waiting for an
  acknowledgement.
\<close>

theorem rx_run_ends_quiet:
  fixes s :: "('a, 'b) rx_sys" and env :: "('b, 'a, 'c) rx_env_scheme"
  assumes "rx_inv (fst s)" "run env s = Some (Ok (), s')"
  shows "\<not> read_active (fst s') \<and> \<not> running (fst s') \<and> stop_ack (fst s') = None"
proof -
  let ?P = "\<lambda>(_ :: ('b, 'a, 'c) rx_env_scheme) s y. fst y = Ok () \<longrightarrow> rx_inv (fst s) \<longrightarrow>
    rx_inv (fst (snd y)) \<and> \<not> read_active (fst (snd y :: ('a, 'b) rx_sys))"
  have "?P env s (Ok (), s')"
  proof (rule run.raw_induct [where P = ?P, OF _ assms(2)], intro impI)
    fix cont :: "('b, 'a, 'c) rx_env_scheme \<Rightarrow> ('a, 'b) rx_sys \<Rightarrow> (unit, ('a, 'b) rx_sys) call"
    fix env :: "('b, 'a, 'c) rx_env_scheme" and s y
    assume IH: "\<And>env s y. cont env s = Some y \<Longrightarrow> ?P env s y"
      and y: "andthen (run_iteration env s) (\<lambda>continue s. if continue then cont env s else Some (Ok (), s)) = Some y"
      and ok: "fst y = Ok ()" and inv: "rx_inv (fst s)"
    obtain b s1 where it: "run_iteration env s = Some (Ok b, s1)"
      and rest: "(if b then cont env s1 else Some (Ok (), s1)) = Some y"
      using y ok by (cases y) (auto simp: andthen_Ok_iff)
    have "rx_inv (fst s1)" by (rule run_iteration_keeps_inv [OF inv it])
    then show "rx_inv (fst (snd y)) \<and> \<not> read_active (fst (snd y))"
      using rest it ok IH [of env s1 y] iteration_break [of env s s1] by (cases b) auto
  qed
  with assms(1) show ?thesis by (auto simp: rx_inv_def)
qed

section \<open>Delivery\<close>

definition good_read :: "('w, 'a, 'm) rx_env_scheme \<Rightarrow> 'a RxDriverThread \<Rightarrow> cqe \<Rightarrow> bool" where
  "good_read env self entry \<longleftrightarrow>
     cqe_user_data entry = RX_READ_USER_DATA \<and> 0 \<le> cqe_result entry \<and> cqe_more env (cqe_flags entry) \<and>
     (packets_include_virtio_net_hdr self \<longrightarrow> virtio_hdr_len env < nat (cqe_result entry)) \<and>
     (case buffer_select env (cqe_flags entry) of
        None \<Rightarrow> False | Some bid \<Rightarrow> unat bid < length (buffer_ptrs (rx_buffers self)))"

text \<open>The packet of a completion: the bytes the kernel wrote, in the buffer it selected.\<close>

definition packet_of :: "('w, 'a, 'm) rx_env_scheme \<Rightarrow> 'a RxDriverThread \<Rightarrow> cqe \<Rightarrow> u16 Packet" where
  "packet_of env self entry =
     (let bid = the (buffer_select env (cqe_flags entry));
          addr = buffer_ptrs (rx_buffers self) ! unat bid; len = nat (cqe_result entry)
      in if packets_include_virtio_net_hdr self
         then from_ring_with_virtio_net_hdr (virtio_hdr_len env) addr len bid
         else from_ring addr len bid None)"

lemma handle_good_read:
  assumes "good_read env self entry"
  shows "\<exists>w'. handle_cqe env entry (self, w) =
    Some (Ok (), self\<lparr>rx_shared := fst (push_packet (packet_of env self entry) (rx_shared self))\<rparr>, w')"
  using assms
  by (auto simp: good_read_def packet_of_def handle_cqe_def handle_read_cqe_def deliver_packet_def Let_def
      packet_ptr_def idx_Ok update_shared_def split_beta split: option.splits)

text \<open>
  C14.  The driver queues one packet per completion, in completion order: for a batch of
  completions that each select a buffer, the queue grows by exactly their packets, each a view
  of the selected buffer with the completed length and that buffer's recycle handle; nothing
  else of the driver's state changes.
\<close>

theorem reads_delivered_in_order:
  assumes "\<forall>entry \<in> set entries. good_read env self entry"
  shows "\<exists>sh w'. process_entries env entries (self, w) = Some (Ok (), self\<lparr>rx_shared := sh\<rparr>, w') \<and>
           packets sh = packets (rx_shared self) @ map (packet_of env self) entries \<and>
           rx_state sh = rx_state (rx_shared self)"
  using assms
proof (induction entries arbitrary: self w)
  case Nil
  show ?case by (intro exI [of _ "rx_shared self"]) simp
next
  case (Cons entry rest)
  let ?self = "self\<lparr>rx_shared := fst (push_packet (packet_of env self entry) (rx_shared self))\<rparr>"
  obtain w1 where 1: "handle_cqe env entry (self, w) = Some (Ok (), ?self, w1)"
    using handle_good_read [of env self entry w] Cons.prems by auto
  have "packet_of env (self\<lparr>rx_shared := sh\<rparr>) = packet_of env self"
    "good_read env (self\<lparr>rx_shared := sh\<rparr>) = good_read env self" for sh
    by (simp_all add: packet_of_def good_read_def fun_eq_iff split: option.split)
  with Cons.IH [of ?self w1] Cons.prems 1 show ?case by auto
qed


section \<open>Where the bookkeeping falls short\<close>

text \<open>
  An RX that was stopped can start again by itself.  When a stop is waiting for the
  cancelled read and the read ends with \<^verbatim>\<open>ENOBUFS\<close> instead, the driver arms auto-resume, then
  acknowledges the stop with success and reports \<^verbatim>\<open>Stopped\<close>; auto-resume stays armed, and as
  soon as the application drops enough packets the driver submits a new read and reports
  \<^verbatim>\<open>Running\<close>.
\<close>

theorem stop_undone_by_auto_resume:
  "case andthen (handle_command sim_env (Stop 7) (sim_thread False, sim_empty))
          (\<lambda>_ s. handle_cqe sim_env (read_cqe (- ENOBUFS) 0) s) of
     Some (Ok _, self, w) \<Rightarrow>
       sim_acks w = [(7, Ok ())] \<and> rx_state (rx_shared self) = Stopped \<and> \<not> read_active self \<and>
       (case note_recycled (auto_resume self) of (resume, sends) \<Rightarrow>
          sends \<and>
          (case handle_command sim_env AutoResumeCheck (self\<lparr>auto_resume := resume\<rparr>, w) of
             Some (Ok _, self, w) \<Rightarrow> rx_state (rx_shared self) = Running \<and> read_active self
           | _ \<Rightarrow> False))
   | _ \<Rightarrow> False"
  by code_simp

text \<open>
  A completion that the driver rejects takes buffers out of circulation.  For a packet no
  longer than the virtio header the handler returns an error before it has queued the packet,
  and the recycle handle it built is dropped unused; the completions collected after it are
  dropped with it.  The failure leaves the buffer ring and the queue as they were, so those
  buffers are never given back, and it records that no read is in flight although the
  completion announced more to come.
\<close>

theorem short_packet_loses_buffers:
  assumes "cqe_user_data entry = RX_READ_USER_DATA" "0 \<le> cqe_result entry"
    and "buffer_select env (cqe_flags entry) = Some bid" "cqe_more env (cqe_flags entry)"
    and "packets_include_virtio_net_hdr self" "nat (cqe_result entry) \<le> virtio_hdr_len env"
  shows "\<exists>e. process_entries env (entry # rest) (self, w) = Some (Err e, self, w) \<and>
           (let self' = fst (fail env e (self, w)) in
            rx_buffers self' = rx_buffers self \<and> \<not> read_active self' \<and>
            packets (rx_shared self') = packets (rx_shared self))"
  using assms
  by (auto simp: handle_cqe_def handle_read_cqe_def deliver_packet_def Let_def fail_fst)

theorem short_packet_loses_buffers_witness:
  "\<exists>e. process_entries sim_env (read_cqe 4 0x10003 # [read_cqe 60 0x3]) (sim_thread True, sim_empty) =
         Some (Err e, sim_thread True, sim_empty) \<and>
       (let self' = fst (fail sim_env e (sim_thread True, sim_empty)) in
        rx_buffers self' = rx_buffers (sim_thread True) \<and> \<not> read_active self' \<and>
        packets (rx_shared self') = packets (rx_shared (sim_thread True)))"
  by (rule short_packet_loses_buffers [where bid = 1])
     (simp_all add: read_cqe_def sim_thread_def bit_numeral_rec)

section \<open>Instances\<close>

lemma sim_thread_inv: "rx_inv (sim_thread offload)"
  by (simp add: rx_inv_def sim_thread_def)

theorem rx_iteration_inv_witness:
  "case run_iteration sim_env (sim_thread False, sim_empty\<lparr>sim_cmds := [Stop 7]\<rparr>) of
     Some (Ok continue, s) \<Rightarrow> continue \<and> rx_inv (fst s) | _ \<Rightarrow> False"
proof -
  let ?s = "(sim_thread False, sim_empty\<lparr>sim_cmds := [Stop 7]\<rparr>)"
  have "case run_iteration sim_env ?s of Some (Ok continue, s) \<Rightarrow> continue | _ \<Rightarrow> False"
    by code_simp
  then obtain s where s: "run_iteration sim_env ?s = Some (Ok True, s)"
    by (auto split: option.splits prod.splits res.splits)
  have "rx_inv (fst s)" by (rule rx_iteration_inv [OF _ s]) (simp add: sim_thread_inv)
  with s show ?thesis by simp
qed

theorem rx_run_ends_quiet_witness:
  "case run sim_env (sim_thread False, sim_empty\<lparr>sim_cmds := [Stop 7, Shutdown], sim_cq := [read_cqe (- 125) 0]\<rparr>) of
     Some (Ok _, s) \<Rightarrow> \<not> read_active (fst s) \<and> \<not> running (fst s) \<and> stop_ack (fst s) = None
   | _ \<Rightarrow> False"
proof -
  let ?s = "(sim_thread False, sim_empty\<lparr>sim_cmds := [Stop 7, Shutdown], sim_cq := [read_cqe (- 125) 0]\<rparr>)"
  have "case run sim_env ?s of Some (Ok _, s) \<Rightarrow> True | _ \<Rightarrow> False"
    by code_simp
  then obtain s where s: "run sim_env ?s = Some (Ok (), s)"
    by (auto split: option.splits prod.splits res.splits)
  have "\<not> read_active (fst s) \<and> \<not> running (fst s) \<and> stop_ack (fst s) = None"
    by (rule rx_run_ends_quiet [OF _ s]) (simp add: sim_thread_inv)
  with s show ?thesis by simp
qed

theorem reads_delivered_in_order_witness:
  "\<exists>sh w'. process_entries sim_env [read_cqe 60 0x3, read_cqe 42 0x10003] (sim_thread False, sim_empty) =
       Some (Ok (), (sim_thread False)\<lparr>rx_shared := sh\<rparr>, w') \<and>
     packets sh = packets (rx_shared (sim_thread False)) @
       map (packet_of sim_env (sim_thread False)) [read_cqe 60 0x3, read_cqe 42 0x10003] \<and>
     rx_state sh = rx_state (rx_shared (sim_thread False))"
  by (rule reads_delivered_in_order)
     (simp add: good_read_def read_cqe_def sim_thread_def bit_numeral_rec example_ring_def)


end
