(* ===== verification/Rx_Shutdown.thy ===== *)
theory Rx_Shutdown
  imports Rx_Progress Rx_Driver_Correct
begin

text \<open>
  The thread of the RX driver ends: after \<^verbatim>\<open>Shutdown\<close> the loop of \<^verbatim>\<open>RxDriverThread::run\<close> (\<^verbatim>\<open>src/src/core/rx.rs\<close>) cancels
  the read in flight, waits for its last completion, and returns, so that \<^verbatim>\<open>RxDriverHandle::drop\<close>, which sends
  \<^verbatim>\<open>Shutdown\<close> and joins the thread, does not hang; and the one case in which it may.
\<close>

section \<open>Calls that end\<close>

text \<open>The call returns, or ends in a panic, which ends the thread as well.\<close>

definition call_ends :: "('x res \<Rightarrow> 's \<Rightarrow> bool) \<Rightarrow> ('x, 's) call \<Rightarrow> bool" where
  "call_ends Q m \<longleftrightarrow> (\<exists>r s. m = Some (r, s) \<and> (r = Panic \<or> Q r s))"

lemma call_ends_Some [simp]: "call_ends Q (Some (r, s)) \<longleftrightarrow> r = Panic \<or> Q r s"
  by (simp add: call_ends_def)

lemma call_ends_mono: "call_ends P m \<Longrightarrow> (\<And>r s. P r s \<Longrightarrow> Q r s) \<Longrightarrow> call_ends Q m"
  by (auto simp: call_ends_def)

lemma call_endsE:
  assumes "call_ends Q m"
  obtains s where "m = Some (Panic, s)" | r s where "m = Some (r, s)" "Q r s"
  using assms by (auto simp: call_ends_def)

lemma call_ends_andthen:
  assumes "call_ends P m" "\<And>x s. P (Ok x) s \<Longrightarrow> call_ends Q (f x s)" "\<And>e s. P (Err e) s \<Longrightarrow> Q (Err e) s"
  shows "call_ends Q (andthen m f)"
  using assms(1)
proof (rule call_endsE)
  fix r s
  assume "m = Some (r, s)" "P r s"
  then show ?thesis using assms(2,3) by (cases r) auto
qed simp

lemma call_ends_on_err:
  assumes "call_ends P m" "\<And>x s. P (Ok x) s \<Longrightarrow> Q (Ok ()) s" "\<And>e s. P (Err e) s \<Longrightarrow> Q (Ok ()) (h e s)"
  shows "call_ends Q (on_err m h)"
  using assms(1)
proof (rule call_endsE)
  fix r s
  assume "m = Some (r, s)" "P r s"
  then show ?thesis using assms(2,3) by (cases r) auto
qed simp

lemma call_ends_handled:
  assumes "call_ends P m" "\<And>x s. P (Ok x) s \<Longrightarrow> Q s" "\<And>e s. P (Err e) s \<Longrightarrow> Q (h e s)"
  shows "call_ends (\<lambda>r s. r = Ok () \<and> Q s) (on_err m h)"
  by (rule call_ends_on_err [OF assms(1)]) (use assms(2,3) in auto)

lemma call_ends_on_world: "call_ends (\<lambda>r w. Q r (t, w)) m \<Longrightarrow> call_ends Q (on_world m t)"
  by (auto simp: call_ends_def on_world_Some_iff)

section \<open>What the thread needs of its host\<close>

text \<open>The last completion of the multishot read.\<close>

definition ends_read :: "('w, 'm) uring_env_scheme \<Rightarrow> cqe \<Rightarrow> bool" where
  "ends_read env entry \<longleftrightarrow> cqe_user_data entry = RX_READ_USER_DATA \<and> \<not> cqe_more env (cqe_flags entry)"

text \<open>
  \<open>reading\<close>: a multishot read was pushed and its last completion was not reaped.  \<open>cancelled\<close>: a cancel of
  it was pushed.  \<open>cmds\<close> are the commands in the channel; nobody else sends one.  \<open>budget\<close> bounds the
  completions that are still posted and the other wake-ups while a cancelled read ends, \<open>backlog\<close> the
  completions in the kernel's overflow list, \<open>ticks\<close> the eventfd reads that can succeed or be interrupted.
\<close>

definition rx_keeps :: "('w \<Rightarrow> bool) \<Rightarrow> ('w \<Rightarrow> bool) \<Rightarrow> ('w \<Rightarrow> 'c) \<Rightarrow> ('w \<Rightarrow> nat) \<Rightarrow> ('w \<Rightarrow> nat) \<Rightarrow> 'w \<Rightarrow> 'w \<Rightarrow> bool" where
  "rx_keeps reading cancelled cmds budget backlog w w' \<longleftrightarrow>
     (reading w \<longrightarrow> reading w') \<and> (cancelled w \<longrightarrow> cancelled w') \<and> cmds w' = cmds w \<and> budget w' \<le> budget w \<and>
     backlog w' \<le> backlog w"

locale rx_kernel =
  fixes env :: "('w, 'a, 'm) rx_env_scheme" and reading cancelled :: "'w \<Rightarrow> bool"
    and cmds :: "'w \<Rightarrow> 'a RxDriverCommand list" and budget backlog ticks :: "'w \<Rightarrow> nat"
  assumes room: "sq_drains env"
    and push: "sq_push env e w = (ok, w') \<Longrightarrow> cmds w' = cmds w \<and> (reading w \<longrightarrow> reading w') \<and>
      (ok \<longrightarrow> (\<forall>fd off grp. e = ReadMulti fd off grp RX_READ_USER_DATA \<longrightarrow> reading w') \<and>
         (e = AsyncCancel RX_READ_USER_DATA RX_CANCEL_USER_DATA \<longrightarrow> cancelled w'))"
    and submit: "ring_submit env w = (r, w') \<Longrightarrow> rx_keeps reading cancelled cmds budget backlog w w' \<and>
      (0 < backlog w \<longrightarrow> r = Ok () \<or> (\<exists>e. r = Err e \<and> kind e = Interrupted) \<longrightarrow> backlog w' < backlog w)"
    and overflow: "cq_overflow env w \<Longrightarrow> 0 < backlog w"
    and collect: "cq_collect env w = (es, w') \<Longrightarrow>
      (reading w \<longrightarrow> reading w' \<or> (\<exists>entry \<in> set es. ends_read env entry)) \<and> (cancelled w \<longrightarrow> cancelled w') \<and> cmds w' = cmds w \<and>
      budget w' \<le> budget w \<and> backlog w' \<le> backlog w \<and> (es \<noteq> [] \<longrightarrow> budget w' < budget w) \<and>
      (es = [] \<longrightarrow> cq_is_empty env w \<and> cq_overflow env w' = cq_overflow env w)"
    and poll: "poll_fds env fds timeout w = (revents, w') \<Longrightarrow> rx_keeps reading cancelled cmds budget backlog w w' \<and>
      (reading w \<and> cancelled w \<and> (cq_is_empty env w \<or> (\<exists>e. revents = Err e \<and> kind e = Interrupted)) \<longrightarrow> budget w' < budget w)"
    and read: "fd_read_u64 env fd w = (n, w') \<Longrightarrow> rx_keeps reading cancelled cmds budget backlog w w' \<and>
      (n = Ok 8 \<or> (\<exists>e. n = Err e \<and> kind e = Interrupted) \<longrightarrow> ticks w' < ticks w)"
    and try_recv: "rx_try_recv env w = (c, w') \<Longrightarrow> rx_keeps reading cancelled (\<lambda>_. ()) budget backlog w w' \<and>
      (case c of Received x \<Rightarrow> cmds w = x # cmds w' | _ \<Rightarrow> cmds w = [] \<and> cmds w' = [])"
    and recv: "rx_recv_blocking env w = (Some x, w') \<Longrightarrow>
      rx_keeps reading cancelled (\<lambda>_. ()) budget backlog w w' \<and> cmds w = x # cmds w'"
    and ack: "rx_keeps reading cancelled cmds budget backlog w (ack_send env a r w)"
    and wake: "rx_keeps reading cancelled cmds budget backlog w (wake_tasks env ws w)"
begin

abbreviation keeps :: "'w \<Rightarrow> 'w \<Rightarrow> bool" where
  "keeps \<equiv> rx_keeps reading cancelled cmds budget backlog"

lemma keeps_refl [simp]: "keeps w w"
  by (simp add: rx_keeps_def)

lemma keeps_trans: "keeps w w1 \<Longrightarrow> keeps w1 w2 \<Longrightarrow> keeps w w2"
  by (auto simp: rx_keeps_def)

text \<open>What is left to reap, as long as nothing new is submitted.\<close>

definition left :: "'w \<Rightarrow> nat" where
  "left w = budget w + backlog w"

lemma update_shared_keeps: "keeps w (snd (update_shared env f (self, w)))"
  by (simp add: update_shared_def split_beta wake)

lemma fail_keeps: "keeps w (snd (fail env e (self, w)))"
  by (auto simp: fail_def update_shared_def Let_def split_beta split: option.split
      intro: wake keeps_trans [OF wake ack])

lemma finish_stop_keeps: "keeps w (snd (finish_stop env (self, w)))"
  by (auto simp: finish_stop_def split: option.split intro: keeps_trans [OF ack update_shared_keeps])

section \<open>Commands\<close>

text \<open>
  While \<^verbatim>\<open>Shutdown\<close> is still queued only the read matters; once the channel is empty the thread is shutting down and
  the read, if any, is cancelled.
\<close>

definition told :: "'a RxDriverThread \<Rightarrow> 'w \<Rightarrow> bool" where
  "told self w \<longleftrightarrow> (if cmds w = [] then shutdown_requested self else last (cmds w) = Shutdown)"

definition ending :: "('a, 'w) rx_sys \<Rightarrow> bool" where
  "ending s \<longleftrightarrow> told (fst s) (snd s) \<and> (read_active (fst s) \<longrightarrow> reading (snd s)) \<and>
     (cmds (snd s) = [] \<longrightarrow> \<not> running (fst s) \<and> (read_active (fst s) \<longrightarrow> cancelled (snd s)))"

lemma fail_ending: "told self w \<Longrightarrow> ending (fail env e (self, w))"
  using fail_keeps [of w e self] by (simp add: ending_def told_def fail_fst rx_keeps_def)

lemma push_retry_ends:
  "call_ends (\<lambda>r w'. cmds w' = cmds w \<and> (reading w \<longrightarrow> reading w') \<and>
     (r = Ok () \<longrightarrow> (\<forall>fd off grp. e = ReadMulti fd off grp RX_READ_USER_DATA \<longrightarrow> reading w') \<and>
         (e = AsyncCancel RX_READ_USER_DATA RX_CANCEL_USER_DATA \<longrightarrow> cancelled w'))) (push_retry env e w)"
proof -
  obtain ok w1 where p: "sq_push env e w = (ok, w1)" by (cases "sq_push env e w")
  obtain r w2 where s: "ring_submit env w1 = (r, w2)" by (cases "ring_submit env w1")
  obtain ok3 w3 where p3: "sq_push env e w2 = (ok3, w3)" by (cases "sq_push env e w2")
  note facts = push [OF p] submit [OF s] push [OF p3]
  have again: "ok3" if "\<not> ok" "r = Ok ()" using room p s p3 that unfolding sq_drains_def by (metis fst_conv)
  have step: "push_retry env e w2 = Some (Ok (), w3)" if ok3 using p3 that by (subst push_retry.simps) simp
  show ?thesis
    using p s facts again step by (subst push_retry.simps) (cases r; auto simp: rx_keeps_def)
qed

lemma submit_entry_ends:
  "call_ends (\<lambda>r w'. cmds w' = cmds w \<and> (reading w \<longrightarrow> reading w') \<and>
     (r = Ok () \<longrightarrow> (\<forall>fd off grp. e = ReadMulti fd off grp RX_READ_USER_DATA \<longrightarrow> reading w') \<and>
         (e = AsyncCancel RX_READ_USER_DATA RX_CANCEL_USER_DATA \<longrightarrow> cancelled w'))) (rx_submit_entry env e w)"
  unfolding rx_submit_entry_def
proof (rule call_ends_andthen [OF push_retry_ends])
  fix x w1
  assume *: "cmds w1 = cmds w \<and> (reading w \<longrightarrow> reading w1) \<and>
     (Ok x = Ok () \<longrightarrow> (\<forall>fd off grp. e = ReadMulti fd off grp RX_READ_USER_DATA \<longrightarrow> reading w1) \<and>
         (e = AsyncCancel RX_READ_USER_DATA RX_CANCEL_USER_DATA \<longrightarrow> cancelled w1))"
  obtain r w2 where "ring_submit env w1 = (r, w2)" by (cases "ring_submit env w1")
  with * submit [OF this] show "call_ends (\<lambda>r w'. cmds w' = cmds w \<and> (reading w \<longrightarrow> reading w') \<and>
     (r = Ok () \<longrightarrow> (\<forall>fd off grp. e = ReadMulti fd off grp RX_READ_USER_DATA \<longrightarrow> reading w') \<and>
         (e = AsyncCancel RX_READ_USER_DATA RX_CANCEL_USER_DATA \<longrightarrow> cancelled w'))) (Some (ring_submit env w1))"
    by (auto simp: rx_keeps_def)
qed auto

lemma submit_read_ends:
  "call_ends (\<lambda>r s. cmds (snd s) = cmds w \<and> (reading w \<longrightarrow> reading (snd s)) \<and>
     fst s = (if is_ok r then self\<lparr>read_active := True\<rparr> else self) \<and> (is_ok r \<longrightarrow> reading (snd s)))
     (submit_multishot_read env (self, w))"
  using submit_entry_ends [of w "ReadMulti (device self) 0 (pb_group_id (rx_buffers self)) RX_READ_USER_DATA"]
proof (rule call_endsE)
  fix r w1
  assume "rx_submit_entry env (ReadMulti (device self) 0 (pb_group_id (rx_buffers self)) RX_READ_USER_DATA) w = Some (r, w1)"
    and "cmds w1 = cmds w \<and> (reading w \<longrightarrow> reading w1) \<and> (r = Ok () \<longrightarrow>
      (\<forall>fd off grp. ReadMulti (device self) 0 (pb_group_id (rx_buffers self)) RX_READ_USER_DATA = ReadMulti fd off grp RX_READ_USER_DATA \<longrightarrow> reading w1) \<and>
      (ReadMulti (device self) 0 (pb_group_id (rx_buffers self)) RX_READ_USER_DATA = AsyncCancel RX_READ_USER_DATA RX_CANCEL_USER_DATA \<longrightarrow> cancelled w1))"
  then show ?thesis by (cases r) (simp_all add: submit_multishot_read_def)
qed (simp add: submit_multishot_read_def)

lemma submit_cancel_ends:
  "call_ends (\<lambda>r s. cmds (snd s) = cmds w \<and> (reading w \<longrightarrow> reading (snd s)) \<and> fst s = self \<and>
     (is_ok r \<longrightarrow> cancelled (snd s))) (submit_cancel env (self, w))"
  unfolding submit_cancel_def Let_def prod.case
  by (rule call_ends_on_world, rule call_ends_mono, rule submit_entry_ends) (auto simp: is_ok_def split: res.splits)

text \<open>A command that was taken from the channel.\<close>

definition handled :: "'w \<Rightarrow> unit res \<Rightarrow> ('a, 'w) rx_sys \<Rightarrow> bool" where
  "handled w r s \<longleftrightarrow> cmds (snd s) = cmds w \<and> told (fst s) (snd s) \<and> (is_ok r \<longrightarrow> ending s)"

lemma busy_handled:
  assumes "cmds w \<noteq> []" "last (cmds w) = Shutdown" "cmds (snd s) = cmds w" "is_ok r \<longrightarrow> read_active (fst s) \<longrightarrow> reading (snd s)"
  shows "handled w r s"
  using assms by (simp add: handled_def told_def ending_def)

lemma start_rx_ends:
  assumes "read_active self \<longrightarrow> reading w"
  shows "call_ends (\<lambda>r s. cmds (snd s) = cmds w \<and> (read_active (fst s) \<longrightarrow> reading (snd s))) (start_rx env (self, w))"
proof -
  let ?self = "self\<lparr>auto_resume := disarm (auto_resume self), running := True\<rparr>"
  note sh = update_shared_keeps [where f = "\<lambda>sh. (set_running sh, [])"]
  from submit_read_ends [of w ?self] show ?thesis
  proof (rule call_endsE)
    fix r s
    assume "submit_multishot_read env (?self, w) = Some (r, s)"
      "cmds (snd s) = cmds w \<and> (reading w \<longrightarrow> reading (snd s)) \<and>
       fst s = (if is_ok r then ?self\<lparr>read_active := True\<rparr> else ?self) \<and> (is_ok r \<longrightarrow> reading (snd s))"
    then show ?thesis
      using assms sh [of w ?self] sh [of "snd s" "fst s"]
      by (cases s; cases r) (auto simp: start_rx_def Let_def rx_keeps_def)
  qed (use assms sh [of w ?self] in \<open>auto simp: start_rx_def Let_def rx_keeps_def\<close>)
qed

lemma handle_command_ends:
  assumes "cmds w = [] \<longrightarrow> c = Shutdown" "cmds w \<noteq> [] \<longrightarrow> last (cmds w) = Shutdown" "read_active self \<longrightarrow> reading w"
  shows "call_ends (handled w) (handle_command env c (self, w))"
proof (cases c)
  case (Start a)
  then have busy: "cmds w \<noteq> []" "last (cmds w) = Shutdown" using assms by auto
  from start_rx_ends [OF assms(3)] show ?thesis
  proof (rule call_endsE)
    fix r s
    assume "start_rx env (self, w) = Some (r, s)" "cmds (snd s) = cmds w \<and> (read_active (fst s) \<longrightarrow> reading (snd s))"
    then show ?thesis
      using Start ack [of "snd s" a r] by (cases s; cases r) (auto simp: rx_keeps_def intro!: busy_handled busy)
  qed (simp add: Start split_beta)
next
  case (Stop a)
  then have busy: "cmds w \<noteq> []" "last (cmds w) = Shutdown" using assms by auto
  let ?self = "self\<lparr>auto_resume := disarm (auto_resume self), running := False\<rparr>"
  let ?P = "\<lambda>r s. cmds (snd s) = cmds w \<and> (is_ok r \<longrightarrow> read_active (fst s) \<longrightarrow> reading (snd s))"
  have "call_ends ?P (begin_stop env a (self, w))"
  proof (cases "read_active self")
    case True
    then show ?thesis
      using assms(3) by (auto simp: begin_stop_def Let_def intro: call_ends_mono [OF submit_cancel_ends])
  qed (use ack [of w a "Ok ()"] in \<open>auto simp: begin_stop_def Let_def rx_keeps_def\<close>)
  then show ?thesis
    unfolding Stop handle_command.simps
    by (rule call_ends_on_err) (use fail_keeps in \<open>auto simp: fail_fst rx_keeps_def intro!: busy_handled busy\<close>)
next
  case Shutdown
  let ?self = "self\<lparr>auto_resume := disarm (auto_resume self), shutdown_requested := True, running := False\<rparr>"
  have eq: "handle_command env c (self, w) = (if read_active self then submit_cancel env (?self, w) else Some (Ok (), ?self, w))"
    by (simp add: Shutdown Let_def)
  show ?thesis
    unfolding eq using assms(2,3)
    by (auto simp: handled_def told_def ending_def intro: call_ends_mono [OF submit_cancel_ends])
next
  case AutoResumeCheck
  then have busy: "cmds w \<noteq> []" "last (cmds w) = Shutdown" using assms by auto
  let ?self = "self\<lparr>running := True\<rparr>"
  let ?P = "\<lambda>r s. cmds (snd s) = cmds w \<and> (is_ok r \<longrightarrow> read_active (fst s) \<longrightarrow> reading (snd s))"
  have "call_ends ?P (if read_active ?self then Some (Ok (), ?self, w) else submit_multishot_read env (?self, w))"
    using assms(3) call_ends_mono [OF submit_read_ends [of w ?self]] by auto
  then have "call_ends (handled w) (andthen (if read_active ?self then Some (Ok (), ?self, w) else submit_multishot_read env (?self, w))
      (\<lambda>_ (self, w). Some (Ok (), update_shared env (\<lambda>sh. (set_running sh, [])) (self\<lparr>auto_resume := disarm (auto_resume self)\<rparr>, w))))"
    by (rule call_ends_andthen)
       (use update_shared_keeps in \<open>auto simp: rx_keeps_def split_beta intro!: busy_handled busy\<close>)
  then show ?thesis
    using assms(3) by (auto simp: AutoResumeCheck try_auto_resume_def Let_def intro!: busy_handled busy)
qed

text \<open>Draining the channel: it takes what is there; an error leaves the rest, but takes at least one.\<close>

definition drained :: "'w \<Rightarrow> unit res \<Rightarrow> ('a, 'w) rx_sys \<Rightarrow> bool" where
  "drained w r s \<longleftrightarrow> told (fst s) (snd s) \<and> length (cmds (snd s)) \<le> length (cmds w) - 1 \<and>
     (is_ok r \<longrightarrow> ending s \<and> cmds (snd s) = []) \<and> (cmds w = [] \<longrightarrow> left (snd s) \<le> left w)"

lemma drain_commands_ends: "ending s \<Longrightarrow> call_ends (drained (snd s)) (drain_commands env s)"
proof (induction "length (cmds (snd s))" arbitrary: s rule: less_induct)
  case less
  obtain self w where s: "s = (self, w)" by (cases s)
  obtain c w1 where c: "rx_try_recv env w = (c, w1)" by (cases "rx_try_recv env w")
  note t = try_recv [OF c]
  show ?case
  proof (cases "\<exists>x. c = Received x")
    case True
    then obtain x where x: "c = Received x" by blast
    then have cw: "cmds w = x # cmds w1" using t by simp
    have "call_ends (handled w1) (handle_command env x (self, w1))"
      using less.prems s cw t by (intro handle_command_ends) (auto simp: ending_def told_def rx_keeps_def split: if_splits)
    then show ?thesis
    proof (rule call_endsE)
      fix r s2
      assume h: "handle_command env x (self, w1) = Some (r, s2)" "handled w1 r s2"
      show ?thesis
      proof (cases "is_ok r")
        case True
        then have "ending s2" "cmds (snd s2) = cmds w1" using h(2) by (simp_all add: handled_def)
        then have "call_ends (drained (snd s2)) (drain_commands env s2)" using less.hyps [of s2] s cw by simp
        then have "call_ends (drained w) (drain_commands env s2)"
          by (rule call_ends_mono) (use cw \<open>cmds (snd s2) = cmds w1\<close> in \<open>auto simp: drained_def\<close>)
        moreover have "drain_commands env s = drain_commands env s2"
          using c x h(1) True s by (subst drain_commands.simps) (cases r; simp)
        ultimately show ?thesis using s by simp
      next
        case False
        then show ?thesis
          using c x h s cw by (subst drain_commands.simps) (cases r; auto simp: handled_def drained_def)
      qed
    qed (use c x s in \<open>subst drain_commands.simps; simp\<close>)
  next
    case False
    then have "cmds w = []" "cmds w1 = []" "rx_keeps reading cancelled (\<lambda>_. ()) budget backlog w w1"
      using t by (auto split: try_recv_result.splits)
    then show ?thesis
      using False c s less.prems
      by (subst drain_commands.simps)
         (auto simp: drained_def ending_def told_def rx_keeps_def left_def split: try_recv_result.split)
  qed
qed

section \<open>Completions\<close>

text \<open>Once the channel is empty, with the completions that are collected and not yet handled.\<close>

definition winding :: "cqe list \<Rightarrow> ('a, 'w) rx_sys \<Rightarrow> bool" where
  "winding rest s \<longleftrightarrow> cmds (snd s) = [] \<and> shutdown_requested (fst s) \<and> \<not> running (fst s) \<and>
     (read_active (fst s) \<longrightarrow> cancelled (snd s) \<and> (reading (snd s) \<or> (\<exists>entry \<in> set rest. ends_read env entry)))"

lemma winding_Nil: "winding [] s \<longleftrightarrow> ending s \<and> cmds (snd s) = []"
  by (auto simp: winding_def ending_def told_def)

text \<open>What is known while the read is reaped: after an error only that the thread was told to stop.\<close>

definition reaped :: "'w \<Rightarrow> cqe list \<Rightarrow> 'x res \<Rightarrow> ('a, 'w) rx_sys \<Rightarrow> bool" where
  "reaped w rest r s \<longleftrightarrow> cmds (snd s) = [] \<and> shutdown_requested (fst s) \<and> left (snd s) \<le> left w \<and>
     (is_ok r \<longrightarrow> winding rest s)"

lemma winding_keeps:
  assumes "winding rest (self, w)" "keeps w w'"
    "shutdown_requested self' = shutdown_requested self" "running self' \<longrightarrow> running self" "read_active self' \<longrightarrow> read_active self"
  shows "winding rest (self', w')"
  using assms by (auto simp: winding_def rx_keeps_def)

lemma winding_done:
  assumes "winding rest (self, w)" "keeps w w'"
    "shutdown_requested self' = shutdown_requested self" "running self' \<longrightarrow> running self" "\<not> read_active self'"
  shows "winding rest' (self', w')"
  using assms by (auto simp: winding_def rx_keeps_def)

lemma winding_reaped: "winding rest s \<Longrightarrow> left (snd s) \<le> left w \<Longrightarrow> reaped w rest r s"
  by (simp add: reaped_def winding_def)

lemma reaped_err: "winding rest s \<Longrightarrow> left (snd s) \<le> left w \<Longrightarrow> \<not> is_ok r \<Longrightarrow> reaped w rest' r s"
  by (simp add: reaped_def winding_def)

lemma keeps_left: "keeps w w' \<Longrightarrow> left w' \<le> left w"
  by (auto simp: rx_keeps_def left_def)

lemma update_shared_winding:
  assumes "winding rest (self, w)"
  shows "winding rest (update_shared env f (self, w))" "left (snd (update_shared env f (self, w))) \<le> left w"
  using assms update_shared_keeps [of w f self]
  by (auto simp: update_shared_def split_beta winding_def rx_keeps_def left_def)

lemma finish_stop_flags:
  "shutdown_requested (fst (finish_stop env s)) = shutdown_requested (fst s)"
  "running (fst (finish_stop env s)) = running (fst s)" "read_active (fst (finish_stop env s)) = read_active (fst s)"
  by (cases s; simp add: finish_stop_fst)+

lemma finish_stop_winding:
  assumes "winding rest (self, w)" "\<not> read_active self"
  shows "reaped w rest' r (finish_stop env (self, w))"
proof -
  have "winding rest' (fst (finish_stop env (self, w)), snd (finish_stop env (self, w)))"
    using finish_stop_keeps assms by (intro winding_done [OF assms(1)]) (auto simp: finish_stop_flags)
  then show ?thesis using keeps_left [OF finish_stop_keeps] by (simp add: winding_reaped)
qed

lemma deliver_packet_ends:
  "winding rest (self, w) \<Longrightarrow> call_ends (reaped w rest) (deliver_packet env entry (self, w))"
  using update_shared_winding [of rest self w]
  by (auto simp: deliver_packet_def Let_def reaped_def winding_def split: option.split res.split)

lemma handle_read_cqe_ends:
  assumes "winding (entry # rest) (self, w)" "cqe_user_data entry = RX_READ_USER_DATA"
  shows "call_ends (reaped w rest) (handle_read_cqe env entry (self, w))"
  unfolding handle_read_cqe_def Let_def
proof (rule call_ends_andthen)
  let ?self = "self\<lparr>running := False, auto_resume := arm_enobufs (auto_resume self)\<rparr>"
  have "winding (entry # rest) (?self, w)" using assms(1) by (rule winding_keeps) auto
  note enobufs = update_shared_winding [OF this, of "set_faulted rx_buffers_exhausted"]
  show "call_ends (reaped w (entry # rest))
     (if cqe_result entry \<ge> 0 then deliver_packet env entry (self, w)
      else if cqe_result entry = - ENOBUFS then Some (Ok (), enter_enobufs_fault env (self, w))
      else if cqe_result entry \<noteq> - ECANCELED \<or> running (fst (self, w)) then Some (Err (Os (- cqe_result entry)), self, w)
      else Some (Ok (), self, w))"
    using deliver_packet_ends [OF assms(1), of entry] assms(1) enobufs
    by (simp add: enter_enobufs_fault_def winding_reaped)
next
  fix x :: unit and s1
  assume 1: "reaped w (entry # rest) (Ok x) s1"
  obtain self1 w1 where s1: "s1 = (self1, w1)" by (cases s1)
  have wd: "winding (entry # rest) (self1, w1)" and le: "left w1 \<le> left w" using 1 s1 by (simp_all add: reaped_def is_ok_def)
  have "winding rest (self1, w1)" if "cqe_more env (cqe_flags entry)"
    using wd that by (auto simp: winding_def ends_read_def)
  moreover have "reaped w rest (Ok ()) (finish_stop env (self1\<lparr>read_active := False\<rparr>, w1))"
    using finish_stop_winding [where self = "self1\<lparr>read_active := False\<rparr>" and w = w1 and rest' = rest and r = "Ok ()"]
      winding_keeps [OF wd keeps_refl, of "self1\<lparr>read_active := False\<rparr>"] le
    by (fastforce simp: reaped_def)
  ultimately show "call_ends (reaped w rest)
     (case s1 of (self, w) \<Rightarrow>
        if cqe_more env (cqe_flags entry) then Some (Ok (), self, w)
        else if running (self\<lparr>read_active := False\<rparr>) then submit_multishot_read env (self\<lparr>read_active := False\<rparr>, w)
        else Some (Ok (), finish_stop env (self\<lparr>read_active := False\<rparr>, w)))"
    using wd le s1 by (auto simp: Let_def winding_reaped winding_def)
qed (simp add: reaped_def)

lemma handle_cqe_ends:
  assumes "winding (entry # rest) s"
  shows "call_ends (reaped (snd s) rest) (handle_cqe env entry s)"
proof -
  obtain self w where s: "s = (self, w)" by (cases s)
  show ?thesis
  proof (cases "cqe_user_data entry = RX_READ_USER_DATA")
    case True
    then show ?thesis using handle_read_cqe_ends assms s by (simp add: handle_cqe_def)
  next
    case False
    then have wd: "winding rest (self, w)" using assms s by (auto simp: winding_def ends_read_def)
    show ?thesis
      using False wd finish_stop_winding [OF wd] s
      by (auto simp: handle_cqe_def handle_cancel_cqe_def Let_def winding_reaped)
  qed
qed

lemma process_entries_ends:
  "winding entries s \<Longrightarrow> left (snd s) \<le> left w \<Longrightarrow> call_ends (reaped w []) (process_entries env entries s)"
proof (induction entries arbitrary: s)
  case (Cons entry entries)
  show ?case
    unfolding process_entries.simps
  proof (rule call_ends_andthen [OF handle_cqe_ends [OF Cons.prems(1)]])
    fix x s1
    assume "reaped (snd s) entries (Ok x) s1"
    then show "call_ends (reaped w []) (process_entries env entries s1)"
      using Cons.IH [of s1] Cons.prems(2) unfolding reaped_def by (auto simp: is_ok_def)
  qed (use Cons.prems(2) in \<open>auto simp: reaped_def is_ok_def\<close>)
qed (simp add: winding_reaped)

lemma drain_none:
  assumes "cmds w = []"
  obtains r w' where "drain_commands env (self, w) = Some (r, self, w')" "r \<noteq> Panic" "keeps w w'"
proof -
  obtain c w1 where c: "rx_try_recv env w = (c, w1)" by (cases "rx_try_recv env w")
  have "keeps w w1" and "\<nexists>x. c = Received x" using assms try_recv [OF c] by (auto simp: rx_keeps_def split: try_recv_result.splits)
  moreover have "drain_commands env (self, w) =
      (case c of Received x \<Rightarrow> andthen (handle_command env x (self, w1)) (\<lambda>_ s. drain_commands env s)
       | Empty \<Rightarrow> Some (Ok (), self, w1) | Closed \<Rightarrow> Some (Err rx_driver_closed, self, w1))"
    using c by (subst drain_commands.simps) (simp split: try_recv_result.split)
  ultimately show thesis by (cases c) (auto intro: that)
qed

text \<open>What reaping returns: if there was something to reap, less is left.\<close>

definition progressed :: "'w \<Rightarrow> bool \<Rightarrow> 'x res \<Rightarrow> ('a, 'w) rx_sys \<Rightarrow> bool" where
  "progressed w b r s \<longleftrightarrow> reaped w [] r s \<and> (is_ok r \<longrightarrow> b \<longrightarrow> left (snd s) < left w)"

text \<open>After an overflow: the commands, the flush, and what is reaped next.\<close>

lemma flush_ends:
  assumes wd: "winding [] (self, w)" and over: "cq_overflow env w" and le: "left w \<le> left w0"
    and rest: "\<And>w'. left w' < left w0 \<Longrightarrow> winding [] (self, w') \<Longrightarrow> call_ends (reaped w' []) (process_cqes env (self, w'))"
  shows "call_ends (progressed w0 True) (andthen (drain_commands env (self, w)) (\<lambda>_ s.
      case ring_submit env (snd s) of
        (Ok _, w) \<Rightarrow> process_cqes env (fst s, w)
      | (Err e, w) \<Rightarrow> if kind e = Interrupted then process_cqes env (fst s, w) else Some (Err e, fst s, w)
      | (Panic, w) \<Rightarrow> Some (Panic, fst s, w)))"
proof -
  obtain r1 w1 where 1: "drain_commands env (self, w) = Some (r1, self, w1)" "r1 \<noteq> Panic" "keeps w w1"
    using drain_none wd by (metis winding_def snd_conv)
  obtain r2 w2 where 2: "ring_submit env w1 = (r2, w2)" by (cases "ring_submit env w1")
  have k: "keeps w w2" using keeps_trans [OF 1(3)] submit [OF 2] by blast
  have wd1: "winding [] (self, w1)" "winding [] (self, w2)" using winding_keeps [OF wd] 1(3) k by blast+
  have l: "left w1 \<le> left w0" "left w2 \<le> left w0" using keeps_left [OF 1(3)] keeps_left [OF k] le by auto
  show ?thesis
  proof (cases "is_ok r1 \<and> (r2 = Ok () \<or> (\<exists>e. r2 = Err e \<and> kind e = Interrupted))")
    case True
    have "backlog w2 < backlog w"
      using overflow [OF over] 1(3) submit [OF 2] True by (cases "backlog w1 = 0") (auto simp: rx_keeps_def)
    then have l2: "left w2 < left w0" using k le by (auto simp: rx_keeps_def left_def)
    then have "call_ends (progressed w0 True) (process_cqes env (self, w2))"
      by (rule call_ends_mono [OF rest [OF _ wd1(2)]]) (use l2 in \<open>auto simp: progressed_def reaped_def\<close>)
    then show ?thesis using True 1 2 by (cases r1) (auto simp: is_ok_def)
  next
    case False
    then show ?thesis
      using 1 2 wd1 l by (cases r1; cases r2) (auto simp: progressed_def is_ok_def intro: winding_reaped reaped_err)
  qed
qed

lemma progressed_weaken: "progressed w True r s \<Longrightarrow> progressed w b r s"
  by (simp add: progressed_def)

lemma process_cqes_ends:
  "winding [] s \<Longrightarrow>
   call_ends (progressed (snd s) (\<not> cq_is_empty env (snd s) \<or> cq_overflow env (snd s))) (process_cqes env s)"
proof (induction "left (snd s)" arbitrary: s rule: less_induct)
  case less
  obtain self w where s: "s = (self, w)" by (cases s)
  obtain es w1 where es: "cq_collect env w = (es, w1)" by (cases "cq_collect env w")
  note c = collect [OF es]
  have le: "left w1 \<le> left w" "es \<noteq> [] \<Longrightarrow> left w1 < left w" using c by (auto simp: left_def)
  have wd: "winding es (self, w1)" using less.prems s c by (auto simp: winding_def)
  let ?b = "\<not> cq_is_empty env w \<or> cq_overflow env w"
  have IH: "call_ends (reaped w' []) (process_cqes env (self', w'))" if "left w' < left w" "winding [] (self', w')" for self' w'
    by (rule call_ends_mono [OF less.hyps [of "(self', w')"]]) (use that s in \<open>auto simp: progressed_def\<close>)
  have "call_ends (progressed w ?b) (andthen (process_entries env es (self, w1)) (\<lambda>_ s.
        if \<not> cq_overflow env (snd s) then Some (Ok (), s)
        else andthen (drain_commands env s) (\<lambda>_ s.
          case ring_submit env (snd s) of
            (Ok _, w) \<Rightarrow> process_cqes env (fst s, w)
          | (Err e, w) \<Rightarrow> if kind e = Interrupted then process_cqes env (fst s, w) else Some (Err e, fst s, w)
          | (Panic, w) \<Rightarrow> Some (Panic, fst s, w))))" (is "call_ends _ (andthen _ ?k)")
  proof (rule call_ends_andthen)
    show "call_ends (\<lambda>r s2. reaped w1 [] r s2 \<and> (es = [] \<longrightarrow> snd s2 = w1)) (process_entries env es (self, w1))"
      using process_entries_ends [OF wd] wd by (cases es) (auto simp: winding_reaped)
  next
    fix x :: unit and s2
    assume s2: "reaped w1 [] (Ok x) s2 \<and> (es = [] \<longrightarrow> snd s2 = w1)"
    then have wd2: "winding [] s2" and l2: "left (snd s2) \<le> left w" using le(1) by (auto simp: reaped_def is_ok_def)
    show "call_ends (progressed w ?b) (?k x s2)"
    proof (cases "cq_overflow env (snd s2)")
      case False
      have "?b \<longrightarrow> left (snd s2) < left w" using False c le s2 by (cases "es = []") (auto simp: reaped_def)
      then show ?thesis using False wd2 l2 by (simp add: progressed_def winding_reaped)
    next
      case True
      then show ?thesis
        using call_ends_mono [OF flush_ends [of "fst s2" "snd s2" w] progressed_weaken] wd2 l2 IH by simp
    qed
  qed (use le(1) in \<open>auto simp: progressed_def reaped_def is_ok_def\<close>)
  then show ?case using s es by (subst process_cqes.simps) simp
qed

section \<open>The loop\<close>

lemma drain_eventfd_ends: "call_ends (\<lambda>r w'. keeps w w') (drain_eventfd env fd w)"
proof -
  obtain r w' where d: "drain_eventfd env fd w = Some (r, w')"
    using drain_eventfd_returns [of env fd ticks w] read by blast
  have "keeps w w'"
    by (rule drain_eventfd_keeps [where I = "keeps w", OF _ d]) (use read keeps_trans keeps_refl in blast)+
  with d show ?thesis by simp
qed

lemma poll_retry_ends:
  "reading w \<Longrightarrow> cancelled w \<Longrightarrow>
   call_ends (\<lambda>r w'. keeps w w' \<and> (cq_is_empty env w \<longrightarrow> left w' < left w)) (poll_retry env fds timeout w)"
proof (induction "budget w" arbitrary: w rule: less_induct)
  case less
  obtain r w1 where p: "poll_fds env fds timeout w = (r, w1)" by (cases "poll_fds env fds timeout w")
  note k = poll [OF p]
  show ?case
  proof (cases "\<exists>e. r = Err e \<and> kind e = Interrupted")
    case True
    then have l: "keeps w w1" "budget w1 < budget w" "left w1 < left w" using k less.prems by (auto simp: rx_keeps_def left_def)
    have "call_ends (\<lambda>r w'. keeps w1 w' \<and> (cq_is_empty env w1 \<longrightarrow> left w' < left w1)) (poll_retry env fds timeout w1)"
      using less.hyps [OF l(2)] less.prems l(1) by (simp add: rx_keeps_def)
    then have "call_ends (\<lambda>r w'. keeps w w' \<and> (cq_is_empty env w \<longrightarrow> left w' < left w)) (poll_retry env fds timeout w1)"
      by (rule call_ends_mono) (use l keeps_trans keeps_left in force)
    then show ?thesis using True p by (subst poll_retry.simps) auto
  next
    case False
    have "cq_is_empty env w \<longrightarrow> left w1 < left w" using k less.prems by (auto simp: rx_keeps_def left_def)
    then show ?thesis using False k p by (subst poll_retry.simps) (cases r; auto)
  qed
qed

text \<open>One part of the wait after the poll: an eventfd is drained and what it announces is handled.\<close>

lemma woken_ends:
  assumes "winding [] s" and f: "\<And>s. winding [] s \<Longrightarrow> call_ends (reaped (snd s) []) (f s)"
  shows "call_ends (reaped (snd s) []) (if b then andthen (on_world (drain_eventfd env fd (snd s)) (fst s)) (\<lambda>_ s. f s)
      else Some (Ok (), s))"
proof (cases b)
  case True
  have *: "winding [] (fst s, w')" if "keeps (snd s) w'" for w'
    using winding_keeps [where self = "fst s" and w = "snd s"] assms(1) that by simp
  have "call_ends (\<lambda>r s'. winding [] s' \<and> left (snd s') \<le> left (snd s)) (on_world (drain_eventfd env fd (snd s)) (fst s))"
    by (rule call_ends_on_world, rule call_ends_mono [OF drain_eventfd_ends]) (use * keeps_left in auto)
  then have "call_ends (reaped (snd s) []) (andthen (on_world (drain_eventfd env fd (snd s)) (fst s)) (\<lambda>_ s. f s))"
    by (rule call_ends_andthen) (auto simp: winding_reaped reaped_def winding_def intro: call_ends_mono [OF f])
  then show ?thesis using True by simp
qed (use assms(1) in \<open>simp add: winding_reaped\<close>)

lemma drain_none_ends: "winding [] s \<Longrightarrow> call_ends (reaped (snd s) []) (drain_commands env s)"
  using winding_keeps [of "[]" "fst s" "snd s"] keeps_left
  by (rule_tac drain_none [of "snd s" "fst s"]) (auto simp: winding_reaped winding_def)

lemma wait_for_activity_ends:
  assumes "winding [] (self, w)" "read_active self"
  shows "call_ends (progressed w True) (wait_for_activity env (self, w))"
proof (cases "\<not> cq_is_empty env w \<or> cq_overflow env w")
  case True
  then show ?thesis using process_cqes_ends [OF assms(1)] by (simp add: wait_for_activity_def)
next
  case False
  have rc: "reading w" "cancelled w" using assms by (auto simp: winding_def)
  have "call_ends (\<lambda>r s. winding [] s \<and> left (snd s) < left w)
      (on_world (poll_retry env [command_eventfd self, rx_cq_eventfd self] (- 1) w) self)"
    by (rule call_ends_on_world, rule call_ends_mono [OF poll_retry_ends [OF rc]])
       (use winding_keeps [OF assms(1)] False in auto)
  then have "call_ends (progressed w True)
      (andthen (on_world (poll_retry env [command_eventfd self, rx_cq_eventfd self] (- 1) w) self)
        (\<lambda>revents s. andthen
           (if revents ! 0 then andthen (on_world (drain_eventfd env (command_eventfd (fst s)) (snd s)) (fst s)) (\<lambda>_ s. drain_commands env s)
            else Some (Ok (), s))
           (\<lambda>_ s. if revents ! 1 then andthen (on_world (drain_eventfd env (rx_cq_eventfd (fst s)) (snd s)) (fst s)) (\<lambda>_ s. process_cqes env s)
            else Some (Ok (), s))))"
  proof (rule call_ends_andthen)
    fix revents s
    assume s: "winding [] s \<and> left (snd s) < left w"
    have pc: "call_ends (reaped (snd s) []) (process_cqes env s)" if "winding [] s" for s
      by (rule call_ends_mono [OF process_cqes_ends [OF that]]) (simp add: progressed_def)
    show "call_ends (progressed w True) (andthen
           (if revents ! 0 then andthen (on_world (drain_eventfd env (command_eventfd (fst s)) (snd s)) (fst s)) (\<lambda>_ s. drain_commands env s)
            else Some (Ok (), s))
           (\<lambda>_ s. if revents ! 1 then andthen (on_world (drain_eventfd env (rx_cq_eventfd (fst s)) (snd s)) (fst s)) (\<lambda>_ s. process_cqes env s)
            else Some (Ok (), s)))"
    proof (rule call_ends_andthen [OF woken_ends [OF _ drain_none_ends]])
      fix x s1
      assume "reaped (snd s) [] (Ok x) s1"
      with s have "winding [] s1" "left (snd s1) < left w" by (auto simp: reaped_def is_ok_def)
      then show "call_ends (progressed w True) (if revents ! 1
          then andthen (on_world (drain_eventfd env (rx_cq_eventfd (fst s1)) (snd s1)) (fst s1)) (\<lambda>_ s. process_cqes env s)
          else Some (Ok (), s1))"
        by (intro call_ends_mono [OF woken_ends [where f = "process_cqes env", OF _ pc]]) (auto simp: progressed_def reaped_def)
    qed (use s in \<open>auto simp: progressed_def reaped_def is_ok_def\<close>)
  qed (auto simp: progressed_def reaped_def winding_def)
  then show ?thesis using False unfolding wait_for_activity_def split_def prod.collapse by simp
qed

text \<open>
  The loop makes progress: it takes a command, or it reaps the read, or the read is over.
\<close>

definition rank :: "('a, 'w) rx_sys \<Rightarrow> nat \<times> nat" where
  "rank s = (length (cmds (snd s)), if read_active (fst s) then Suc (left (snd s)) else 0)"

definition onward :: "('a, 'w) rx_sys \<Rightarrow> ('a, 'w) rx_sys \<Rightarrow> bool" where
  "onward s s' \<longleftrightarrow> ending s' \<and> (rank s', rank s) \<in> less_than <*lex*> less_than"

text \<open>After the commands at the top of an iteration.\<close>

definition received :: "('a, 'w) rx_sys \<Rightarrow> ('a, 'w) rx_sys \<Rightarrow> bool" where
  "received s s' \<longleftrightarrow> ending s' \<and> (cmds (snd s') \<noteq> [] \<longrightarrow> \<not> running (fst s') \<and> \<not> read_active (fst s')) \<and>
     (length (cmds (snd s')) < length (cmds (snd s)) \<or> cmds (snd s) = [] \<and> cmds (snd s') = [] \<and>
       (read_active (fst s') \<longrightarrow> read_active (fst s) \<and> left (snd s') \<le> left (snd s)))"

lemma fail_received:
  assumes "told self w" "length (cmds w) < length (cmds (snd s)) \<or> cmds (snd s) = [] \<and> cmds w = []"
  shows "received s (fail env e (self, w))"
  using fail_ending [OF assms(1), of e] fail_keeps [of w e self] assms(2)
  by (auto simp: received_def fail_fst rx_keeps_def)

lemma drain_commands_received:
  assumes "ending s"
  shows "call_ends (\<lambda>r s'. r = Ok () \<and> received s s') (on_err (drain_commands env s) (fail env))"
proof (cases "cmds (snd s) = []")
  case True
  obtain self w where s: "s = (self, w)" by (cases s)
  obtain r w1 where d: "drain_commands env (self, w) = Some (r, self, w1)" "r \<noteq> Panic" "keeps w w1"
    using drain_none True s by (metis snd_conv)
  have "received s (self, w1)"
    using assms True s d(3) keeps_left [OF d(3)] by (auto simp: received_def ending_def told_def rx_keeps_def)
  moreover have "received s (fail env e (self, w1))" for e
    using assms True s d(3) by (intro fail_received) (auto simp: ending_def told_def rx_keeps_def)
  ultimately show ?thesis using d(1,2) s by (cases r) auto
next
  case False
  show ?thesis
  proof (rule call_ends_handled [OF drain_commands_ends [OF assms]])
    fix x s1
    assume d: "drained (snd s) (Ok x) s1"
    then show "received s s1" using False by (auto simp: drained_def received_def is_ok_def)
  next
    fix e s1
    assume d: "drained (snd s) (Err e) s1"
    then have "length (cmds (snd s1)) < length (cmds (snd s))" using False by (cases "cmds (snd s)") (auto simp: drained_def)
    then show "received s (fail env e s1)"
      using d fail_received [of "fst s1" "snd s1" s e] by (simp add: drained_def)
  qed
qed

text \<open>The idle thread takes a command from the channel.\<close>

lemma idle_ends:
  assumes "received s (self, w)" "\<not> shutdown_requested self" "\<not> read_active self" "rx_recv_blocking env w = (Some c, w1)"
  shows "call_ends (\<lambda>r s'. r = Ok False \<or> r = Ok True \<and> onward s s')
     (andthen (on_world (ignoring (drain_eventfd env (command_eventfd self) w1)) self) (\<lambda>_ s.
        andthen (on_err (handle_command env c s) (fail env)) (\<lambda>_ s. Some (Ok True, s))))"
proof (rule call_ends_andthen)
  note r = recv [OF assms(4)]
  show "call_ends (\<lambda>r s. r = Ok () \<and> fst s = self \<and> cmds (snd s) = cmds w1)
      (on_world (ignoring (drain_eventfd env (command_eventfd self) w1)) self)"
    unfolding ignoring_def
    by (rule call_ends_on_world, rule call_ends_on_err [OF drain_eventfd_ends]) (auto simp: rx_keeps_def)
next
  fix x s2
  assume "Ok x = Ok () \<and> fst s2 = self \<and> cmds (snd s2) = cmds w1"
  then have 2: "fst s2 = self \<and> cmds (snd s2) = cmds w1" by simp
  note r = recv [OF assms(4)]
  have told: "told self w" and less: "length (cmds w1) < length (cmds (snd s))"
    using assms(1) r by (auto simp: received_def ending_def)
  have "call_ends (handled (snd s2)) (handle_command env c (self, snd s2))"
    using told assms(2,3) r 2 by (intro handle_command_ends) (auto simp: told_def split: if_splits)
  then have "call_ends (\<lambda>r s'. r = Ok () \<and> onward s s') (on_err (handle_command env c (self, snd s2)) (fail env))"
  proof (rule call_ends_handled)
    fix e s3
    assume h: "handled (snd s2) (Err e) s3"
    then show "onward s (fail env e s3)"
      using fail_ending [of "fst s3" "snd s3" e] fail_keeps [of "snd s3" e "fst s3"] less 2
      by (auto simp: handled_def onward_def rank_def rx_keeps_def)
  qed (use less 2 in \<open>auto simp: handled_def onward_def rank_def is_ok_def\<close>)
  then show "call_ends (\<lambda>r s'. r = Ok False \<or> r = Ok True \<and> onward s s')
      (andthen (on_err (handle_command env c s2) (fail env)) (\<lambda>_ s. Some (Ok True, s)))"
    using 2 by (intro call_ends_andthen [where P = "\<lambda>r s'. r = Ok () \<and> onward s s'"]) (auto simp: prod_eq_iff)
qed simp

lemma wait_ends:
  assumes "received s (self, w)" "read_active self"
  shows "call_ends (\<lambda>r s'. r = Ok False \<or> r = Ok True \<and> onward s s')
     (andthen (on_err (wait_for_activity env (self, w)) (fail env)) (\<lambda>_ s. Some (Ok True, s)))"
proof -
  have wd: "winding [] (self, w)" using assms by (auto simp: received_def winding_Nil)
  have less: "length (cmds w) < length (cmds (snd s)) \<or> cmds (snd s) = [] \<and> read_active (fst s) \<and> left w \<le> left (snd s)" "cmds w = []"
    using assms by (auto simp: received_def)
  have "call_ends (\<lambda>r s'. r = Ok () \<and> onward s s') (on_err (wait_for_activity env (self, w)) (fail env))"
  proof (rule call_ends_handled [OF wait_for_activity_ends [OF wd assms(2)]])
    fix x s1
    assume "progressed w True (Ok x) s1"
    then show "onward s s1" using less by (auto simp: progressed_def reaped_def onward_def rank_def winding_Nil is_ok_def)
  next
    fix e s1
    assume p: "progressed w True (Err e) s1"
    then have "ending (fail env e s1)"
      using fail_ending [of "fst s1" "snd s1" e] by (simp add: progressed_def reaped_def told_def)
    then show "onward s (fail env e s1)"
      using p less fail_keeps [of "snd s1" e "fst s1"] fail_fst [of env e "fst s1" "snd s1"]
      by (auto simp: onward_def rank_def progressed_def reaped_def rx_keeps_def)
  qed
  then show ?thesis by (rule call_ends_andthen) auto
qed

lemma run_iteration_ends:
  assumes "ending s"
  shows "call_ends (\<lambda>r s'. r = Ok False \<or> r = Ok True \<and> onward s s') (run_iteration env s)"
  unfolding run_iteration_def
proof (rule call_ends_andthen [OF drain_commands_received [OF assms]])
  fix x s1
  assume "Ok x = Ok () \<and> received s s1"
  then have 1: "received s s1" by simp
  obtain self w where s1: "s1 = (self, w)" by (cases s1)
  obtain c w1 where c: "rx_recv_blocking env w = (c, w1)" by (cases "rx_recv_blocking env w")
  have "read_active self" if "\<not> (shutdown_requested self \<and> \<not> read_active self)" "\<not> (\<not> running self \<and> \<not> read_active self)"
    using 1 s1 that by (auto simp: received_def ending_def)
  then show "call_ends (\<lambda>r s'. r = Ok False \<or> r = Ok True \<and> onward s s') (case s1 of (self, w) \<Rightarrow>
       if shutdown_requested self \<and> \<not> read_active self then Some (Ok False, self, w)
       else if \<not> running self \<and> \<not> read_active self then
         (case rx_recv_blocking env w of
            (Some command, w) \<Rightarrow>
              andthen (on_world (ignoring (drain_eventfd env (command_eventfd self) w)) self) (\<lambda>_ s.
              andthen (on_err (handle_command env command s) (fail env)) (\<lambda>_ s. Some (Ok True, s)))
          | (None, w) \<Rightarrow> Some (Ok False, self, w))
       else andthen (on_err (wait_for_activity env (self, w)) (fail env)) (\<lambda>_ s. Some (Ok True, s)))"
    using idle_ends [of s self w _ w1] wait_ends [of s self w] 1 s1 c by (cases c) auto
qed simp

lemma run_ends: "ending s \<Longrightarrow> call_ends (\<lambda>r _. r = Ok ()) (run env s)"
proof (induction "rank s" arbitrary: s rule: wf_induct_rule [OF wf_lex_prod [OF wf_less_than wf_less_than]])
  case 1
  have "call_ends (\<lambda>r _. r = Ok ()) (andthen (run_iteration env s) (\<lambda>continue s. if continue then run env s else Some (Ok (), s)))"
    by (rule call_ends_andthen [OF run_iteration_ends [OF 1(2)]]) (use 1(1) in \<open>auto simp: onward_def\<close>)
  then show ?case by (subst run.simps)
qed

end
section \<open>A host that ends a cancelled read\<close>

text \<open>
  The queues of the concrete host, beside a kernel that has a read armed: while the thread polls with nothing to
  reap, the kernel posts what still arrives, and once the read is cancelled its last completion.
\<close>

record rkernel =
  rk_armed :: bool
  rk_cancelled :: bool
  rk_incoming :: "cqe list"

definition rk_accept :: "sqe \<Rightarrow> rkernel \<Rightarrow> rkernel" where
  "rk_accept e k =
     (case e of
        ReadMulti _ _ _ tag \<Rightarrow> if tag = RX_READ_USER_DATA then k\<lparr>rk_armed := True, rk_cancelled := False\<rparr> else k
      | AsyncCancel target tag \<Rightarrow>
          if target = RX_READ_USER_DATA then k\<lparr>rk_cancelled := True,
            rk_incoming := rk_incoming k @ [\<lparr>cqe_user_data = tag, cqe_result = 0, cqe_flags = 0\<rparr>]\<rparr> else k
      | _ \<Rightarrow> k)"

definition rk_push :: "sqe \<Rightarrow> sim \<times> rkernel \<Rightarrow> bool \<times> sim \<times> rkernel" where
  "rk_push e s = (let (ok, w) = sim_push [e] (fst s) in (ok, w, if ok then rk_accept e (snd s) else snd s))"

definition rk_post :: "cqe \<Rightarrow> sim \<times> rkernel \<Rightarrow> sim \<times> rkernel" where
  "rk_post c s = ((fst s)\<lparr>sim_cq := sim_cq (fst s) @ [c]\<rparr>, (snd s)\<lparr>rk_armed := rk_armed (snd s) \<and> \<not> ends_read sim_env c\<rparr>)"

definition rk_poll :: "sim \<times> rkernel \<Rightarrow> bool list res \<times> sim \<times> rkernel" where
  "rk_poll s =
     (let s = if sim_cq (fst s) \<noteq> [] then s
              else (case rk_incoming (snd s) of
                      c # cs \<Rightarrow> rk_post c (fst s, (snd s)\<lparr>rk_incoming := cs\<rparr>)
                    | [] \<Rightarrow> if rk_armed (snd s) \<and> rk_cancelled (snd s) then rk_post (read_cqe (- ECANCELED) 0) s else s)
      in (Ok [sim_cmds (fst s) \<noteq> [], sim_cq (fst s) \<noteq> []], s))"

definition rk_env :: "(sim \<times> rkernel, nat) rx_env" where
  "rk_env =
     \<lparr> sq_push = rk_push, sq_push_multiple = (\<lambda>es s. let (ok, w) = sim_push es (fst s) in (ok, w, snd s)),
       sq_capacity = (\<lambda>_. 4), sq_len = (\<lambda>s. length (sim_sq (fst s))),
       ring_submit = (\<lambda>s. let (r, w) = sim_submit (fst s) in (r, w, snd s)),
       cq_collect = (\<lambda>s. (sim_cq (fst s), (fst s)\<lparr>sim_cq := []\<rparr>, snd s)), cq_is_empty = (\<lambda>s. sim_cq (fst s) = []),
       cq_overflow = (\<lambda>_. False), buffer_select = buffer_select sim_env, cqe_more = cqe_more sim_env,
       poll_fds = (\<lambda>_ _. rk_poll), fd_read_u64 = (\<lambda>_ s. (Err (Os EAGAIN), s)), fd_write_u64 = (\<lambda>_ _ s. (Ok 8, s)),
       sys_eventfd = (\<lambda>s. (Ok 3, s)), sys_dup = (\<lambda>fd s. (Ok (fd + 1), s)), instant_now = (\<lambda>s. (0, s)),
       rx_try_recv = (\<lambda>s. let (c, w) = sim_try_recv (fst s) in (c, w, snd s)),
       rx_recv_blocking = (\<lambda>s. let (c, w) = sim_recv_blocking (fst s) in (c, w, snd s)),
       ack_send = (\<lambda>a r s. (ack_send sim_env a r (fst s), snd s)),
       wake_tasks = (\<lambda>ws s. (wake_tasks sim_env ws (fst s), snd s)), virtio_hdr_len = 10 \<rparr>"

definition rk_reading :: "sim \<times> rkernel \<Rightarrow> bool" where
  "rk_reading s \<longleftrightarrow> rk_armed (snd s) \<or> (\<exists>c \<in> set (sim_cq (fst s)). ends_read sim_env c)"

definition rk_budget :: "sim \<times> rkernel \<Rightarrow> nat" where
  "rk_budget s = 2 * length (rk_incoming (snd s)) + (if rk_armed (snd s) then 2 else 0) + length (sim_cq (fst s))"

lemma rk_ends_read [simp]: "ends_read rk_env c = ends_read sim_env c"
  by (simp add: ends_read_def rk_env_def)

lemma cancelled_ends_read [simp]: "ends_read sim_env (read_cqe r 0)"
  by (simp add: ends_read_def read_cqe_def)

lemma rk_poll_keeps:
  assumes "rk_poll w = (r, w')"
  shows "rx_keeps rk_reading (rk_cancelled \<circ> snd) (sim_cmds \<circ> fst) rk_budget (\<lambda>_. 0) w w' \<and>
    (rk_reading w \<and> (rk_cancelled \<circ> snd) w \<and> (sim_cq (fst w) = [] \<or> (\<exists>e. r = Err e \<and> kind e = Interrupted)) \<longrightarrow> rk_budget w' < rk_budget w)"
  using assms
  by (cases "rk_incoming (snd w)")
     (auto simp: rk_poll_def rk_post_def rx_keeps_def rk_reading_def rk_budget_def Let_def split: if_splits)

interpretation rk_kernel: rx_kernel rk_env rk_reading "rk_cancelled \<circ> snd" "sim_cmds \<circ> fst" rk_budget "\<lambda>_. 0" "\<lambda>_. 0"
proof (unfold_locales, goal_cases)
  case 1
  then show ?case
    by (auto simp: rk_env_def sq_drains_def rk_push_def sim_push_def sim_submit_def split: if_splits)
next
  case (2 e w ok w')
  then show ?case
    by (auto simp: rk_env_def rk_push_def sim_push_def rk_accept_def rk_reading_def RX_READ_USER_DATA_def
        split: if_splits sqe.splits)
next
  case (6 fds timeout w revents w')
  then show ?case using rk_poll_keeps by (simp add: rk_env_def)
qed (auto simp: rk_env_def rx_keeps_def rk_reading_def rk_budget_def sim_submit_def sim_try_recv_def sim_recv_blocking_def
     ends_read_def decode_error_kind_def errno_defs split: list.splits)

section \<open>The thread ends\<close>



section \<open>A shutdown that is undone\<close>

lemma run_stuck:
  assumes "run_iteration env s = Some (Ok True, s)"
  shows "run env s = None"
proof (rule ccontr)
  assume "run env s \<noteq> None"
  then obtain y where "run env s = Some y" by blast
  then have "env = env \<longrightarrow> s = s \<longrightarrow> False"
    by (rule run.raw_induct [where P = "\<lambda>e t y. e = env \<longrightarrow> t = s \<longrightarrow> False", rotated]) (use assms in \<open>auto, blast\<close>)
  then show False by simp
qed

lemma sim_waits:
  "read_active self \<Longrightarrow> sim_cmds w = [] \<Longrightarrow> sim_cq w = [] \<Longrightarrow> run_iteration sim_env (self, w) = Some (Ok True, self, w)"
  unfolding run_iteration_def wait_for_activity_def
  by (subst drain_commands.simps, subst poll_retry.simps) (simp add: sim_try_recv_def)

text \<open>
  The hypothesis that no command follows \<^verbatim>\<open>Shutdown\<close> is not the code's to give: if the cancelled read ends with
  \<^verbatim>\<open>ENOBUFS\<close>, the driver arms auto-resume after \<^verbatim>\<open>Shutdown\<close> has disarmed it, and a packet that another thread drops
  before the next iteration sends \<^verbatim>\<open>AutoResumeCheck\<close>.  The driver then submits a new read, which nobody cancels, and
  the thread that is being joined never returns.
\<close>

theorem shutdown_undone_by_auto_resume:
  "case run_iteration sim_env (sim_thread False, sim_empty\<lparr>sim_cmds := [Shutdown], sim_cq := [read_cqe (- ENOBUFS) 0]\<rparr>) of
     Some (Ok True, self, w) \<Rightarrow> shutdown_requested self \<and> \<not> read_active self \<and>
       (case note_recycled (auto_resume self) of (resume, sends) \<Rightarrow>
          sends \<and> run sim_env (self\<lparr>auto_resume := resume\<rparr>, w\<lparr>sim_cmds := [AutoResumeCheck]\<rparr>) = None)
   | _ \<Rightarrow> False"
proof -
  let ?again = "\<lambda>s. (case s of (self, w) \<Rightarrow> read_active self \<and> sim_cmds w = [] \<and> sim_cq w = [])"
  have ev: "case run_iteration sim_env (sim_thread False, sim_empty\<lparr>sim_cmds := [Shutdown], sim_cq := [read_cqe (- ENOBUFS) 0]\<rparr>) of
     Some (Ok True, self, w) \<Rightarrow> shutdown_requested self \<and> \<not> read_active self \<and>
       (case note_recycled (auto_resume self) of (resume, sends) \<Rightarrow>
          sends \<and> (case run_iteration sim_env (self\<lparr>auto_resume := resume\<rparr>, w\<lparr>sim_cmds := [AutoResumeCheck]\<rparr>) of
            Some (Ok True, s) \<Rightarrow> ?again s | _ \<Rightarrow> False))
   | _ \<Rightarrow> False"
    by code_simp
  have "run sim_env s = None" if "run_iteration sim_env s = Some (Ok True, s2)" "?again s2" for s s2
    using that run_stuck [OF sim_waits, of "fst s2" "snd s2"] by (subst run.simps) (auto split: prod.splits)
  with ev show ?thesis by (fastforce split: option.splits prod.splits res.splits bool.splits)
qed

end
