(* ===== verification/Rx_Controller.thy ===== *)
theory Rx_Controller
  imports Rx_Driver_Correct
begin

text \<open>
  Setting up RX and controlling it (\<^verbatim>\<open>RxRingContext\<close>, \<^verbatim>\<open>RxDriverHandle\<close>, the trait \<^verbatim>\<open>RxDriverOps\<close> and
  \<^verbatim>\<open>RxController\<close> of \<^verbatim>\<open>src/src/core/rx.rs\<close>).

  The controller is written against the trait \<^verbatim>\<open>RxDriverOps\<close>: here a pair of operations on a
  state that contains the shared RX state, with the trait's contract as the locale
  \<open>rx_driver_ops\<close>.  The contract is discharged for the driver thread of \<open>Rx_Driver\<close>.
\<close>

section \<open>The ring context\<close>

record ('w, 'a) rx_setup_env = "('w, 'a) rx_env" +
  uring_new :: "u32 \<Rightarrow> 'w \<Rightarrow> unit res \<times> 'w"
  uring_fast_poll :: "'w \<Rightarrow> bool"
  uring_register_eventfd :: "i32 \<Rightarrow> 'w \<Rightarrow> unit res \<times> 'w"
  uring_unregister_eventfd :: "'w \<Rightarrow> unit res \<times> 'w"
  uring_register_buf_ring :: "u64 \<Rightarrow> u16 \<Rightarrow> u16 \<Rightarrow> u16 \<Rightarrow> 'w \<Rightarrow> unit res \<times> 'w"
  uring_unregister_buf_ring :: "u16 \<Rightarrow> 'w \<Rightarrow> unit res \<times> 'w"
  libc_mem :: libc_memory
  box_ptr :: "nat \<Rightarrow> usize"
  spawn_thread :: "string \<Rightarrow> 'w \<Rightarrow> unit res \<times> 'w"
  join_thread :: "'w \<Rightarrow> 'w"
  channel_new :: "'w \<Rightarrow> 'a \<times> 'w"
  command_send :: "'a RxDriverCommand \<Rightarrow> 'w \<Rightarrow> bool \<times> 'w"
  ack_recv :: "'a \<Rightarrow> 'w \<Rightarrow> unit res option \<times> 'w"

record RxRingContext =
  ctx_eventfd :: i32
  ctx_buffers :: ProvidedBuffers

definition rx_ring_new :: "('w, 'a, 'm) rx_setup_env_scheme \<Rightarrow> u32 \<Rightarrow> usize \<Rightarrow> usize \<Rightarrow> 'w \<Rightarrow>
    RxRingContext res \<times> 'w" where
  "rx_ring_new env entries buffer_len buffer_cnt w =
     then_try (uring_new env entries w) (\<lambda>_ w.
     if \<not> uring_fast_poll env w then (Err rx_fast_poll_required, w)
     else
       then_try (new_eventfd env w) (\<lambda>fd w.
       then_try (uring_register_eventfd env fd w) (\<lambda>_ w.
       then_try (provided_new (libc_mem env) (box_ptr env) buffer_len buffer_cnt RX_BUFFER_GROUP_ID, w)
         (\<lambda>buffers w.
       then_try (uring_register_buf_ring env (ring_addr buffers) (pb_entry_count buffers)
                   (pb_group_id buffers) 0 w) (\<lambda>_ w.
       then_try (publish_all buffers, w) (\<lambda>buffers w.
         (Ok \<lparr> ctx_eventfd = fd, ctx_buffers = buffers \<rparr>, w)))))))"

definition rx_ring_drop :: "('w, 'a, 'm) rx_setup_env_scheme \<Rightarrow> RxRingContext \<Rightarrow> 'w \<Rightarrow> RxRingContext \<times> 'w" where
  "rx_ring_drop env self w =
     (let self = self\<lparr>ctx_buffers := deactivate (ctx_buffers self)\<rparr>;
          (_, w) = uring_unregister_buf_ring env (pb_group_id (ctx_buffers self)) w;
          (_, w) = uring_unregister_eventfd env w
      in (self, w))"

section \<open>Spawning the driver\<close>

record RxDriverConfig =
  cfg_device :: i32
  cfg_ring_entries :: u32
  cfg_buffer_len :: usize
  cfg_buffer_count :: usize
  cfg_include_hdr :: bool
  cfg_auto_resume :: usize
  cfg_thread_name :: string

record RxDriverHandle =
  handle_eventfd :: i32
  handle_name :: string

text \<open>
  \<^verbatim>\<open>RxDriverHandle::spawn\<close>: the handle, and the state the new thread starts from.
\<close>

definition spawn :: "('w, 'a, 'm) rx_setup_env_scheme \<Rightarrow> RxDriverConfig \<Rightarrow> u16 RxSharedState \<Rightarrow> 'w \<Rightarrow>
    (RxDriverHandle \<times> 'a RxDriverThread) res \<times> 'w" where
  "spawn env config sh w =
     then_try (rx_ring_new env (cfg_ring_entries config) (cfg_buffer_len config) (cfg_buffer_count config) w)
       (\<lambda>ring w.
     then_try (new_eventfd env w) (\<lambda>read_fd w.
     then_try (dup_fd env read_fd w) (\<lambda>write_fd w.
     then_try (dup_fd env read_fd w) (\<lambda>_ w.
     let self = \<lparr> rx_buffers = ctx_buffers ring, rx_cq_eventfd = ctx_eventfd ring, device = cfg_device config,
                  rx_shared = sh, command_eventfd = read_fd, running = False, read_active = False,
                  stop_ack = None, shutdown_requested = False,
                  auto_resume = auto_resume_new (cfg_auto_resume config),
                  packets_include_virtio_net_hdr = cfg_include_hdr config \<rparr>
     in then_try (spawn_thread env (cfg_thread_name config) w) (\<lambda>_ w.
          (Ok (\<lparr> handle_eventfd = write_fd, handle_name = cfg_thread_name config \<rparr>, self), w))))))"

section \<open>The handle\<close>

definition handle_send_command :: "('w, 'a, 'm) rx_setup_env_scheme \<Rightarrow> RxDriverHandle \<Rightarrow>
    'a RxDriverCommand \<Rightarrow> 'w \<Rightarrow> (unit, 'w) call" where
  "handle_send_command env self command w =
     (let (sent, w) = command_send env command w in
      if \<not> sent then Some (Err rx_driver_closed, w)
      else signal_eventfd env (handle_eventfd self) w)"

definition await_ack :: "('w, 'a, 'm) rx_setup_env_scheme \<Rightarrow> 'a \<Rightarrow> 'w \<Rightarrow> (unit, 'w) call" where
  "await_ack env ack w =
     Some (case ack_recv env ack w of (Some r, w) \<Rightarrow> (r, w) | (None, w) \<Rightarrow> (Err rx_driver_closed, w))"

definition handle_start_sync :: "('w, 'a, 'm) rx_setup_env_scheme \<Rightarrow> RxDriverHandle \<Rightarrow> 'w \<Rightarrow> (unit, 'w) call" where
  "handle_start_sync env self w =
     (let (ack, w) = channel_new env w in
      andthen (handle_send_command env self (Start ack) w) (\<lambda>_ w. await_ack env ack w))"

definition handle_stop_async :: "('w, 'a, 'm) rx_setup_env_scheme \<Rightarrow> RxDriverHandle \<Rightarrow> 'w \<Rightarrow> (unit, 'w) call" where
  "handle_stop_async env self w =
     (let (ack, w) = channel_new env w in
      andthen (handle_send_command env self (Stop ack) w) (\<lambda>_ w. await_ack env ack w))"

definition handle_drop :: "('w, 'a, 'm) rx_setup_env_scheme \<Rightarrow> RxDriverHandle \<Rightarrow> 'w \<Rightarrow> (unit, 'w) call" where
  "handle_drop env self w =
     andthen (ignoring (handle_send_command env self Shutdown w)) (\<lambda>_ w. Some (Ok (), join_thread env w))"

section \<open>The controller\<close>

text \<open>
  \<^verbatim>\<open>RxController<D>\<close>: \<open>get_sh\<close> and \<open>put_sh\<close> reach the shared state inside the system state, \<open>start_sync\<close> and
  \<open>stop_async\<close> are the driver's operations (during which the driver may change the shared state).
\<close>

definition controller_start :: "('s \<Rightarrow> u16 RxSharedState) \<Rightarrow> (u16 RxSharedState \<Rightarrow> 's \<Rightarrow> 's) \<Rightarrow>
    ('s \<Rightarrow> (unit, 's) call) \<Rightarrow> 's \<Rightarrow> (unit, 's) call" where
  "controller_start get_sh put_sh start_sync s =
     (if rx_state (get_sh s) = Running then Some (Ok (), s)
      else Option.bind (start_sync s) (\<lambda>(r, s). case r of
             Err e \<Rightarrow> Some (Err e, put_sh (fst (set_faulted (clone_io_error e) (get_sh s))) s)
           | _ \<Rightarrow> Some (r, s)))"

definition controller_stop :: "('s \<Rightarrow> u16 RxSharedState) \<Rightarrow> (u16 RxSharedState \<Rightarrow> 's \<Rightarrow> 's) \<Rightarrow>
    ('s \<Rightarrow> (unit, 's) call) \<Rightarrow> 's \<Rightarrow> (unit, 's) call" where
  "controller_stop get_sh put_sh stop_async s =
     (case rx_state (get_sh s) of
        Running \<Rightarrow>
          Option.bind (stop_async s) (\<lambda>(r, s). case r of
            Ok _ \<Rightarrow> Some (Ok (), put_sh (fst (set_stopped (get_sh s))) s)
          | Err e \<Rightarrow> Some (Err e, put_sh (fst (set_faulted (clone_io_error e) (get_sh s))) s)
          | Panic \<Rightarrow> Some (Panic, s))
      | _ \<Rightarrow> Some (Ok (), s))"

text \<open>\<^verbatim>\<open>RxController::new\<close>, after the driver is spawned: start at once in auto-start mode.\<close>

definition controller_new :: "RxStartMode \<Rightarrow> ('s \<Rightarrow> u16 RxSharedState) \<Rightarrow> (u16 RxSharedState \<Rightarrow> 's \<Rightarrow> 's) \<Rightarrow>
    ('s \<Rightarrow> (unit, 's) call) \<Rightarrow> 's \<Rightarrow> (unit, 's) call" where
  "controller_new start_mode get_sh put_sh start_sync s =
     (if start_mode = AutoStart then controller_start get_sh put_sh start_sync s else Some (Ok (), s))"

text \<open>The contract of the trait.\<close>

locale rx_driver_ops =
  fixes start_sync stop_async :: "'s \<Rightarrow> (unit, 's) call"
    and get_sh :: "'s \<Rightarrow> u16 RxSharedState" and put_sh :: "u16 RxSharedState \<Rightarrow> 's \<Rightarrow> 's"
  assumes get_put_sh: "get_sh (put_sh sh s) = sh"
    and start_running: "start_sync s = Some (Ok x, s') \<Longrightarrow> rx_state (get_sh s') = Running"
    and start_keeps: "start_sync s = Some (r, s') \<Longrightarrow> packets (get_sh s') = packets (get_sh s)"
    and stop_keeps: "stop_async s = Some (r, s') \<Longrightarrow> \<exists>ps. packets (get_sh s') = packets (get_sh s) @ ps"
begin

lemma start_spec:
  assumes "controller_start get_sh put_sh start_sync s = Some (r, s')"
  shows "case r of Ok _ \<Rightarrow> rx_state (get_sh s') = Running
         | Err e \<Rightarrow> rx_state (get_sh s') = Faulted (clone_io_error e) | Panic \<Rightarrow> True"
    and "packets (get_sh s') = packets (get_sh s)"
  using assms start_running start_keeps
  by (auto simp: controller_start_def get_put_sh split: if_splits res.splits Option.bind_splits)

lemma stop_spec:
  assumes "controller_stop get_sh put_sh stop_async s = Some (r, s')"
  shows "case r of Ok _ \<Rightarrow> rx_state (get_sh s') \<noteq> Running
         | Err e \<Rightarrow> rx_state (get_sh s') = Faulted (clone_io_error e) | Panic \<Rightarrow> True"
    and "\<exists>ps. packets (get_sh s') = packets (get_sh s) @ ps"
proof -
  show "case r of Ok _ \<Rightarrow> rx_state (get_sh s') \<noteq> Running
         | Err e \<Rightarrow> rx_state (get_sh s') = Faulted (clone_io_error e) | Panic \<Rightarrow> True"
    using assms
    by (auto simp: controller_stop_def get_put_sh split: RxState.splits res.splits Option.bind_splits)
  show "\<exists>ps. packets (get_sh s') = packets (get_sh s) @ ps"
  proof (cases "rx_state (get_sh s)")
    case Running
    with assms obtain r1 s1 where "stop_async s = Some (r1, s1)" "packets (get_sh s') = packets (get_sh s1)"
      by (auto simp: controller_stop_def get_put_sh split: res.splits Option.bind_splits)
    with stop_keeps show ?thesis by metis
  qed (use assms in \<open>auto simp: controller_stop_def\<close>)
qed

end

section \<open>The driver thread behind the handle\<close>

text \<open>
  The two operations with the driver thread serving the command: the acknowledgement of a start
  carries the result of \<^verbatim>\<open>start_rx\<close>, a stop is acknowledged while the driver works through the
  completions \<open>entries\<close>.
\<close>

definition rx_sys_shared :: "('a, 'w) rx_sys \<Rightarrow> u16 RxSharedState" where
  "rx_sys_shared s = rx_shared (fst s)"

definition rx_sys_set_shared :: "u16 RxSharedState \<Rightarrow> ('a, 'w) rx_sys \<Rightarrow> ('a, 'w) rx_sys" where
  "rx_sys_set_shared sh s = ((fst s)\<lparr>rx_shared := sh\<rparr>, snd s)"

definition served_start :: "('w, 'a, 'm) rx_setup_env_scheme \<Rightarrow> 'a \<Rightarrow> ('a, 'w) rx_sys \<Rightarrow>
    (unit, ('a, 'w) rx_sys) call" where
  "served_start env ack s =
     Option.bind (start_rx env s) (\<lambda>(r, self, w). case r of
       Panic \<Rightarrow> Some (Panic, self, w) | _ \<Rightarrow> Some (r, self, ack_send env ack r w))"

text \<open>
  \<^verbatim>\<open>RxController::new\<close>: spawn the driver and, in auto-start mode, start it; if that fails the
  handle is dropped again.
\<close>

definition rx_controller_new :: "('w, 'a, 'm) rx_setup_env_scheme \<Rightarrow> RxDriverConfig \<Rightarrow> RxStartMode \<Rightarrow> 'w \<Rightarrow>
    (RxDriverHandle \<times> 'a RxDriverThread, 'w) call" where
  "rx_controller_new env config start_mode w =
     andthen (Some (spawn env config shared_default w)) (\<lambda>(handle, self) w.
     Option.bind
       (controller_new start_mode rx_sys_shared rx_sys_set_shared
          (\<lambda>(self, w). let (ack, w) = channel_new env w in served_start env ack (self, w)) (self, w))
       (\<lambda>(r, self, w). case r of
          Ok _ \<Rightarrow> Some (Ok (handle, self), w)
        | Err e \<Rightarrow> andthen (handle_drop env handle w) (\<lambda>_ w. Some (Err e, w))
        | Panic \<Rightarrow> Some (Panic, w)))"

definition served_stop :: "('w, 'a, 'm) rx_setup_env_scheme \<Rightarrow> 'a \<Rightarrow> cqe list \<Rightarrow> ('a, 'w) rx_sys \<Rightarrow>
    (unit, ('a, 'w) rx_sys) call" where
  "served_stop env ack entries s =
     andthen (handle_command env (Stop ack) s) (\<lambda>_ s.
     andthen (on_err (process_entries env entries s) (fail env)) (\<lambda>_ (self, w).
       on_world (await_ack env ack w) self))"

lemma submit_read_shared:
  "submit_multishot_read env s = Some (r, s') \<Longrightarrow> rx_shared (fst s') = rx_shared (fst s)"
  by (cases s) (auto simp: submit_multishot_read_def andthen_Some_iff on_world_Some_iff)

lemma submit_cancel_shared:
  "submit_cancel env s = Some (r, s') \<Longrightarrow> rx_shared (fst s') = rx_shared (fst s)"
  by (cases s) (auto simp: submit_cancel_def on_world_Some_iff)

lemma shared_update_shared:
  "rx_shared (fst (update_shared env f s)) = fst (f (rx_shared (fst s)))"
  by (cases s) (simp add: update_shared_def split_beta)

lemma shared_fail:
  "rx_shared (fst (fail env e s)) = fst (set_faulted (clone_io_error e) (rx_shared (fst s)))"
  by (cases s) (simp add: fail_def update_shared_def Let_def split_beta split: option.split)

lemma start_rx_shared:
  assumes "start_rx env s = Some (r, s')"
  shows "packets (rx_shared (fst s')) = packets (rx_shared (fst s))"
    and "r = Ok x \<Longrightarrow> rx_state (rx_shared (fst s')) = Running"
  using assms
  by (cases s; auto simp: start_rx_def Let_def shared_update_shared split: if_splits Option.bind_splits res.splits
      dest!: submit_read_shared)+

lemma stop_command_packets:
  "handle_command env (Stop ack) s = Some (r, s') \<Longrightarrow>
   packets (rx_shared (fst s')) = packets (rx_shared (fst s))"
  by (cases s) (auto simp: on_err_Some_iff begin_stop_def Let_def shared_fail split: if_splits
      dest!: submit_cancel_shared)

lemma finish_stop_packets [simp]:
  "packets (rx_shared (fst (finish_stop env s))) = packets (rx_shared (fst s))"
  by (cases s) (simp add: finish_stop_def shared_update_shared split: option.split)

text \<open>A call that may queue packets but removes none.\<close>

definition queue_grows :: "('x, ('a, 'w) rx_sys) call \<Rightarrow> ('a, 'w) rx_sys \<Rightarrow> bool" where
  "queue_grows m s \<longleftrightarrow>
     (\<forall>r s'. m = Some (r, s') \<longrightarrow> (\<exists>ps. packets (rx_shared (fst s')) = packets (rx_shared (fst s)) @ ps))"

lemma queue_growsI:
  "(\<And>r s'. m = Some (r, s') \<Longrightarrow> packets (rx_shared (fst s')) = packets (rx_shared (fst s))) \<Longrightarrow> queue_grows m s"
  by (fastforce simp: queue_grows_def)

lemma queue_grows_Some: "packets (rx_shared (fst s')) = packets (rx_shared (fst s)) \<Longrightarrow> queue_grows (Some (r, s')) s"
  by (rule queue_growsI) auto

lemma queue_grows_andthen:
  assumes "queue_grows m s" "\<And>x s1. m = Some (Ok x, s1) \<Longrightarrow> queue_grows (f x s1) s1"
  shows "queue_grows (andthen m f) s"
  unfolding queue_grows_def
proof (intro allI impI)
  fix r s'
  assume "andthen m f = Some (r, s')"
  then consider x s1 where "m = Some (Ok x, s1)" "f x s1 = Some (r, s')" | r1 where "m = Some (r1, s')"
    unfolding andthen_Some_iff by blast
  then show "\<exists>ps. packets (rx_shared (fst s')) = packets (rx_shared (fst s)) @ ps"
  proof cases
    case 1
    with assms(1) assms(2) [OF 1(1)] show ?thesis unfolding queue_grows_def by (metis append_assoc)
  next
    case 2
    with assms(1) show ?thesis unfolding queue_grows_def by blast
  qed
qed

lemma queue_grows_on_err: "queue_grows m s \<Longrightarrow> queue_grows (on_err m (fail env)) s"
  unfolding queue_grows_def on_err_Some_iff by (metis shared_fail shared_set(6))

lemma queue_grows_submit: "queue_grows (submit_multishot_read env s) s"
  by (rule queue_growsI) (simp add: submit_read_shared)

lemma deliver_packets_grow: "queue_grows (deliver_packet env entry s) s"
proof -
  have "queue_grows (Some (r, update_shared env (push_packet p) s)) s" for r :: "unit res" and p
    using shared_update_shared [of env "push_packet p" s]
    by (cases "update_shared env (push_packet p) s") (simp add: queue_grows_def)
  then show ?thesis
    by (cases s) (auto simp: deliver_packet_def Let_def intro!: queue_grows_Some split: option.split res.split)
qed

lemma read_tail_grows:
  "queue_grows (case s of (self, w) \<Rightarrow>
      if cqe_more env (cqe_flags entry) then Some (Ok (), self, w)
      else if running (self\<lparr>read_active := False\<rparr>)
        then submit_multishot_read env (self\<lparr>read_active := False\<rparr>, w)
        else Some (Ok (), finish_stop env (self\<lparr>read_active := False\<rparr>, w))) s"
proof -
  obtain self w where s: "s = (self, w)" by (cases s)
  have "queue_grows m (self\<lparr>read_active := False\<rparr>, w) \<Longrightarrow> queue_grows m s" for m :: "(unit, ('a, 'b) rx_sys) call"
    by (simp add: queue_grows_def s)
  then show ?thesis
    using queue_grows_submit [of env "(self\<lparr>read_active := False\<rparr>, w)"]
    by (auto simp: s intro!: queue_grows_Some)
qed

lemma handle_read_cqe_grows: "queue_grows (handle_read_cqe env entry s) s"
  unfolding handle_read_cqe_def Let_def
proof (rule queue_grows_andthen)
  show "queue_grows (if 0 \<le> cqe_result entry then deliver_packet env entry s
         else if cqe_result entry = - ENOBUFS then Some (Ok (), enter_enobufs_fault env s)
         else if cqe_result entry \<noteq> - ECANCELED \<or> running (fst s) then Some (Err (Os (- cqe_result entry)), s)
         else Some (Ok (), s)) s"
    by (cases s) (auto simp: enter_enobufs_fault_def Let_def shared_update_shared
        intro!: queue_grows_Some deliver_packets_grow)
qed (rule read_tail_grows)

lemma handle_cqe_grows: "queue_grows (handle_cqe env entry s) s"
  by (auto simp: handle_cqe_def handle_cancel_cqe_def Let_def
      intro!: handle_read_cqe_grows queue_grows_Some)

lemma process_entries_grows: "queue_grows (process_entries env entries s) s"
  by (induction entries arbitrary: s)
     (auto intro!: queue_grows_Some queue_grows_andthen handle_cqe_grows)

lemma served_stop_grows: "queue_grows (served_stop env ack entries s) s"
  unfolding served_stop_def
proof (intro queue_grows_andthen queue_grows_on_err process_entries_grows)
  show "queue_grows (handle_command env (Stop ack) s) s"
    by (rule queue_growsI) (rule stop_command_packets)
  show "queue_grows (case s of (self, w) \<Rightarrow> on_world (await_ack env ack w) self) s" for s
    by (cases s) (auto intro!: queue_growsI simp: on_world_Some_iff)
qed

interpretation rx_handle: rx_driver_ops "served_start env ack" "served_stop env ack entries"
    rx_sys_shared rx_sys_set_shared
  for env :: "('w, 'a, 'm) rx_setup_env_scheme" and ack entries
proof unfold_locales
  fix r :: "unit res" and s s' :: "('a, 'w) rx_sys"
  assume "served_start env ack s = Some (r, s')"
  then show "packets (rx_sys_shared s') = packets (rx_sys_shared s)"
    by (auto simp: served_start_def rx_sys_shared_def split: Option.bind_splits res.splits dest!: start_rx_shared(1))
next
  fix x and s s' :: "('a, 'w) rx_sys"
  assume "served_start env ack s = Some (Ok x, s')"
  then show "rx_state (rx_sys_shared s') = Running"
    using start_rx_shared(2) [of env s "Ok x" _ x]
    by (fastforce simp: served_start_def rx_sys_shared_def split: Option.bind_splits res.splits)
next
  fix r :: "unit res" and s s' :: "('a, 'w) rx_sys"
  assume *: "served_stop env ack entries s = Some (r, s')"
  show "\<exists>ps. packets (rx_sys_shared s') = packets (rx_sys_shared s) @ ps"
    using served_stop_grows [of env ack entries s] *
    by (cases s') (simp add: queue_grows_def rx_sys_shared_def)
qed (simp add: rx_sys_shared_def rx_sys_set_shared_def)

section \<open>What the controller promises\<close>



text \<open>
  Spawning the driver for a well-formed configuration: it starts from a state that meets its
  invariant, with all buffers published to the kernel.
\<close>

lemma spawn_ready:
  assumes valid: "config_ok conf" "cfg_buffer_count config = rx_buffer_count conf"
    and spawn: "spawn env config sh w = (Ok (h, self), w')" "rx_state sh = Stopped"
  shows "rx_inv self" "ring_inv (rx_buffers self, 0)"
    "available (rx_buffers self, 0) = map of_nat [0 ..< rx_buffer_count conf]"
    "pb_buffer_len (rx_buffers self) = cfg_buffer_len config" "rx_shared self = sh" "device self = cfg_device config"
    "packets_include_virtio_net_hdr self = cfg_include_hdr config"
proof -
  obtain k where k: "rx_buffer_count conf = 2 ^ k" "k \<le> 15"
    using valid(1) by (auto simp: config_ok_def)
  obtain ring w1 where ring: "rx_ring_new env (cfg_ring_entries config) (cfg_buffer_len config)
      (cfg_buffer_count config) w = (Ok ring, w1)"
    and self: "rx_buffers self = ctx_buffers ring" "rx_shared self = sh" "\<not> running self"
      "\<not> read_active self" "stop_ack self = None" "device self = cfg_device config"
      "packets_include_virtio_net_hdr self = cfg_include_hdr config"
    using spawn(1) by (auto simp: spawn_def then_try_Ok_iff Let_def)
  from ring obtain pb where pb: "provided_new (libc_mem env) (box_ptr env) (cfg_buffer_len config)
      (rx_buffer_count conf) RX_BUFFER_GROUP_ID = Ok pb" "publish_all pb = Ok (ctx_buffers ring)"
    by (auto simp: rx_ring_new_def then_try_Ok_iff valid(2) split: if_splits)
  from publish_new [OF pb(1) k] pb(2) self spawn(2)
  show "rx_inv self" "ring_inv (rx_buffers self, 0)"
    "available (rx_buffers self, 0) = map of_nat [0 ..< rx_buffer_count conf]"
    "pb_buffer_len (rx_buffers self) = cfg_buffer_len config" "rx_shared self = sh" "device self = cfg_device config"
    "packets_include_virtio_net_hdr self = cfg_include_hdr config"
    by (auto simp: rx_inv_def)
qed

text \<open>
  A stop during an \<^verbatim>\<open>ENOBUFS\<close> fault is not remembered.  While auto-resume is armed RX is
  \<^verbatim>\<open>Faulted\<close>, and \<^verbatim>\<open>stop\<close> then returns success without telling the driver; when the application
  has given back enough buffers the driver resumes, and RX is \<^verbatim>\<open>Running\<close> although the last call
  of the application was a successful \<^verbatim>\<open>stop\<close>.
\<close>

theorem stop_while_faulted_forgotten:
  "case handle_cqe sim_env (read_cqe (- ENOBUFS) 0) (sim_thread False, sim_empty) of
     Some (Ok _, faulted) \<Rightarrow>
       rx_state (rx_sys_shared faulted) = Faulted rx_buffers_exhausted \<and>
       (case controller_stop rx_sys_shared rx_sys_set_shared (\<lambda>s. None) faulted of
          Some (Ok _, stopped) \<Rightarrow>
            (case note_recycled (auto_resume (fst stopped)) of (resume, sends) \<Rightarrow>
               sends \<and>
               (case handle_command sim_env AutoResumeCheck ((fst stopped)\<lparr>auto_resume := resume\<rparr>, snd stopped) of
                  Some (Ok _, s) \<Rightarrow> rx_state (rx_sys_shared s) = Running
                | _ \<Rightarrow> False))
        | _ \<Rightarrow> False)
   | _ \<Rightarrow> False"
  by code_simp

section \<open>Instances\<close>

definition setup_env :: "(sim, nat) rx_setup_env" where
  "setup_env = rx_env.extend sim_env
     \<lparr> uring_new = (\<lambda>n w. (Ok (), w)), uring_fast_poll = (\<lambda>w. True),
       uring_register_eventfd = (\<lambda>fd w. (Ok (), w)), uring_unregister_eventfd = (\<lambda>w. (Ok (), w)),
       uring_register_buf_ring = (\<lambda>a n g f w. (Ok (), w)), uring_unregister_buf_ring = (\<lambda>g w. (Ok (), w)),
       libc_mem = example_libc, box_ptr = (\<lambda>i. 100 + 100 * i),
       spawn_thread = (\<lambda>n w. (Ok (), w)), join_thread = (\<lambda>w. w), channel_new = (\<lambda>w. (0, w)),
       command_send = (\<lambda>c w. (True, w\<lparr>sim_cmds := sim_cmds w @ [c]\<rparr>)),
       ack_recv = (\<lambda>a w. (map_of (sim_acks w) a, w)) \<rparr>"

definition idle_thread :: "nat RxDriverThread" where
  "idle_thread = (sim_thread False)\<lparr>running := False, read_active := False,
     rx_shared := shared_default\<lparr>packets := [from_ring 100 60 0 None]\<rparr>\<rparr>"



definition example_config :: UringDeviceConfig where
  "example_config = with_rx_buffer_count 2 (with_rx_buffer_len 50 default_config)"

definition example_driver_config :: RxDriverConfig where
  "example_driver_config = \<lparr> cfg_device = 5, cfg_ring_entries = 8, cfg_buffer_len = 50, cfg_buffer_count = 2,
     cfg_include_hdr = False, cfg_auto_resume = 1, cfg_thread_name = ''rx'' \<rparr>"

lemma setup_env_simps:
  "uring_new setup_env n w = (Ok (), w)" "uring_fast_poll setup_env w"
  "uring_register_eventfd setup_env fd w = (Ok (), w)" "new_eventfd setup_env w = (Ok 3, w)"
  "dup_fd setup_env fd w = (Ok (fd + 1), w)" "uring_register_buf_ring setup_env a m g f w = (Ok (), w)"
  "libc_mem setup_env = example_libc" "box_ptr setup_env = (\<lambda>i. 100 + 100 * i)"
  "spawn_thread setup_env name w = (Ok (), w)"
  by (simp_all add: setup_env_def rx_env.defs sim_env_def new_eventfd_def dup_fd_def)

lemma example_config_ok: "config_ok example_config"
  by (auto simp: config_ok_def example_config_def with_defs default_config_def default_defs intro!: exI [of _ "1::nat"])

end
