(* ===== verification/Rx_System.thy ===== *)
theory Rx_System
  imports Rx_Controller "HOL-Library.Multiset" "HOL-Library.Sublist"
begin

text \<open>
  RX as a whole: the kernel, the buffer ring, the driver thread, the ready queue and the
  application, joined the way \<^verbatim>\<open>src/src/core/rx.rs\<close> and \<^verbatim>\<open>src/src/core/packet.rs\<close> join them and
  interleaved in any order.

  An event is one action of one party.  The driver's and the application's events run the
  operations of the other theories (\<open>handle_cqe\<close>, \<open>handle_command\<close>, \<open>fail\<close>, \<open>shared_try_recv\<close>,
  \<open>shared_try_recv_many\<close>, \<open>poll_readable\<close>, \<open>drop_packet\<close>, \<open>detach\<close>, \<open>provided_buffer_recycle\<close>).  The
  kernel's events are what \<^verbatim>\<open>io_uring\<close> documents of a multishot read with provided buffers: it takes
  the next published buffer, writes one packet into it, and posts a completion with the length and
  the buffer's id; a completion that carries no packet has a negative result or another user data.
\<close>

section \<open>The system\<close>

text \<open>
  \<open>sys_app\<close> has a cell per packet the application has received, \<open>None\<close> once it has dropped it.
  The last three fields only observe: the buffers of completions the driver gave up, the packets
  the kernel has written, and the bytes of each packet when the application received it.
\<close>

record ('a, 'w) rx_system =
  sys_thread :: "'a RxDriverThread"
  sys_world :: 'w
  sys_commands :: "'a RxDriverCommand list"
  sys_head :: u16
  sys_memory :: "nat \<Rightarrow> u8"
  sys_cq :: "cqe list"
  sys_entries :: "cqe list"
  sys_app :: "u16 Packet option list"
  sys_lost :: "u16 list"
  sys_written :: "bytes list"
  sys_received :: "bytes list"

datatype 'a rx_event =
    KernelReads bytes u32
  | KernelCompletes cqe
  | Commands "'a RxDriverCommand"
  | DriverCommand
  | DriverCollects
  | DriverHandles
  | AppReceives
  | AppReceivesMany nat
  | AppWaits nat
  | AppDrops nat
  | AppDetaches nat

definition write_memory :: "nat \<Rightarrow> bytes \<Rightarrow> (nat \<Rightarrow> u8) \<Rightarrow> nat \<Rightarrow> u8" where
  "write_memory addr bs memory = (\<lambda>a. if addr \<le> a \<and> a < addr + length bs then bs ! (a - addr) else memory a)"

abbreviation sys_ring :: "('a, 'w) rx_system \<Rightarrow> ring_view" where
  "sys_ring s \<equiv> (rx_buffers (sys_thread s), sys_head s)"

abbreviation sys_queue :: "('a, 'w) rx_system \<Rightarrow> u16 Packet list" where
  "sys_queue s \<equiv> packets (rx_shared (sys_thread s))"

text \<open>The buffer and the length of a completion that carries a packet.\<close>

definition carried :: "('w, 'm) uring_env_scheme \<Rightarrow> cqe \<Rightarrow> (u16 \<times> nat) option" where
  "carried env entry =
     (if cqe_user_data entry = RX_READ_USER_DATA \<and> 0 \<le> cqe_result entry
      then map_option (\<lambda>bid. (bid, nat (cqe_result entry))) (buffer_select env (cqe_flags entry)) else None)"

definition kernel_reads :: "('w, 'm) uring_env_scheme \<Rightarrow> bytes \<Rightarrow> u32 \<Rightarrow> ('a, 'w) rx_system \<Rightarrow>
    ('a, 'w) rx_system option" where
  "kernel_reads env datagram flags s =
     (case kernel_take (sys_ring s) of
        (None, _) \<Rightarrow> None
      | (Some bid, _, head) \<Rightarrow>
          (let buf = ring_slot (sys_ring s) 0 in
           if buffer_select env flags = Some bid \<and> length datagram \<le> unat (buf_len buf) then
             Some (s\<lparr>sys_head := head,
               sys_memory := write_memory (unat (buf_addr buf)) datagram (sys_memory s),
               sys_cq := sys_cq s @ [\<lparr> cqe_user_data = RX_READ_USER_DATA, cqe_result = int (length datagram),
                                        cqe_flags = flags \<rparr>],
               sys_written := sys_written s @ [datagram]\<rparr>)
           else None))"

text \<open>
  The driver takes the next completion it has collected.  An error ends \<^verbatim>\<open>process_cqes\<close>, which drops
  the other collected completions, and \<^verbatim>\<open>run\<close> calls \<^verbatim>\<open>fail\<close>.
\<close>

definition driver_handles :: "('w, 'a, 'm) rx_env_scheme \<Rightarrow> ('a, 'w) rx_system \<Rightarrow> ('a, 'w) rx_system option" where
  "driver_handles env s =
     (case sys_entries s of
        [] \<Rightarrow> None
      | entry # rest \<Rightarrow>
          (case handle_cqe env entry (sys_thread s, sys_world s) of
             Some (Ok _, self, w) \<Rightarrow> Some (s\<lparr>sys_thread := self, sys_world := w, sys_entries := rest\<rparr>)
           | Some (Err e, self, w) \<Rightarrow>
               (let undelivered = (if packets (rx_shared self) = sys_queue s then entry # rest else rest);
                    (self, w) = fail env e (self, w)
                in Some (s\<lparr>sys_thread := self, sys_world := w, sys_entries := [],
                     sys_lost := sys_lost s @ map fst (List.map_filter (carried env) undelivered)\<rparr>))
           | _ \<Rightarrow> None))"

definition driver_command :: "('w, 'a, 'm) rx_env_scheme \<Rightarrow> ('a, 'w) rx_system \<Rightarrow> ('a, 'w) rx_system option" where
  "driver_command env s =
     (case sys_commands s of
        [] \<Rightarrow> None
      | command # rest \<Rightarrow>
          (case on_err (handle_command env command (sys_thread s, sys_world s)) (fail env) of
             Some (Ok _, self, w) \<Rightarrow> Some (s\<lparr>sys_thread := self, sys_world := w, sys_commands := rest\<rparr>)
           | _ \<Rightarrow> None))"

text \<open>Giving a buffer back, from whatever thread drops or detaches a packet.\<close>

definition sys_recycle :: "u16 \<Rightarrow> ('a, 'w) rx_system \<Rightarrow> ('a, 'w) rx_system" where
  "sys_recycle bid s =
     (case provided_buffer_recycle bid (rx_buffers (sys_thread s), auto_resume (sys_thread s)) of
        Ok (buffers, resume, sends) \<Rightarrow>
          s\<lparr>sys_thread := (sys_thread s)\<lparr>rx_buffers := buffers, auto_resume := resume\<rparr>,
            sys_commands := sys_commands s @ (if sends then [AutoResumeCheck] else [])\<rparr>
      | _ \<Rightarrow> s)"

definition app_takes :: "u16 Packet list \<Rightarrow> u16 RxSharedState \<Rightarrow> ('a, 'w) rx_system \<Rightarrow> ('a, 'w) rx_system" where
  "app_takes ps sh s =
     s\<lparr>sys_thread := (sys_thread s)\<lparr>rx_shared := sh\<rparr>, sys_app := sys_app s @ map Some ps,
       sys_received := sys_received s @ map (as_bytes (sys_memory s)) ps\<rparr>"

definition app_packet :: "nat \<Rightarrow> ('a, 'w) rx_system \<Rightarrow> u16 Packet option" where
  "app_packet i s = (if i < length (sys_app s) then sys_app s ! i else None)"

fun rx_step :: "('w, 'a, 'm) rx_env_scheme \<Rightarrow> 'a rx_event \<Rightarrow> ('a, 'w) rx_system \<Rightarrow> ('a, 'w) rx_system option" where
  "rx_step env (KernelReads datagram flags) s = kernel_reads env datagram flags s"
| "rx_step env (KernelCompletes entry) s =
     (if cqe_user_data entry = RX_READ_USER_DATA \<and> 0 \<le> cqe_result entry then None
      else Some (s\<lparr>sys_cq := sys_cq s @ [entry]\<rparr>))"
| "rx_step env (Commands command) s = Some (s\<lparr>sys_commands := sys_commands s @ [command]\<rparr>)"
| "rx_step env DriverCommand s = driver_command env s"
| "rx_step env DriverCollects s =
     (if sys_entries s = [] then Some (s\<lparr>sys_entries := sys_cq s, sys_cq := []\<rparr>) else None)"
| "rx_step env DriverHandles s = driver_handles env s"
| "rx_step env AppReceives s =
     (case shared_try_recv (rx_shared (sys_thread s)) of
        (Ok p, sh) \<Rightarrow> Some (app_takes [p] sh s) | (_, sh) \<Rightarrow> Some (app_takes [] sh s))"
| "rx_step env (AppReceivesMany n) s =
     (let (r, out, sh) = shared_try_recv_many (replicate n None) (rx_shared (sys_thread s))
      in Some (app_takes (List.map_filter id out) sh s))"
| "rx_step env (AppWaits cx) s = Some (app_takes [] (snd (poll_readable cx (rx_shared (sys_thread s)))) s)"
| "rx_step env (AppDrops i) s =
     (case app_packet i s of None \<Rightarrow> None
      | Some p \<Rightarrow> Some (drop_packet sys_recycle p (s\<lparr>sys_app := (sys_app s)[i := None]\<rparr>)))"
| "rx_step env (AppDetaches i) s =
     (case app_packet i s of None \<Rightarrow> None
      | Some p \<Rightarrow>
          (let (p, s) = detach sys_memory sys_recycle p s in Some (s\<lparr>sys_app := (sys_app s)[i := Some p]\<rparr>)))"

fun rx_run :: "('w, 'a, 'm) rx_env_scheme \<Rightarrow> 'a rx_event list \<Rightarrow> ('a, 'w) rx_system \<Rightarrow> ('a, 'w) rx_system option" where
  "rx_run env [] s = Some s"
| "rx_run env (ev # evs) s = Option.bind (rx_step env ev s) (rx_run env evs)"

text \<open>A driver over a freshly published ring, before the first packet.\<close>

definition rx_boot :: "'a RxDriverThread \<Rightarrow> 'w \<Rightarrow> (nat \<Rightarrow> u8) \<Rightarrow> ('a, 'w) rx_system" where
  "rx_boot self w memory =
     \<lparr> sys_thread = self, sys_world = w, sys_commands = [], sys_head = 0, sys_memory = memory, sys_cq = [],
       sys_entries = [], sys_app = [], sys_lost = [], sys_written = [], sys_received = [] \<rparr>"


text \<open>
  The loop over the collected completions, with \<^verbatim>\<open>fail\<close> on its error, is a sequence of these events: what
  is shown for single completions holds for \<^verbatim>\<open>process_cqes\<close>.
\<close>

lemma process_entries_is_events:
  assumes "on_err (process_entries env (sys_entries s) (sys_thread s, sys_world s)) (fail env) = Some (Ok (), self, w)"
  shows "\<exists>n s'. rx_run env (replicate n DriverHandles) s = Some s' \<and> sys_thread s' = self \<and> sys_world s' = w \<and> sys_entries s' = []"
  using assms
proof (induction "sys_entries s" arbitrary: s)
  case Nil
  then show ?case by (intro exI [of _ 0] exI [of _ s]) simp
next
  case (Cons entry rest)
  have run: "on_err (andthen (handle_cqe env entry (sys_thread s, sys_world s)) (\<lambda>_. process_entries env rest)) (fail env) =
      Some (Ok (), self, w)"
    using Cons.prems by (simp flip: Cons.hyps(2))
  then consider x self1 w1 where "handle_cqe env entry (sys_thread s, sys_world s) = Some (Ok x, self1, w1)"
        "on_err (process_entries env rest (self1, w1)) (fail env) = Some (Ok (), self, w)"
    | e self1 w1 where "handle_cqe env entry (sys_thread s, sys_world s) = Some (Err e, self1, w1)"
        "fail env e (self1, w1) = (self, w)"
    by (auto simp: on_err_Some_iff andthen_Ok_iff andthen_Err_iff)
  then show ?case
  proof cases
    case 1
    let ?s = "s\<lparr>sys_thread := self1, sys_world := w1, sys_entries := rest\<rparr>"
    obtain n s' where "rx_run env (replicate n DriverHandles) ?s = Some s'" "sys_thread s' = self" "sys_world s' = w" "sys_entries s' = []"
      using Cons.hyps(1) [of ?s] 1(2) by auto
    moreover have "rx_step env DriverHandles s = Some ?s" using 1(1) Cons.hyps(2) [symmetric] by (simp add: driver_handles_def)
    ultimately show ?thesis by (intro exI [of _ "Suc n"] exI [of _ s']) simp
  next
    case 2
    then have "\<exists>s'. rx_step env DriverHandles s = Some s' \<and> sys_thread s' = self \<and> sys_world s' = w \<and> sys_entries s' = []"
      using Cons.hyps(2) [symmetric] by (simp add: driver_handles_def)
    then show ?thesis by (metis bind.bind_lunit replicate_Suc replicate_0 rx_run.simps)
  qed
qed

section \<open>What the driver does to ring and queue\<close>

definition ring_and_queue :: "'a RxDriverThread \<Rightarrow> ProvidedBuffers \<times> u16 Packet list" where
  "ring_and_queue self = (rx_buffers self, packets (rx_shared self))"

lemma ring_and_queue_update [simp]:
  "ring_and_queue (self\<lparr>running := b\<rparr>) = ring_and_queue self"
  "ring_and_queue (self\<lparr>read_active := b\<rparr>) = ring_and_queue self"
  "ring_and_queue (self\<lparr>auto_resume := resume\<rparr>) = ring_and_queue self"
  "ring_and_queue (self\<lparr>stop_ack := ack\<rparr>) = ring_and_queue self"
  "ring_and_queue (self\<lparr>shutdown_requested := b\<rparr>) = ring_and_queue self"
  "ring_and_queue (self\<lparr>rx_shared := sh\<rparr>) = (rx_buffers self, packets sh)"
  by (simp_all add: ring_and_queue_def)

lemma submit_keeps_queue:
  "submit_multishot_read env s = Some (r, s') \<Longrightarrow> ring_and_queue (fst s') = ring_and_queue (fst s)"
  "submit_cancel env s = Some (r, s') \<Longrightarrow> ring_and_queue (fst s') = ring_and_queue (fst s)"
  by (cases s; auto simp: submit_multishot_read_def submit_cancel_def andthen_Some_iff on_world_Some_iff)+

lemma update_shared_queue:
  "ring_and_queue (fst (update_shared env f s)) = (rx_buffers (fst s), packets (fst (f (rx_shared (fst s)))))"
  by (cases s) (simp add: update_shared_def split_beta)

lemma driver_keeps_queue [simp]:
  "ring_and_queue (fst (fail env e s)) = ring_and_queue (fst s)"
  "ring_and_queue (fst (finish_stop env s)) = ring_and_queue (fst s)"
  "ring_and_queue (fst (enter_enobufs_fault env s)) = ring_and_queue (fst s)"
  "ring_and_queue (fst (update_shared env (\<lambda>sh. (set_running sh, [])) s)) = ring_and_queue (fst s)"
  by (cases s; simp add: fail_def finish_stop_def enter_enobufs_fault_def update_shared_def ring_and_queue_def
      Let_def split_beta split: option.split)+

lemma start_rx_queue: "start_rx env s = Some (r, s') \<Longrightarrow> ring_and_queue (fst s') = ring_and_queue (fst s)"
  by (cases s) (auto simp: start_rx_def Let_def split: if_splits Option.bind_splits res.splits dest!: submit_keeps_queue(1)
      simp flip: ring_and_queue_def)

lemma try_auto_resume_queue:
  "try_auto_resume env s = Some (r, s') \<Longrightarrow> ring_and_queue (fst s') = ring_and_queue (fst s)"
  by (cases s) (auto simp: try_auto_resume_def Let_def andthen_Some_iff split: if_splits dest!: submit_keeps_queue(1)
      simp flip: ring_and_queue_def)

lemma handle_command_queue:
  "handle_command env command s = Some (r, s') \<Longrightarrow> ring_and_queue (fst s') = ring_and_queue (fst s)"
  by (cases command; cases s)
     (auto simp: begin_stop_def Let_def on_err_Some_iff split: if_splits Option.bind_splits res.splits
       dest!: start_rx_queue try_auto_resume_queue submit_keeps_queue(2))

text \<open>A completion puts the packet it carries at the end of the queue, or it is an error and the queue stays.\<close>

lemma deliver_packet_queue:
  assumes "deliver_packet env entry s = Some (r, s')" "buffer_select env (cqe_flags entry) = Some bid"
    and "unat bid < length (buffer_ptrs (rx_buffers (fst s)))"
  shows "\<exists>ps. ring_and_queue (fst s') = (rx_buffers (fst s), packets (rx_shared (fst s)) @ ps) \<and>
    (ps = [] \<and> (\<exists>e. r = Err e) \<or> ps = [packet_of env (fst s) entry] \<and> r = Ok ())"
  using assms
  by (cases s) (auto simp: deliver_packet_def Let_def packet_ptr_def idx_Ok update_shared_queue packet_of_def ring_and_queue_def
      split: if_splits)

lemma read_tail_queue:
  assumes "(if cqe_more env (cqe_flags entry) then Some (Ok (), self, w)
      else if running (self\<lparr>read_active := False\<rparr>)
        then submit_multishot_read env (self\<lparr>read_active := False\<rparr>, w)
        else Some (Ok (), finish_stop env (self\<lparr>read_active := False\<rparr>, w))) = Some (r, s')"
  shows "ring_and_queue (fst s') = ring_and_queue self"
  using assms by (auto split: if_splits dest!: submit_keeps_queue(1) arg_cong [where f = "\<lambda>s. ring_and_queue (fst s)"])

lemma handle_cqe_queue:
  fixes entry :: cqe
  assumes run: "handle_cqe env entry (self, w) = Some (r, self', w')"
    and bid: "\<And>bid len. carried env entry = Some (bid, len) \<Longrightarrow> unat bid < length (buffer_ptrs (rx_buffers self))"
    and selected: "carried env entry = None \<Longrightarrow> \<not> (cqe_user_data entry = RX_READ_USER_DATA \<and> 0 \<le> cqe_result entry)"
  shows "\<exists>ps. ring_and_queue self' = (rx_buffers self, packets (rx_shared self) @ ps) \<and>
    (case carried env entry of None \<Rightarrow> ps = [] | Some _ \<Rightarrow> ps = [packet_of env self entry] \<or> ps = [] \<and> r \<noteq> Ok ())"
proof -
  have same: "(\<exists>ps. (rx_buffers self, packets (rx_shared self)) = (rx_buffers self, packets (rx_shared self) @ ps) \<and> P ps) \<longleftrightarrow> P []"
    for P :: "u16 Packet list \<Rightarrow> bool" by auto
  show ?thesis
  proof (cases "carried env entry")
    case None
    with selected have "\<not> (cqe_user_data entry = RX_READ_USER_DATA \<and> 0 \<le> cqe_result entry)" .
    then have "ring_and_queue self' = ring_and_queue self"
      using run read_tail_queue [where env = env and entry = entry]
      by (auto simp: handle_cqe_def handle_cancel_cqe_def handle_read_cqe_def Let_def andthen_Some_iff split: if_splits
          dest!: arg_cong [where f = "\<lambda>s. ring_and_queue (fst s)"])
    then show ?thesis using None by (simp add: ring_and_queue_def)
  next
    case (Some c)
    obtain b len where c: "c = (b, len)" by (cases c)
    have rd: "cqe_user_data entry = RX_READ_USER_DATA" "0 \<le> cqe_result entry" "buffer_select env (cqe_flags entry) = Some b"
      using Some c by (auto simp: carried_def split: if_splits)
    note d = deliver_packet_queue [where env = env and entry = entry and s = "(self, w)", OF _ rd(3), simplified,
        OF _ bid [OF Some [unfolded c]]]
    from run rd consider
        x s1 where "deliver_packet env entry (self, w) = Some (Ok x, s1)"
          "(case s1 of (self, w) \<Rightarrow> if cqe_more env (cqe_flags entry) then Some (Ok (), self, w)
            else if running (self\<lparr>read_active := False\<rparr>)
              then submit_multishot_read env (self\<lparr>read_active := False\<rparr>, w)
              else Some (Ok (), finish_stop env (self\<lparr>read_active := False\<rparr>, w))) = Some (r, self', w')"
      | e where "r = Err e" "deliver_packet env entry (self, w) = Some (Err e, self', w')"
      | "r = Panic" "deliver_packet env entry (self, w) = Some (Panic, self', w')"
      unfolding handle_cqe_def handle_read_cqe_def Let_def by (auto simp: andthen_Some_iff)
    then show ?thesis
    proof cases
      case 1
      obtain self1 w1 where s1: "s1 = (self1, w1)" by (cases s1)
      have "ring_and_queue self' = ring_and_queue self1"
        using read_tail_queue [where env = env and entry = entry and self = self1 and w = w1] 1(2) s1 by fastforce
      then show ?thesis using d [OF 1(1)] Some s1 by auto
    qed (use d Some in fastforce)+
  qed
qed


section \<open>Who owns a buffer\<close>

definition handles :: "u16 Packet list \<Rightarrow> u16 list" where
  "handles ps = List.map_filter packet_recycle ps"

text \<open>The packets that are alive, and the completions that carry a packet and are not handled yet.\<close>

definition live_packets :: "('a, 'w) rx_system \<Rightarrow> u16 Packet list" where
  "live_packets s = sys_queue s @ List.map_filter id (sys_app s)"

definition on_the_way :: "('w, 'm) uring_env_scheme \<Rightarrow> ('a, 'w) rx_system \<Rightarrow> (u16 \<times> nat) list" where
  "on_the_way env s = List.map_filter (carried env) (sys_entries s @ sys_cq s)"

text \<open>
  The buffers by their owner: published to the kernel, in a completion, behind a packet that is
  queued or held by the application, given up.
\<close>

definition owners :: "('w, 'm) uring_env_scheme \<Rightarrow> ('a, 'w) rx_system \<Rightarrow> u16 list" where
  "owners env s = available (sys_ring s) @ map fst (on_the_way env s) @ handles (live_packets s) @ sys_lost s"

text \<open>A live packet reads its own buffer, or bytes of its own.\<close>

definition backed :: "usize list \<Rightarrow> usize \<Rightarrow> u16 Packet \<Rightarrow> bool" where
  "backed ptrs blen p \<longleftrightarrow>
     (case packet_recycle p of
        Some bid \<Rightarrow> \<exists>len \<le> blen. packet_bytes p = Borrowed (ptrs ! unat bid) len
      | None \<Rightarrow> \<exists>bs. packet_bytes p = Owned bs)"

text \<open>What allocation gives: the buffers lie in the address space and do not overlap.\<close>

definition buffers_apart :: "usize list \<Rightarrow> usize \<Rightarrow> bool" where
  "buffers_apart ptrs blen \<longleftrightarrow>
     blen < 2 ^ 32 \<and> (\<forall>i < length ptrs. ptrs ! i + blen < 2 ^ 64) \<and>
     (\<forall>i < length ptrs. \<forall>j < length ptrs. i \<noteq> j \<longrightarrow> ptrs ! i + blen \<le> ptrs ! j \<or> ptrs ! j + blen \<le> ptrs ! i)"

definition own_inv :: "('w, 'm) uring_env_scheme \<Rightarrow> usize list \<Rightarrow> usize \<Rightarrow> ('a, 'w) rx_system \<Rightarrow> bool" where
  "own_inv env ptrs blen s \<longleftrightarrow>
     ring_inv (sys_ring s) \<and> buffer_ptrs (rx_buffers (sys_thread s)) = ptrs \<and>
     pb_buffer_len (rx_buffers (sys_thread s)) = blen \<and>
     mset (owners env s) = mset (ring_slots (sys_ring s)) \<and>
     (\<forall>entry \<in> set (sys_entries s @ sys_cq s).
        cqe_user_data entry = RX_READ_USER_DATA \<and> 0 \<le> cqe_result entry \<longrightarrow>
        (\<exists>bid len. carried env entry = Some (bid, len) \<and> len \<le> blen)) \<and>
     (\<forall>p \<in> set (live_packets s). backed ptrs blen p)"

lemma handles_app [simp]: "handles (ps @ qs) = handles ps @ handles qs" "handles [] = []"
  by (simp_all add: handles_def map_filter_simps)

lemma mset_map_filter_update:
  assumes "i < length xs" "xs ! i = Some p"
  shows "mset (List.map_filter id xs) =
      add_mset p (mset (List.map_filter id (xs[i := None])))"
    and "mset (List.map_filter id (xs[i := Some q])) = add_mset q (mset (List.map_filter id (xs[i := None])))"
  by (simp_all add: map_filter_split [OF assms(1)] assms(2))

lemma mset_handles: "mset (handles ps) = {# the (packet_recycle p). p \<in># filter_mset (\<lambda>p. packet_recycle p \<noteq> None) (mset ps) #}"
  by (induction ps) (simp_all add: handles_def map_filter_simps split: option.split)

lemma mset_handles_cong: "mset ps = mset qs \<Longrightarrow> mset (handles ps) = mset (handles qs)"
  by (simp add: mset_handles)

lemma ring_slots_distinct: "ring_inv v \<Longrightarrow> distinct (ring_slots v)"
  using ring_inv_facts(2) [of v]
  by (auto simp: ring_slots_def distinct_map inj_on_def dest!: arg_cong [where f = unat] simp: unat_of_nat_u16)

lemma own_inv_facts:
  assumes "own_inv env ptrs blen s"
  shows "distinct (owners env s)" "bid \<in> set (owners env s) \<Longrightarrow> unat bid < length ptrs"
proof -
  have inv: "ring_inv (sys_ring s)" "mset (owners env s) = mset (ring_slots (sys_ring s))"
    using assms by (simp_all add: own_inv_def)
  then show "distinct (owners env s)" using ring_slots_distinct mset_eq_imp_distinct_iff by blast
  have "length ptrs = unat (pb_entry_count (rx_buffers (sys_thread s)))" "unat (pb_entry_count (rx_buffers (sys_thread s))) \<le> 32768"
    using ring_inv_facts(2,4) [OF inv(1)] assms by (auto simp: own_inv_def)
  moreover assume "bid \<in> set (owners env s)"
  then have "bid \<in> set (ring_slots (sys_ring s))" using mset_eq_setD [OF inv(2)] by simp
  ultimately show "unat bid < length ptrs" by (auto simp: ring_slots_def unat_of_nat_u16)
qed


lemma own_inv_frame:
  assumes "ring_and_queue (sys_thread s') = ring_and_queue (sys_thread s)" "sys_head s' = sys_head s"
    and "sys_entries s' @ sys_cq s' = sys_entries s @ sys_cq s" "sys_app s' = sys_app s" "sys_lost s' = sys_lost s"
  shows "own_inv env ptrs blen s' = own_inv env ptrs blen s"
proof -
  have "on_the_way env s' = on_the_way env s" unfolding on_the_way_def by (simp only: assms)
  moreover have "rx_buffers (sys_thread s') = rx_buffers (sys_thread s)" "sys_queue s' = sys_queue s"
    using assms(1) by (simp_all add: ring_and_queue_def)
  ultimately show ?thesis
    unfolding own_inv_def owners_def live_packets_def by (simp only: assms)
qed

lemma kernel_reads_own:
  assumes inv: "own_inv env ptrs blen s" and step: "kernel_reads env datagram flags s = Some s'"
  shows "\<exists>bid. own_inv env ptrs blen s' \<and> sys_memory s' = write_memory (unat (of_nat (ptrs ! unat bid) :: u64)) datagram (sys_memory s) \<and>
    bid \<in> set (available (sys_ring s)) \<and> length datagram \<le> blen mod 2 ^ 32 \<and>
    on_the_way env s' = on_the_way env s @ [(bid, length datagram)] \<and> sys_written s' = sys_written s @ [datagram] \<and>
    live_packets s' = live_packets s \<and> sys_queue s' = sys_queue s \<and> sys_app s' = sys_app s \<and> sys_lost s' = sys_lost s \<and>
    sys_received s' = sys_received s \<and> sys_thread s' = sys_thread s"
proof -
  have ring: "ring_inv (sys_ring s)" using inv by (simp add: own_inv_def)
  have ne: "published_tail (fst (sys_ring s)) \<noteq> snd (sys_ring s)"
    using step by (auto simp: kernel_reads_def kernel_take_def split: if_splits)
  obtain bid where take: "kernel_take (sys_ring s) = (Some bid, rx_buffers (sys_thread s), sys_head s + 1)"
    and av: "available (sys_ring s) = bid # available (rx_buffers (sys_thread s), sys_head s + 1)"
    and ring': "ring_inv (rx_buffers (sys_thread s), sys_head s + 1)"
    using take_step [OF ring ne] by auto
  have "0 < ring_level (sys_ring s)" using av length_available [of "sys_ring s"] by (metis length_greater_0_conv list.distinct(1))
  moreover from this have "bid = buf_bid (ring_slot (sys_ring s) 0)" using av by (simp add: available_def upt_conv_Cons)
  ultimately have buf: "buf_addr (ring_slot (sys_ring s) 0) = of_nat (ptrs ! unat bid)" "buf_len (ring_slot (sys_ring s) 0) = of_nat blen"
    using inv by (auto simp: own_inv_def ring_inv_def Let_def)
  define entry where "entry = \<lparr> cqe_user_data = RX_READ_USER_DATA, cqe_result = int (length datagram), cqe_flags = flags \<rparr>"
  have sel: "buffer_select env flags = Some bid" "length datagram \<le> unat (of_nat blen :: u32)"
    and s': "s' = s\<lparr>sys_head := sys_head s + 1, sys_memory := write_memory (unat (of_nat (ptrs ! unat bid) :: u64)) datagram (sys_memory s),
      sys_cq := sys_cq s @ [entry], sys_written := sys_written s @ [datagram]\<rparr>"
    using step take buf by (auto simp: kernel_reads_def Let_def entry_def split: if_splits)
  have c: "carried env entry = Some (bid, length datagram)" using sel by (simp add: carried_def entry_def)
  have len: "length datagram \<le> blen mod 2 ^ 32" using sel(2) by (simp add: unat_of_nat)
  then have "length datagram \<le> blen" by (rule order_trans) (rule mod_less_eq_dividend)
  then have "own_inv env ptrs blen s'"
    using inv c ring' av by (auto simp: s' own_inv_def owners_def on_the_way_def live_packets_def map_filter_simps ring_slots_def)
  moreover have "on_the_way env s' = on_the_way env s @ [(bid, length datagram)]"
    using c by (simp add: s' on_the_way_def map_filter_simps)
  ultimately show ?thesis using len av by (auto simp: s' live_packets_def)
qed

lemma sys_recycle_spec:
  assumes "ring_inv (sys_ring s)" "ring_room bid (sys_ring s)"
  shows "\<exists>buffers resume sends.
    provided_buffer_recycle bid (rx_buffers (sys_thread s), auto_resume (sys_thread s)) = Ok (buffers, resume, sends) \<and>
    available (buffers, sys_head s) = available (sys_ring s) @ [bid] \<and> ring_inv (buffers, sys_head s) \<and>
    ring_slots (buffers, sys_head s) = ring_slots (sys_ring s) \<and> buffer_ptrs buffers = buffer_ptrs (rx_buffers (sys_thread s)) \<and>
    pb_buffer_len buffers = pb_buffer_len (rx_buffers (sys_thread s))"
proof -
  obtain buffers where "recycle bid (rx_buffers (sys_thread s)) = Ok buffers" "ring_inv (buffers, sys_head s)"
    "available (buffers, sys_head s) = available (sys_ring s) @ [bid]"
    "pb_entry_count buffers = pb_entry_count (rx_buffers (sys_thread s))"
    "buffer_ptrs buffers = buffer_ptrs (rx_buffers (sys_thread s))"
    "pb_buffer_len buffers = pb_buffer_len (rx_buffers (sys_thread s))"
    using recycle_step [OF assms] by auto
  then show ?thesis by (auto simp: provided_buffer_recycle_def ring_slots_def split_beta)
qed

lemma handle_has_room:
  assumes inv: "own_inv env ptrs blen s" and bid: "bid \<in> set (handles (live_packets s))"
  shows "ring_room bid (sys_ring s)"
proof -
  have "length (owners env s) = length (ring_slots (sys_ring s))" "set (owners env s) = set (ring_slots (sys_ring s))"
    using inv mset_eq_length mset_eq_setD unfolding own_inv_def by blast+
  moreover from bid obtain n where "length (handles (live_packets s)) = Suc n" by (cases "handles (live_packets s)") auto
  ultimately have "length (available (sys_ring s)) < length (ring_slots (sys_ring s))" "bid \<in> set (ring_slots (sys_ring s))"
    using bid by (auto simp: owners_def)
  moreover have "ring_inv (sys_ring s)" using inv by (simp add: own_inv_def)
  ultimately show ?thesis by (intro buffer_ring.room_below)
qed

lemma app_packet_live: "app_packet i s = Some p \<Longrightarrow> p \<in> set (live_packets s)"
  by (auto simp: app_packet_def live_packets_def set_map_filter split: if_splits) (metis nth_mem)

text \<open>The buffer of a packet the application gives up goes back to the ring.\<close>

lemma give_back_own:
  assumes inv: "own_inv env ptrs blen s" and p: "app_packet i s = Some p"
    and q: "case q of None \<Rightarrow> True | Some q \<Rightarrow> packet_recycle q = None \<and> (\<exists>bs. packet_bytes q = Owned bs)"
  shows "own_inv env ptrs blen ((case packet_recycle p of Some bid \<Rightarrow> sys_recycle bid s | None \<Rightarrow> s)\<lparr>sys_app := (sys_app s)[i := q]\<rparr>)"
proof -
  have i: "i < length (sys_app s)" "sys_app s ! i = Some p" using p by (auto simp: app_packet_def split: if_splits)
  have live: "p \<in> set (live_packets s)" using p by (rule app_packet_live)
  let ?app = "(sys_app s)[i := q]" and ?rest = "(sys_app s)[i := None]"
  have "mset (List.map_filter id ?app) = mset (case q of None \<Rightarrow> [] | Some q \<Rightarrow> [q]) + mset (List.map_filter id ?rest)"
    using mset_map_filter_update(2) [OF i] by (cases q) auto
  then have app: "mset (handles (List.map_filter id ?app)) = mset (handles (List.map_filter id ?rest))"
    using q by (cases q) (auto simp: mset_handles)
  have old: "mset (handles (List.map_filter id (sys_app s))) =
      mset (case packet_recycle p of None \<Rightarrow> [] | Some bid \<Rightarrow> [bid]) + mset (handles (List.map_filter id ?rest))"
    using mset_map_filter_update(1) [OF i] by (auto simp: mset_handles split: option.split)
  have "set (List.map_filter id ?app) \<subseteq> set (case q of None \<Rightarrow> [] | Some q \<Rightarrow> [q]) \<union> set (List.map_filter id (sys_app s))"
    using set_update_subset_insert [of "sys_app s" i q] by (auto simp: set_map_filter split: option.splits)
  moreover have "\<forall>p \<in> set (case q of None \<Rightarrow> [] | Some q \<Rightarrow> [q]). backed ptrs blen p"
    using q by (auto simp: backed_def split: option.splits)
  moreover have "\<forall>p \<in> set (sys_queue s) \<union> set (List.map_filter id (sys_app s)). backed ptrs blen p"
    using inv by (simp add: own_inv_def live_packets_def)
  ultimately have wf: "\<forall>p \<in> set (sys_queue s) \<union> set (List.map_filter id ?app). backed ptrs blen p" by blast
  show ?thesis
  proof (cases "packet_recycle p")
    case None
    then show ?thesis
      using inv app old wf by (auto simp: own_inv_def owners_def live_packets_def on_the_way_def)
  next
    case (Some bid)
    have ring: "ring_inv (sys_ring s)" using inv by (simp add: own_inv_def)
    have "bid \<in> set (handles (live_packets s))" using live Some by (auto simp: handles_def set_map_filter)
    from sys_recycle_spec [OF ring handle_has_room [OF inv this]]
    show ?thesis
      using inv app old wf Some by (auto simp: own_inv_def owners_def live_packets_def on_the_way_def sys_recycle_def)
  qed
qed

text \<open>A packet over the buffer and the length of a completion.\<close>

definition reads_buffer :: "usize list \<Rightarrow> u16 Packet \<Rightarrow> u16 \<times> nat \<Rightarrow> bool" where
  "reads_buffer ptrs p c \<longleftrightarrow> packet_recycle p = Some (fst c) \<and> packet_bytes p = Borrowed (ptrs ! unat (fst c)) (snd c)"

lemma reads_buffers:
  assumes "list_all2 (reads_buffer ptrs) ps given"
  shows "handles ps = map fst given"
    and "map (as_bytes memory) ps = map (\<lambda>(bid, len). map memory [ptrs ! unat bid ..< ptrs ! unat bid + len]) given"
    and "\<forall>c \<in> set given. snd c \<le> blen \<Longrightarrow> \<forall>p \<in> set ps. backed ptrs blen p"
  using assms
  by (induction rule: list_all2_induct) (auto simp: reads_buffer_def handles_def map_filter_simps as_bytes_def backed_def)

lemma on_the_way_Cons:
  "sys_entries s = entry # rest \<Longrightarrow>
   on_the_way env s = (case carried env entry of None \<Rightarrow> [] | Some c \<Rightarrow> [c]) @ List.map_filter (carried env) (rest @ sys_cq s)"
  by (simp add: on_the_way_def map_filter_simps split: option.split)

lemma live_backed: "own_inv env ptrs blen s \<Longrightarrow> p \<in> set (live_packets s) \<Longrightarrow> backed ptrs blen p"
  by (simp add: own_inv_def)

lemma on_the_way_len:
  assumes "own_inv env ptrs blen s" "c \<in> set (on_the_way env s)"
  shows "snd c \<le> blen"
proof -
  obtain entry where "entry \<in> set (sys_entries s @ sys_cq s)" "carried env entry = Some c"
    using assms(2) by (auto simp: on_the_way_def set_map_filter)
  moreover from this(2) have "cqe_user_data entry = RX_READ_USER_DATA \<and> 0 \<le> cqe_result entry"
    by (auto simp: carried_def split: if_splits)
  ultimately show ?thesis using assms(1) unfolding own_inv_def by fastforce
qed

text \<open>
  What \<open>driver_handles\<close> does with the first completions on the way: the packets of some are queued, others
  are given up, and the rest stays.
\<close>

lemma driver_handles_splits:
  assumes inv: "own_inv env ptrs blen s" and step: "driver_handles env s = Some s'"
  shows "\<exists>ps given dropped. on_the_way env s = given @ dropped @ on_the_way env s' \<and> sys_queue s' = sys_queue s @ ps \<and>
    list_all2 (reads_buffer ptrs) ps given \<and> set (sys_entries s') \<subseteq> set (sys_entries s) \<and>
    s' = s\<lparr>sys_thread := sys_thread s', sys_world := sys_world s', sys_entries := sys_entries s', sys_lost := sys_lost s @ map fst dropped\<rparr> \<and>
    rx_buffers (sys_thread s') = rx_buffers (sys_thread s)"
proof -
  obtain entry rest where e: "sys_entries s = entry # rest"
    using step by (auto simp: driver_handles_def split: list.splits)
  obtain r self w where h: "handle_cqe env entry (sys_thread s, sys_world s) = Some (r, self, w)"
    using step e by (auto simp: driver_handles_def split: option.splits)
  note way = on_the_way_Cons [OF e, of env]
  have ptrs: "buffer_ptrs (rx_buffers (sys_thread s)) = ptrs" using inv by (simp add: own_inv_def)
  have bid: "unat bid < length (buffer_ptrs (rx_buffers (sys_thread s)))" if "carried env entry = Some (bid, len)" for bid len
    using own_inv_facts(2) [OF inv, of bid] that way ptrs by (simp add: owners_def)
  have selected: "\<not> (cqe_user_data entry = RX_READ_USER_DATA \<and> 0 \<le> cqe_result entry)" if "carried env entry = None"
    using inv that unfolding own_inv_def e by auto
  obtain ps where q: "ring_and_queue self = (rx_buffers (sys_thread s), sys_queue s @ ps)"
    and ps: "case carried env entry of None \<Rightarrow> ps = [] | Some _ \<Rightarrow> ps = [packet_of env (sys_thread s) entry] \<or> ps = [] \<and> r \<noteq> Ok ()"
    using handle_cqe_queue [OF h] bid selected by blast
  define given where "given = (if ps = [] then [] else case carried env entry of None \<Rightarrow> [] | Some c \<Rightarrow> [c])"
  have given: "list_all2 (reads_buffer ptrs) ps given"
    using ps ptrs by (auto simp: given_def reads_buffer_def packet_of_def carried_def Let_def packet_new_defs split: option.splits if_splits)
  have r: "r = Ok () \<or> (\<exists>e. r = Err e)"
    using step e h by (cases r) (auto simp: driver_handles_def)
  then show ?thesis
  proof
    assume "r = Ok ()"
    then have "s' = s\<lparr>sys_thread := self, sys_world := w, sys_entries := rest\<rparr>"
      using step e h by (simp add: driver_handles_def)
    moreover have "on_the_way env s = given @ [] @ List.map_filter (carried env) (rest @ sys_cq s)"
      using way ps \<open>r = Ok ()\<close> by (auto simp: given_def split: option.splits)
    ultimately show ?thesis
      using q given e by (intro exI [of _ ps] exI [of _ given] exI [of _ "[]"])
        (auto simp: on_the_way_def ring_and_queue_def)
  next
    assume "\<exists>e. r = Err e"
    then obtain err where err: "r = Err err" by blast
    obtain self1 w1 where f: "fail env err (self, w) = (self1, w1)" by (cases "fail env err (self, w)")
    have q1: "ring_and_queue self1 = (rx_buffers (sys_thread s), sys_queue s @ ps)"
      using driver_keeps_queue(1) [of env err "(self, w)"] f q by simp
    define dropped where "dropped = List.map_filter (carried env) (if ps = [] then entry # rest else rest)"
    have "s' = s\<lparr>sys_thread := self1, sys_world := w1, sys_entries := [], sys_lost := sys_lost s @ map fst dropped\<rparr>"
      using step e h err f q by (auto simp: driver_handles_def dropped_def ring_and_queue_def)
    moreover have "on_the_way env s = given @ dropped @ List.map_filter (carried env) (sys_cq s)"
      using way ps by (auto simp: given_def dropped_def map_filter_simps split: option.splits)
    ultimately show ?thesis
      using q1 given by (intro exI [of _ ps] exI [of _ given] exI [of _ dropped])
        (auto simp: on_the_way_def ring_and_queue_def map_filter_simps)
  qed
qed

lemma driver_handles_own:
  assumes inv: "own_inv env ptrs blen s" and step: "driver_handles env s = Some s'"
  shows "own_inv env ptrs blen s'"
proof -
  obtain ps given dropped where way: "on_the_way env s = given @ dropped @ on_the_way env s'" and q: "sys_queue s' = sys_queue s @ ps"
    and given: "list_all2 (reads_buffer ptrs) ps given" and es: "set (sys_entries s') \<subseteq> set (sys_entries s)"
    and s': "s' = s\<lparr>sys_thread := sys_thread s', sys_world := sys_world s', sys_entries := sys_entries s', sys_lost := sys_lost s @ map fst dropped\<rparr>"
    and buffers: "rx_buffers (sys_thread s') = rx_buffers (sys_thread s)"
    using driver_handles_splits [OF assms] by blast
  have fields: "sys_head s' = sys_head s" "sys_app s' = sys_app s" "sys_cq s' = sys_cq s" "sys_lost s' = sys_lost s @ map fst dropped"
    by (subst s', simp)+
  have "snd c \<le> blen" if "c \<in> set given" for c
    using on_the_way_len [OF inv, of c] that way by simp
  then have "\<forall>p \<in> set ps. backed ptrs blen p" by (intro reads_buffers(3) [OF given]) blast
  moreover have "mset (owners env s') = mset (owners env s)"
    using way fields by (simp add: owners_def live_packets_def q buffers reads_buffers(1) [OF given])
  ultimately show ?thesis
    using inv es fields buffers q unfolding own_inv_def by (auto simp: live_packets_def)
qed

lemma app_takes_own:
  assumes "own_inv env ptrs blen s" "sys_queue s = ps @ packets sh"
  shows "own_inv env ptrs blen (app_takes ps sh s)"
proof -
  let ?s = "app_takes ps sh s"
  have "mset (live_packets ?s) = mset (live_packets s)"
    by (simp add: live_packets_def app_takes_def assms(2))
  moreover from this have "set (live_packets ?s) = set (live_packets s)" by (rule mset_eq_setD)
  moreover have "on_the_way env ?s = on_the_way env s" by (simp add: on_the_way_def app_takes_def)
  moreover have "sys_ring ?s = sys_ring s" "sys_lost ?s = sys_lost s" "sys_entries ?s = sys_entries s" "sys_cq ?s = sys_cq s"
    by (simp_all add: app_takes_def)
  ultimately show ?thesis
    using assms(1) mset_handles_cong [of "live_packets ?s" "live_packets s"]
    unfolding own_inv_def owners_def by (simp add: app_takes_def)
qed

section \<open>What the application reads\<close>

definition buffer_bytes :: "usize list \<Rightarrow> (nat \<Rightarrow> u8) \<Rightarrow> u16 \<times> nat \<Rightarrow> bytes" where
  "buffer_bytes ptrs memory c = map memory [ptrs ! unat (fst c) ..< ptrs ! unat (fst c) + snd c]"

text \<open>What was received, what is queued and what is on the way, as bytes.\<close>

definition passed_on :: "('w, 'm) uring_env_scheme \<Rightarrow> usize list \<Rightarrow> ('a, 'w) rx_system \<Rightarrow> bytes list" where
  "passed_on env ptrs s =
     sys_received s @ map (as_bytes (sys_memory s)) (sys_queue s) @ map (buffer_bytes ptrs (sys_memory s)) (on_the_way env s)"

definition data_inv :: "('w, 'm) uring_env_scheme \<Rightarrow> usize list \<Rightarrow> ('a, 'w) rx_system \<Rightarrow> bool" where
  "data_inv env ptrs s \<longleftrightarrow>
     length (sys_app s) = length (sys_received s) \<and>
     (\<forall>i p. app_packet i s = Some p \<longrightarrow> as_bytes (sys_memory s) p = sys_received s ! i) \<and>
     subseq (passed_on env ptrs s) (sys_written s) \<and> (sys_lost s = [] \<longrightarrow> passed_on env ptrs s = sys_written s)"

lemma data_inv_frame:
  assumes "sys_queue s' = sys_queue s" "sys_entries s' @ sys_cq s' = sys_entries s @ sys_cq s" "sys_app s' = sys_app s"
    and "sys_lost s' = sys_lost s" "sys_memory s' = sys_memory s" "sys_written s' = sys_written s" "sys_received s' = sys_received s"
  shows "data_inv env ptrs s' = data_inv env ptrs s"
proof -
  have "on_the_way env s' = on_the_way env s" unfolding on_the_way_def by (simp only: assms)
  then show ?thesis unfolding data_inv_def passed_on_def app_packet_def by (simp only: assms)
qed

lemma write_elsewhere:
  assumes "a + blen \<le> b \<or> b + blen \<le> a" "length bs \<le> blen" "len \<le> blen"
  shows "map (write_memory a bs memory) [b ..< b + len] = map memory [b ..< b + len]"
  using assms by (auto simp: write_memory_def)

lemma read_back: "map (write_memory a bs memory) [a ..< a + length bs] = bs"
  by (rule nth_equalityI) (simp_all add: write_memory_def)

lemma kernel_reads_data:
  assumes own: "own_inv env ptrs blen s" and apart: "buffers_apart ptrs blen" and data: "data_inv env ptrs s"
    and step: "kernel_reads env datagram flags s = Some s'"
  shows "data_inv env ptrs s'"
proof -
  obtain bid where mem: "sys_memory s' = write_memory (unat (of_nat (ptrs ! unat bid) :: u64)) datagram (sys_memory s)"
    and bid: "bid \<in> set (available (sys_ring s))" and len: "length datagram \<le> blen mod 2 ^ 32"
    and way: "on_the_way env s' = on_the_way env s @ [(bid, length datagram)]" and written: "sys_written s' = sys_written s @ [datagram]"
    and same: "live_packets s' = live_packets s" "sys_queue s' = sys_queue s" "sys_app s' = sys_app s" "sys_lost s' = sys_lost s"
      "sys_received s' = sys_received s"
    using kernel_reads_own [OF own step] by blast
  have range: "unat b < length ptrs" if "b \<in> set (owners env s)" for b using own_inv_facts(2) [OF own that] .
  have "unat bid < length ptrs" using range [of bid] bid by (simp add: owners_def)
  then have addr: "unat (of_nat (ptrs ! unat bid) :: u64) = ptrs ! unat bid" and dl: "length datagram \<le> blen"
    using apart len by (auto simp: buffers_apart_def unat_of_nat)
  have else: "map (sys_memory s') [ptrs ! unat b ..< ptrs ! unat b + n] = map (sys_memory s) [ptrs ! unat b ..< ptrs ! unat b + n]"
    if "b \<in> set (map fst (on_the_way env s) @ handles (live_packets s))" "n \<le> blen" for b n
  proof -
    have "b \<noteq> bid" using own_inv_facts(1) [OF own] bid that(1) by (auto simp: owners_def)
    then have "unat bid \<noteq> unat b" by (simp add: word_unat_eq_iff)
    moreover have "unat b < length ptrs" "unat bid < length ptrs" using range that(1) bid by (auto simp: owners_def)
    ultimately show ?thesis
      using apart dl that(2) unfolding mem addr buffers_apart_def by (intro write_elsewhere) blast+
  qed
  have packet: "as_bytes (sys_memory s') p = as_bytes (sys_memory s) p" if live: "p \<in> set (live_packets s)" for p
  proof (cases "packet_recycle p")
    case (Some b)
    then have "b \<in> set (handles (live_packets s))" using live by (auto simp: handles_def set_map_filter)
    moreover obtain n where "n \<le> blen" "packet_bytes p = Borrowed (ptrs ! unat b) n"
      using live_backed [OF own live] Some by (auto simp: backed_def)
    ultimately show ?thesis using else [of b n] by (simp add: as_bytes_def)
  next
    case None
    then obtain bs where "packet_bytes p = Owned bs" using live_backed [OF own live] by (auto simp: backed_def)
    then show ?thesis by (simp add: as_bytes_def)
  qed
  have entry: "buffer_bytes ptrs (sys_memory s') c = buffer_bytes ptrs (sys_memory s) c" if "c \<in> set (on_the_way env s)" for c
    using that else [of "fst c" "snd c"] on_the_way_len [OF own that] by (simp add: buffer_bytes_def)
  have "buffer_bytes ptrs (sys_memory s') (bid, length datagram) = datagram"
    unfolding buffer_bytes_def mem addr fst_conv snd_conv by (rule read_back)
  then have "passed_on env ptrs s' = passed_on env ptrs s @ [datagram]"
    using packet entry by (simp add: passed_on_def way same live_packets_def)
  moreover have "as_bytes (sys_memory s') p = sys_received s ! i" if "app_packet i s = Some p" for i p
    using packet [OF app_packet_live [OF that]] data that by (simp add: data_inv_def)
  ultimately show ?thesis
    using data same written by (auto simp: data_inv_def app_packet_def)
qed


lemma driver_handles_data:
  assumes own: "own_inv env ptrs blen s" and data: "data_inv env ptrs s" and step: "driver_handles env s = Some s'"
  shows "data_inv env ptrs s'"
proof -
  obtain ps given dropped where way: "on_the_way env s = given @ dropped @ on_the_way env s'" and q: "sys_queue s' = sys_queue s @ ps"
    and given: "list_all2 (reads_buffer ptrs) ps given"
    and s': "s' = s\<lparr>sys_thread := sys_thread s', sys_world := sys_world s', sys_entries := sys_entries s', sys_lost := sys_lost s @ map fst dropped\<rparr>"
    using driver_handles_splits [OF own step] by blast
  have fields: "sys_app s' = sys_app s" "sys_received s' = sys_received s" "sys_written s' = sys_written s"
    "sys_memory s' = sys_memory s" "sys_lost s' = sys_lost s @ map fst dropped"
    by (subst s', simp)+
  let ?bytes = "map (buffer_bytes ptrs (sys_memory s))"
  have "map (as_bytes (sys_memory s)) ps = ?bytes given"
    using reads_buffers(2) [OF given, of "sys_memory s"] by (simp add: buffer_bytes_def split_beta)
  then have eq: "passed_on env ptrs s' = (sys_received s @ map (as_bytes (sys_memory s)) (sys_queue s) @ ?bytes given) @ ?bytes (on_the_way env s')"
    "passed_on env ptrs s = (sys_received s @ map (as_bytes (sys_memory s)) (sys_queue s) @ ?bytes given) @
       ?bytes dropped @ ?bytes (on_the_way env s')"
    by (simp_all add: passed_on_def q way fields)
  have "subseq (passed_on env ptrs s') (passed_on env ptrs s)"
    unfolding eq by (intro list_emb_append_mono subseq_order.order_refl list_emb_append2)
  moreover have "passed_on env ptrs s' = passed_on env ptrs s" if "sys_lost s' = []" using that fields by (simp add: eq)
  ultimately show ?thesis
    using data fields by (auto simp: data_inv_def app_packet_def intro: subseq_order.order_trans)
qed

lemma app_takes_data:
  assumes data: "data_inv env ptrs s" and q: "sys_queue s = ps @ packets sh"
  shows "data_inv env ptrs (app_takes ps sh s)"
proof -
  let ?s = "app_takes ps sh s"
  have "passed_on env ptrs ?s = passed_on env ptrs s"
    by (simp add: passed_on_def app_takes_def on_the_way_def q)
  moreover have "as_bytes (sys_memory s) p = (sys_received s @ map (as_bytes (sys_memory s)) ps) ! i"
    if p: "app_packet i ?s = Some p" for i p
  proof (cases "i < length (sys_app s)")
    case True
    then have "app_packet i s = Some p" using p by (simp add: app_packet_def app_takes_def nth_append split: if_splits)
    then show ?thesis using data True by (simp add: data_inv_def nth_append)
  next
    case False
    then have "p = ps ! (i - length (sys_app s))" "i - length (sys_app s) < length ps"
      using p by (auto simp: app_packet_def app_takes_def nth_append split: if_splits)
    then show ?thesis using data False by (simp add: data_inv_def nth_append)
  qed
  ultimately show ?thesis using data by (simp add: data_inv_def) (simp add: app_takes_def)
qed

lemma sys_recycle_fields [simp]:
  "sys_queue (sys_recycle bid s) = sys_queue s" "sys_entries (sys_recycle bid s) = sys_entries s"
  "sys_cq (sys_recycle bid s) = sys_cq s" "sys_app (sys_recycle bid s) = sys_app s"
  "sys_lost (sys_recycle bid s) = sys_lost s" "sys_memory (sys_recycle bid s) = sys_memory s"
  "sys_written (sys_recycle bid s) = sys_written s" "sys_received (sys_recycle bid s) = sys_received s"
  by (simp_all add: sys_recycle_def split: res.split)

lemma give_back_data:
  assumes data: "data_inv env ptrs s" and p: "app_packet i s = Some p"
    and q: "\<And>q'. q = Some q' \<Longrightarrow> as_bytes (sys_memory s) q' = as_bytes (sys_memory s) p"
  shows "data_inv env ptrs ((case packet_recycle p of Some bid \<Rightarrow> sys_recycle bid s | None \<Rightarrow> s)\<lparr>sys_app := (sys_app s)[i := q]\<rparr>)"
    (is "data_inv env ptrs ?s")
proof -
  have "data_inv env ptrs ?s = data_inv env ptrs (s\<lparr>sys_app := (sys_app s)[i := q]\<rparr>)"
    by (rule data_inv_frame) (simp_all split: option.split)
  moreover have "as_bytes (sys_memory s) p' = sys_received s ! j" if "app_packet j (s\<lparr>sys_app := (sys_app s)[i := q]\<rparr>) = Some p'" for j p'
    using that data p q unfolding data_inv_def app_packet_def by (cases "j = i") (auto split: if_splits)
  ultimately show ?thesis using data by (simp add: data_inv_def passed_on_def on_the_way_def)
qed

section \<open>Every event keeps the invariants\<close>

definition rx_sys_inv :: "('w, 'm) uring_env_scheme \<Rightarrow> usize list \<Rightarrow> usize \<Rightarrow> ('a, 'w) rx_system \<Rightarrow> bool" where
  "rx_sys_inv env ptrs blen s \<longleftrightarrow> own_inv env ptrs blen s \<and> data_inv env ptrs s"

lemma rx_sys_inv_frame:
  assumes "ring_and_queue (sys_thread s') = ring_and_queue (sys_thread s)" "sys_head s' = sys_head s"
    and "sys_entries s' @ sys_cq s' = sys_entries s @ sys_cq s" "sys_app s' = sys_app s" "sys_lost s' = sys_lost s"
    and "sys_memory s' = sys_memory s" "sys_written s' = sys_written s" "sys_received s' = sys_received s"
  shows "rx_sys_inv env ptrs blen s' = rx_sys_inv env ptrs blen s"
  using own_inv_frame [OF assms(1-5), of env ptrs blen] data_inv_frame [OF _ assms(3-8), of env ptrs] assms(1)
  by (simp add: rx_sys_inv_def ring_and_queue_def)

lemma app_takes_inv:
  "rx_sys_inv env ptrs blen s \<Longrightarrow> sys_queue s = ps @ packets sh \<Longrightarrow> rx_sys_inv env ptrs blen (app_takes ps sh s)"
  by (simp add: rx_sys_inv_def app_takes_own app_takes_data)

lemma give_back_inv:
  assumes "rx_sys_inv env ptrs blen s" "app_packet i s = Some p"
    and "case q of None \<Rightarrow> True | Some q \<Rightarrow> packet_recycle q = None \<and> (\<exists>bs. packet_bytes q = Owned bs) \<and>
           as_bytes (sys_memory s) q = as_bytes (sys_memory s) p"
  shows "rx_sys_inv env ptrs blen ((case packet_recycle p of Some bid \<Rightarrow> sys_recycle bid s | None \<Rightarrow> s)\<lparr>sys_app := (sys_app s)[i := q]\<rparr>)"
  using assms unfolding rx_sys_inv_def
  by (intro conjI give_back_own give_back_data) (auto split: option.splits)

lemma driver_command_inv:
  assumes "rx_sys_inv env ptrs blen s" "driver_command env s = Some s'"
  shows "rx_sys_inv env ptrs blen s'"
proof -
  obtain command rest x self w where c: "sys_commands s = command # rest"
    and h: "on_err (handle_command env command (sys_thread s, sys_world s)) (fail env) = Some (Ok x, self, w)"
    and s': "s' = s\<lparr>sys_thread := self, sys_world := w, sys_commands := rest\<rparr>"
    using assms(2) by (auto simp: driver_command_def split: list.splits option.splits res.splits)
  have "ring_and_queue self = ring_and_queue (sys_thread s)"
    using h by (auto simp: on_err_Some_iff dest!: handle_command_queue arg_cong [where f = "\<lambda>s. ring_and_queue (fst s)"])
  then show ?thesis using assms(1) rx_sys_inv_frame [of s' s env ptrs blen] by (simp add: s')
qed

lemma app_events_inv:
  assumes inv: "rx_sys_inv env ptrs blen s"
  shows "rx_step env AppReceives s = Some s' \<Longrightarrow> rx_sys_inv env ptrs blen s'"
    and "rx_step env (AppReceivesMany n) s = Some s' \<Longrightarrow> rx_sys_inv env ptrs blen s'"
    and "rx_step env (AppWaits cx) s = Some s' \<Longrightarrow> rx_sys_inv env ptrs blen s'"
    and "rx_step env (AppDrops i) s = Some s' \<Longrightarrow> rx_sys_inv env ptrs blen s'"
    and "rx_step env (AppDetaches i) s = Some s' \<Longrightarrow> rx_sys_inv env ptrs blen s'"
proof -
  show "rx_sys_inv env ptrs blen s'" if "rx_step env AppReceives s = Some s'"
    using that by (auto simp: shared_try_recv_def intro!: app_takes_inv [OF inv] split: list.splits)
  show "rx_sys_inv env ptrs blen s'" if "rx_step env (AppWaits cx) s = Some s'"
    using that by (auto simp: poll_readable_def intro!: app_takes_inv [OF inv] split: option.splits)
  show "rx_sys_inv env ptrs blen s'" if step: "rx_step env (AppReceivesMany n) s = Some s'"
  proof -
    obtain cnt out rest where f: "fill_out 0 (replicate n None) (sys_queue s) = (cnt, out, rest)"
      by (cases "fill_out 0 (replicate n None) (sys_queue s)")
    have none: "List.map_filter id (replicate k None) = ([] :: u16 Packet list)" for k
      by (induction k) (simp_all add: map_filter_simps)
    have "rest = drop cnt (sys_queue s)" "List.map_filter id out = take cnt (sys_queue s)"
      using fill_out_spec [OF _ f] by (simp_all add: none)
    then show ?thesis
      using step f none by (auto simp: shared_try_recv_many_def intro!: app_takes_inv [OF inv] split: if_splits)
  qed
  show "rx_sys_inv env ptrs blen s'" if "rx_step env (AppDrops i) s = Some s'"
  proof -
    obtain p where p: "app_packet i s = Some p" using \<open>rx_step env (AppDrops i) s = Some s'\<close> by (auto split: option.splits)
    then have "s' = (case packet_recycle p of Some bid \<Rightarrow> sys_recycle bid s | None \<Rightarrow> s)\<lparr>sys_app := (sys_app s)[i := None]\<rparr>"
      using \<open>rx_step env (AppDrops i) s = Some s'\<close>
      by (auto simp: drop_packet_eq sys_recycle_def split: option.splits res.split)
    then show ?thesis using give_back_inv [OF inv p, of None] by simp
  qed
  show "rx_sys_inv env ptrs blen s'" if step: "rx_step env (AppDetaches i) s = Some s'"
  proof -
    obtain p where p: "app_packet i s = Some p" using step by (auto split: option.splits)
    define q where "q = fst (detach sys_memory sys_recycle p s)"
    have "s' = (case packet_recycle p of Some bid \<Rightarrow> sys_recycle bid s | None \<Rightarrow> s)\<lparr>sys_app := (sys_app s)[i := Some q]\<rparr>"
      using step p by (auto simp: q_def snd_detach split_beta split: option.splits)
    moreover have "\<exists>bs. packet_bytes q = Owned bs"
      by (cases "packet_bytes p") (simp_all add: q_def packet_defs split: option.split)
    moreover have "packet_recycle q = None" "as_bytes (sys_memory s) q = as_bytes (sys_memory s) p"
      by (simp_all add: q_def packet_defs split: option.split)
    ultimately show ?thesis using give_back_inv [OF inv p, of "Some q"] by simp
  qed
qed

lemma rx_step_inv:
  assumes inv: "rx_sys_inv env ptrs blen s" and apart: "buffers_apart ptrs blen" and step: "rx_step env ev s = Some s'"
  shows "rx_sys_inv env ptrs blen s'"
proof (cases ev)
  case (KernelReads datagram flags)
  then show ?thesis
    using step inv apart kernel_reads_own [of env ptrs blen s] kernel_reads_data [of env ptrs blen s]
    by (auto simp: rx_sys_inv_def)
next
  case (KernelCompletes entry)
  then have "carried env entry = None" "\<not> (cqe_user_data entry = RX_READ_USER_DATA \<and> 0 \<le> cqe_result entry)"
    "s' = s\<lparr>sys_cq := sys_cq s @ [entry]\<rparr>"
    using step by (auto simp: carried_def split: if_splits)
  then show ?thesis
    using inv by (auto simp: rx_sys_inv_def own_inv_def owners_def live_packets_def data_inv_def passed_on_def app_packet_def
        on_the_way_def map_filter_simps)
next
  case (Commands command)
  then show ?thesis using step inv rx_sys_inv_frame [of s' s env ptrs blen] by auto
next
  case DriverCollects
  then show ?thesis using step inv rx_sys_inv_frame [of s' s env ptrs blen] by (auto split: if_splits)
next
  case DriverHandles
  then show ?thesis
    using step inv driver_handles_own [of env ptrs blen s] driver_handles_data [of env ptrs blen s] by (simp add: rx_sys_inv_def)
qed (use step app_events_inv [OF inv] driver_command_inv [OF inv] in \<open>simp_all del: rx_step.simps(7-11)\<close>)

lemma rx_run_inv:
  "rx_sys_inv env ptrs blen s \<Longrightarrow> buffers_apart ptrs blen \<Longrightarrow> rx_run env evs s = Some s' \<Longrightarrow> rx_sys_inv env ptrs blen s'"
  by (induction evs arbitrary: s) (auto simp: Option.bind_eq_Some_conv dest: rx_step_inv)


text \<open>The ring as \<^verbatim>\<open>spawn\<close> makes it: allocated, published, with an empty ready queue.\<close>

definition rx_fresh :: "libc_memory \<Rightarrow> (nat \<Rightarrow> usize) \<Rightarrow> usize \<Rightarrow> usize \<Rightarrow> 'a RxDriverThread \<Rightarrow> bool" where
  "rx_fresh libc ptr_of blen cnt self \<longleftrightarrow>
     (\<exists>k \<le> 15. cnt = 2 ^ k) \<and> buffers_apart (map ptr_of [0 ..< cnt]) blen \<and> packets (rx_shared self) = [] \<and>
     (case provided_new libc ptr_of blen cnt RX_BUFFER_GROUP_ID of
        Ok pb \<Rightarrow> publish_all pb = Ok (rx_buffers self) | _ \<Rightarrow> False)"

lemma rx_boot_inv:
  assumes "rx_fresh libc ptr_of blen cnt self"
  shows "rx_sys_inv env (map ptr_of [0 ..< cnt]) blen (rx_boot self w memory)"
    and "ring_slots (rx_buffers self, head) = map of_nat [0 ..< cnt]"
proof -
  obtain pb k where new: "provided_new libc ptr_of blen cnt RX_BUFFER_GROUP_ID = Ok pb" "cnt = 2 ^ k" "k \<le> 15"
    and pub: "publish_all pb = Ok (rx_buffers self)" and q: "packets (rx_shared self) = []"
    using assms by (auto simp: rx_fresh_def split: res.splits)
  from publish_new [OF new] pub have ring: "ring_inv (rx_buffers self, 0)" "available (rx_buffers self, 0) = map of_nat [0 ..< cnt]"
    "unat (pb_entry_count (rx_buffers self)) = cnt" "pb_buffer_len (rx_buffers self) = blen"
    "buffer_ptrs (rx_buffers self) = map ptr_of [0 ..< cnt]"
    by auto
  then show "ring_slots (rx_buffers self, head) = map of_nat [0 ..< cnt]" by (simp add: ring_slots_def)
  show "rx_sys_inv env (map ptr_of [0 ..< cnt]) blen (rx_boot self w memory)"
    using ring q by (simp add: rx_sys_inv_def own_inv_def owners_def data_inv_def passed_on_def on_the_way_def live_packets_def
        app_packet_def rx_boot_def handles_def map_filter_simps ring_slots_def)
qed

lemma spawn_fresh:
  assumes "config_ok conf" "cfg_buffer_count config = rx_buffer_count conf"
    and "spawn env config shared_default w0 = (Ok (h, self), w)"
    and "buffers_apart (map (box_ptr env) [0 ..< rx_buffer_count conf]) (cfg_buffer_len config)"
  shows "rx_fresh (libc_mem env) (box_ptr env) (cfg_buffer_len config) (rx_buffer_count conf) self"
proof -
  obtain k where "rx_buffer_count conf = 2 ^ k" "k \<le> 15" using assms(1) by (auto simp: config_ok_def)
  moreover obtain ring w1 where ring: "rx_ring_new env (cfg_ring_entries config) (cfg_buffer_len config)
      (cfg_buffer_count config) w0 = (Ok ring, w1)" and self: "rx_buffers self = ctx_buffers ring" "rx_shared self = shared_default"
    using assms(3) by (auto simp: spawn_def then_try_Ok_iff Let_def)
  moreover from ring obtain pb where "provided_new (libc_mem env) (box_ptr env) (cfg_buffer_len config)
      (rx_buffer_count conf) RX_BUFFER_GROUP_ID = Ok pb" "publish_all pb = Ok (ctx_buffers ring)"
    by (auto simp: rx_ring_new_def then_try_Ok_iff assms(2) split: if_splits)
  ultimately show ?thesis using assms(4) by (auto simp: rx_fresh_def shared_default_def)
qed

text \<open>What \<^verbatim>\<open>spawn\<close> and any events after it lead to.\<close>

definition rx_reaches :: "('w, 'a, 'm) rx_setup_env_scheme \<Rightarrow> UringDeviceConfig \<Rightarrow> RxDriverConfig \<Rightarrow> 'a rx_event list \<Rightarrow>
    (nat \<Rightarrow> u8) \<Rightarrow> 'w \<Rightarrow> ('a, 'w) rx_system option" where
  "rx_reaches env conf config evs memory w =
     (if cfg_buffer_count config = rx_buffer_count conf then
        (case spawn env config shared_default w of
           (Ok (_, self), w) \<Rightarrow> rx_run env evs (rx_boot self w memory) | _ \<Rightarrow> None)
      else None)"

lemma rx_reaches_inv:
  assumes "config_ok conf" "buffers_apart (map (box_ptr env) [0 ..< rx_buffer_count conf]) (cfg_buffer_len config)"
    and "rx_reaches env conf config evs memory w = Some s"
  shows "rx_sys_inv env (map (box_ptr env) [0 ..< rx_buffer_count conf]) (cfg_buffer_len config) s"
proof -
  obtain h self w1 where sp: "cfg_buffer_count config = rx_buffer_count conf" "spawn env config shared_default w = (Ok (h, self), w1)"
    and run: "rx_run env evs (rx_boot self w1 memory) = Some s"
    using assms(3) by (auto simp: rx_reaches_def split: if_splits prod.splits res.splits)
  show ?thesis by (rule rx_run_inv [OF rx_boot_inv(1) [OF spawn_fresh [OF assms(1) sp assms(2)]] assms(2) run])
qed

section \<open>Correctness of RX as a whole\<close>

text \<open>
  Two packets through the two-buffer ring; the first is detached, the second dropped, and the
  kernel reuses the first buffer while the application still reads the first packet.
\<close>

definition example_events :: "nat rx_event list" where
  "example_events = [Commands (Start 9), DriverCommand, KernelReads [7, 8, 9] 3, KernelReads [5] 0x10003, DriverCollects,
     DriverHandles, DriverHandles, AppReceives, AppDetaches 0, AppReceivesMany 4, AppDrops 1, KernelReads [1, 2] 3]"

definition example_started :: "nat RxDriverThread" where
  "example_started = (sim_thread False)\<lparr>rx_cq_eventfd := 3, rx_shared := shared_default, running := False, read_active := False\<rparr>"

definition rx_example_system :: "(nat, sim) rx_system" where
  "rx_example_system = the (rx_run setup_env example_events (rx_boot example_started sim_empty (\<lambda>_. 0)))"

lemma example_run:
  "map_option (\<lambda>s. (sys_lost s, sys_received s, map (\<lambda>cell. cell = None) (sys_app s)))
     (rx_run setup_env example_events (rx_boot example_started sim_empty (\<lambda>_. 0))) =
     Some ([], [[7, 8, 9], [5]], [False, True])"
  by code_simp

lemma example_system_values:
  "sys_lost rx_example_system = []" "sys_received rx_example_system = [[7, 8, 9], [5]]"
  "\<exists>p. app_packet 0 rx_example_system = Some p"
proof -
  have "sys_lost rx_example_system = [] \<and> sys_received rx_example_system = [[7, 8, 9], [5]] \<and>
      map (\<lambda>cell. cell = None) (sys_app rx_example_system) = [False, True]"
    using example_run by (auto simp: rx_example_system_def)
  then show "sys_lost rx_example_system = []" "sys_received rx_example_system = [[7, 8, 9], [5]]"
    "\<exists>p. app_packet 0 rx_example_system = Some p"
    by (auto simp: app_packet_def map_eq_Cons_conv)
qed

lemma example_reached:
  "rx_reaches setup_env example_config example_driver_config example_events (\<lambda>_. 0) sim_empty = Some rx_example_system"
proof -
  have "rx_run setup_env example_events (rx_boot example_started sim_empty (\<lambda>_. 0)) \<noteq> None" using example_run by auto
  moreover have "\<exists>h. spawn setup_env example_driver_config shared_default sim_empty = (Ok (h, example_started), sim_empty)"
    using example_ring_published
    by (simp add: spawn_def rx_ring_new_def then_try_def setup_env_simps example_driver_config_def RX_BUFFER_GROUP_ID_def
        example_started_def sim_thread_def)
  ultimately show ?thesis
    by (auto simp: rx_reaches_def rx_example_system_def example_driver_config_def example_config_def with_defs)
qed

lemma example_apart: "buffers_apart (map (box_ptr setup_env) [0 ..< rx_buffer_count example_config]) (cfg_buffer_len example_driver_config)"
proof -
  have "rx_buffer_count example_config = 2" "[0 ..< 2] = [0, 1 :: nat]"
    by (simp_all add: example_config_def with_defs numeral_2_eq_2)
  then show ?thesis by (simp add: buffers_apart_def setup_env_simps example_driver_config_def less_Suc_eq)
qed





end
