(* ===== verification/Tx_Batch.thy ===== *)
theory Tx_Batch
  imports Uring_Env
begin

text \<open>
  The bookkeeping of one TX batch (\<^verbatim>\<open>ActiveTxBatch\<close> and the functions after it in
  \<^verbatim>\<open>src/src/core/tx.rs\<close>): which buffers were handed to the ring, which writes are in flight, and
  the result of each buffer.

  An \<^verbatim>\<open>Instant\<close> and a \<^verbatim>\<open>Duration\<close> are counted in nanoseconds.  The cancel flag, an
  \<^verbatim>\<open>Arc<AtomicBool>\<close> shared with the caller, is named by a number, the response channel is a value
  of the parameter type.  The vectors of a batch have one length (part of \<open>batch_inv\<close>), so the
  index expressions below are in range.
\<close>

section \<open>Requests, responses, batches\<close>

text \<open>What the driver uses of \<^verbatim>\<open>bytes::Bytes\<close>: \<^verbatim>\<open>as_ptr()\<close> and \<^verbatim>\<open>len()\<close>.\<close>

record Bytes =
  bytes_ptr :: usize
  bytes_len :: usize

record 'a TxBatchRequest =
  req_bufs :: "Bytes list"
  req_deadline :: "nat option"
  req_keep_order :: bool
  req_cancel_requested :: nat
  req_response :: 'a

record TxBatchResponse =
  resp_bufs :: "Bytes list"
  resp_results :: "usize res option list"

record 'a ActiveTxBatch =
  bufs :: "Bytes list"
  results :: "usize res option list"
  submitted :: "bool list"
  pending :: "bool list"
  next_to_submit :: usize
  in_flight :: usize
  completed :: usize
  deadline :: "nat option"
  keep_order :: bool
  cancel_requested :: bool
  external_cancel :: nat
  response :: 'a

definition batch_new :: "'a TxBatchRequest \<Rightarrow> 'a ActiveTxBatch" where
  "batch_new request =
     (let len = length (req_bufs request) in
      \<lparr> bufs = req_bufs request, results = replicate len None, submitted = replicate len False,
        pending = replicate len False, next_to_submit = 0, in_flight = 0, completed = 0,
        deadline = req_deadline request, keep_order = req_keep_order request, cancel_requested = False,
        external_cancel = req_cancel_requested request, response = req_response request \<rparr>)"

definition deadline_expired ::
    "('w, 'm) uring_env_scheme \<Rightarrow> 'a ActiveTxBatch \<Rightarrow> 'w \<Rightarrow> bool \<times> 'w" where
  "deadline_expired env self w =
     (case deadline self of
        None \<Rightarrow> (False, w)
      | Some d \<Rightarrow> (let (now, w) = instant_now env w in (now \<ge> d, w)))"

text \<open>The truncated subtraction is \<^verbatim>\<open>saturating_duration_since\<close>.\<close>

definition wait_timeout ::
    "('w, 'm) uring_env_scheme \<Rightarrow> 'a ActiveTxBatch \<Rightarrow> 'w \<Rightarrow> nat option \<times> 'w" where
  "wait_timeout env self w =
     (if cancel_requested self then (None, w)
      else case deadline self of
             None \<Rightarrow> (None, w)
           | Some d \<Rightarrow> (let (now, w) = instant_now env w in (Some (d - now), w)))"

definition is_complete :: "'a ActiveTxBatch \<Rightarrow> bool" where
  "is_complete self \<longleftrightarrow> completed self = length (bufs self)"

definition remaining_to_submit :: "'a ActiveTxBatch \<Rightarrow> usize" where
  "remaining_to_submit self = length (bufs self) - next_to_submit self"

definition into_response :: "'a ActiveTxBatch \<Rightarrow> TxBatchResponse" where
  "into_response self = \<lparr> resp_bufs = bufs self, resp_results = results self \<rparr>"

section \<open>Completions and errors\<close>

definition cqe_result_to_io_result :: "i32 \<Rightarrow> bool \<Rightarrow> usize res" where
  "cqe_result_to_io_result result cancelled =
     (if result \<ge> 0 then Ok (nat result)
      else
        (let error_code = - result in
         if cancelled \<and> error_code = ECANCELED then Err (Custom TimedOut ''tx batch timed out'')
         else Err (Os error_code)))"

definition complete_write :: "usize \<Rightarrow> i32 \<Rightarrow> 'a ActiveTxBatch \<Rightarrow> 'a ActiveTxBatch" where
  "complete_write index result self =
     (if index \<ge> length (bufs self) \<or> \<not> pending self ! index then self
      else self\<lparr>pending := (pending self)[index := False], in_flight := in_flight self - 1,
                completed := completed self + 1,
                results := (results self)[index :=
                  Some (cqe_result_to_io_result result (cancel_requested self))]\<rparr>)"

text \<open>The bodies of the two marking loops, for one index.\<close>

definition mark_unsubmitted_at :: "io_error \<Rightarrow> usize \<Rightarrow> 'a ActiveTxBatch \<Rightarrow> 'a ActiveTxBatch" where
  "mark_unsubmitted_at error index self =
     (if submitted self ! index \<or> results self ! index \<noteq> None then self
      else self\<lparr>results := (results self)[index := Some (Err (clone_io_error error))],
                completed := completed self + 1\<rparr>)"

definition mark_unsubmitted_error :: "io_error \<Rightarrow> 'a ActiveTxBatch \<Rightarrow> 'a ActiveTxBatch" where
  "mark_unsubmitted_error error self = fold (mark_unsubmitted_at error) [0 ..< length (bufs self)] self"

definition mark_unsubmitted_timed_out :: "'a ActiveTxBatch \<Rightarrow> 'a ActiveTxBatch" where
  "mark_unsubmitted_timed_out self = mark_unsubmitted_error (Custom TimedOut ''tx batch timed out'') self"

definition mark_unsubmitted_cancelled :: "'a ActiveTxBatch \<Rightarrow> 'a ActiveTxBatch" where
  "mark_unsubmitted_cancelled self =
     mark_unsubmitted_error (Custom Interrupted ''tx batch future was dropped'') self"

definition mark_driver_at :: "io_error \<Rightarrow> usize \<Rightarrow> 'a ActiveTxBatch \<Rightarrow> 'a ActiveTxBatch" where
  "mark_driver_at error index self =
     (if results self ! index \<noteq> None then self
      else
        (let self = self\<lparr>results := (results self)[index := Some (Err (clone_io_error error))]\<rparr>;
             self = (if pending self ! index
                     then self\<lparr>pending := (pending self)[index := False], in_flight := in_flight self - 1\<rparr>
                     else self)
         in self\<lparr>completed := completed self + 1\<rparr>))"

definition mark_driver_error :: "io_error \<Rightarrow> 'a ActiveTxBatch \<Rightarrow> 'a ActiveTxBatch" where
  "mark_driver_error error self = fold (mark_driver_at error) [0 ..< length (bufs self)] self"

section \<open>User data and entries\<close>

definition TX_WRITE_KIND :: u64 where "TX_WRITE_KIND = 0x5458570000000000"
definition TX_CANCEL_KIND :: u64 where "TX_CANCEL_KIND = 0x5458430000000000"
definition TX_KIND_MASK :: u64 where "TX_KIND_MASK = 0xffffff0000000000"
definition TX_INDEX_MASK :: u64 where "TX_INDEX_MASK = 0x000000ffffffffff"

lemmas tx_kind_defs = TX_WRITE_KIND_def TX_CANCEL_KIND_def TX_KIND_MASK_def TX_INDEX_MASK_def

datatype TxUserDataKind = WriteData usize | CancelData usize

definition write_user_data :: "usize \<Rightarrow> u64" where
  "write_user_data index = TX_WRITE_KIND OR (of_nat index AND TX_INDEX_MASK)"

definition cancel_user_data :: "usize \<Rightarrow> u64" where
  "cancel_user_data index = TX_CANCEL_KIND OR (of_nat index AND TX_INDEX_MASK)"

definition user_data_kind :: "u64 \<Rightarrow> TxUserDataKind option" where
  "user_data_kind user_data =
     (let index = unat (user_data AND TX_INDEX_MASK); k = user_data AND TX_KIND_MASK in
      if k = TX_WRITE_KIND then Some (WriteData index)
      else if k = TX_CANCEL_KIND then Some (CancelData index)
      else None)"

text \<open>The last argument of a write entry is the \<^verbatim>\<open>IO_LINK\<close> flag; the length is \<^verbatim>\<open>len() as u32\<close>.\<close>

definition build_write_entry :: "i32 \<Rightarrow> 'a ActiveTxBatch \<Rightarrow> usize \<Rightarrow> bool \<Rightarrow> sqe" where
  "build_write_entry fd batch index link_to_next =
     Write fd (bytes_ptr (bufs batch ! index)) (of_nat (bytes_len (bufs batch ! index)))
       (write_user_data index) link_to_next"

section \<open>Result slices and timeouts\<close>

definition clear_result_prefix :: "'r option list \<Rightarrow> usize \<Rightarrow> 'r option list" where
  "clear_result_prefix rs len = map (\<lambda>_. None) (take len rs) @ drop len rs"

definition fill_result_prefix :: "'r option list \<Rightarrow> usize \<Rightarrow> 'r \<Rightarrow> 'r option list" where
  "fill_result_prefix rs len result = map (\<lambda>_. Some result) (take len rs) @ drop len rs"

definition duration_to_poll_timeout_ms :: "nat \<Rightarrow> i32" where
  "duration_to_poll_timeout_ms duration =
     (if duration = 0 then 0
      else
        (let millis = duration div 1000000 in
         if millis > i32_max then int i32_max else int (max millis 1)))"

section \<open>The invariant\<close>

text \<open>
  \<open>sound\<close> holds at every moment of a batch; \<open>batch_inv\<close> adds that the writes handed to the ring
  are exactly the first \<open>next_to_submit\<close> ones, which holds between the submission steps.
\<close>

definition sound :: "'a ActiveTxBatch \<Rightarrow> bool" where
  "sound b \<longleftrightarrow>
     length (results b) = length (bufs b) \<and> length (submitted b) = length (bufs b) \<and>
     length (pending b) = length (bufs b) \<and>
     in_flight b = count_if (\<lambda>p. p) (pending b) \<and>
     completed b = count_if (\<lambda>r. r \<noteq> None) (results b) \<and>
     (\<forall>i < length (bufs b). pending b ! i \<longleftrightarrow> submitted b ! i \<and> results b ! i = None) \<and>
     (\<forall>i < length (bufs b). \<not> submitted b ! i \<longrightarrow> (\<forall>n. results b ! i \<noteq> Some (Ok n))) \<and>
     Some Panic \<notin> set (results b)"

definition batch_inv :: "'a ActiveTxBatch \<Rightarrow> bool" where
  "batch_inv b \<longleftrightarrow> sound b \<and> next_to_submit b \<le> length (bufs b) \<and>
     (\<forall>i < length (bufs b). submitted b ! i \<longleftrightarrow> i < next_to_submit b)"

lemma batch_new_inv: "batch_inv (batch_new request)"
  by (simp add: batch_inv_def sound_def batch_new_def Let_def)

lemma batch_new_simps [simp]:
  "bufs (batch_new request) = req_bufs request" "response (batch_new request) = req_response request"
  "deadline (batch_new request) = req_deadline request" "keep_order (batch_new request) = req_keep_order request"
  "cancel_requested (batch_new request) = False" "next_to_submit (batch_new request) = 0"
  by (simp_all add: batch_new_def Let_def)

text \<open>All three ways to finish a buffer are one step: its result is set and it leaves the ring.\<close>

definition settle :: "usize \<Rightarrow> usize res \<Rightarrow> 'a ActiveTxBatch \<Rightarrow> 'a ActiveTxBatch" where
  "settle i r b = b\<lparr>results := (results b)[i := Some r], pending := (pending b)[i := False],
     in_flight := in_flight b - (if pending b ! i then 1 else 0), completed := completed b + 1\<rparr>"

lemma sound_settle [inv_intros]:
  assumes "sound b" "i < length (bufs b)" "results b ! i = None" "r \<noteq> Panic"
    and "submitted b ! i \<or> (\<forall>n. r \<noteq> Ok n)"
  shows "sound (settle i r b)"
proof -
  have "count_if (\<lambda>r. r \<noteq> None) ((results b)[i := Some r]) = Suc (count_if (\<lambda>r. r \<noteq> None) (results b))"
    using assms by (intro count_if_update_in) (auto simp: sound_def)
  moreover have "count_if (\<lambda>p. p) ((pending b)[i := False]) =
      count_if (\<lambda>p. p) (pending b) - (if pending b ! i then 1 else 0)"
    using assms count_if_update [of i "pending b" "\<lambda>p. p" False] by (auto simp: sound_def)
  moreover have "Some Panic \<notin> set ((results b)[i := Some r])"
    using assms set_update_subset_insert [of "results b" i "Some r"] by (auto simp: sound_def)
  ultimately show ?thesis using assms by (auto simp: sound_def settle_def nth_list_update)
qed

lemma complete_write_settle:
  "index < length (bufs b) \<Longrightarrow> pending b ! index \<Longrightarrow>
   complete_write index result b = settle index (cqe_result_to_io_result result (cancel_requested b)) b"
  by (simp add: complete_write_def settle_def)

lemma mark_unsubmitted_settle:
  assumes "sound b" "index < length (bufs b)" "\<not> submitted b ! index" "results b ! index = None"
  shows "mark_unsubmitted_at error index b = settle index (Err (clone_io_error error)) b"
proof -
  have "\<not> pending b ! index" using assms by (auto simp: sound_def)
  moreover have "(pending b)[index := False] = pending b"
    using \<open>\<not> pending b ! index\<close> by (metis (full_types) list_update_id)
  ultimately show ?thesis using assms by (simp add: mark_unsubmitted_at_def settle_def)
qed

lemma mark_driver_settle:
  assumes "results b ! index = None"
  shows "mark_driver_at error index b = settle index (Err (clone_io_error error)) b"
proof (cases "pending b ! index")
  case False
  then have "(pending b)[index := False] = pending b" by (metis (full_types) list_update_id)
  with False assms show ?thesis by (simp add: mark_driver_at_def settle_def)
qed (simp add: mark_driver_at_def settle_def assms)

lemma cqe_result_not_Panic [simp]: "cqe_result_to_io_result result c \<noteq> Panic"
  by (simp add: cqe_result_to_io_result_def Let_def)

text \<open>The fields a batch is described by apart from its progress.\<close>

definition same_batch :: "'a ActiveTxBatch \<Rightarrow> 'a ActiveTxBatch \<Rightarrow> bool" where
  "same_batch b b' \<longleftrightarrow>
     bufs b' = bufs b \<and> deadline b' = deadline b \<and> keep_order b' = keep_order b \<and>
     external_cancel b' = external_cancel b \<and> response b' = response b"

text \<open>Finishing buffers neither submits nor takes back anything.\<close>

definition finishes :: "'a ActiveTxBatch \<Rightarrow> 'a ActiveTxBatch \<Rightarrow> bool" where
  "finishes b b' \<longleftrightarrow>
     same_batch b b' \<and> next_to_submit b' = next_to_submit b \<and> submitted b' = submitted b \<and>
     cancel_requested b' = cancel_requested b \<and> (sound b \<longrightarrow> sound b') \<and>
     (\<forall>i < length (bufs b). results b ! i \<noteq> None \<longrightarrow> results b' ! i = results b ! i)"

lemma same_batch_refl [simp]: "same_batch b b" by (simp add: same_batch_def)

lemma same_batch_trans: "same_batch a b \<Longrightarrow> same_batch b c \<Longrightarrow> same_batch a c"
  by (simp add: same_batch_def)

lemma finishes_refl [simp]: "finishes b b" by (simp add: finishes_def)

lemma finishes_trans: "finishes a b \<Longrightarrow> finishes b c \<Longrightarrow> finishes a c"
  by (auto simp: finishes_def same_batch_def)

lemma finishes_settle:
  "i < length (bufs b) \<Longrightarrow> results b ! i = None \<Longrightarrow> r \<noteq> Panic \<Longrightarrow> submitted b ! i \<or> (\<forall>n. r \<noteq> Ok n) \<Longrightarrow>
   finishes b (settle i r b)"
  using sound_settle [of b i r]
  by (auto simp: finishes_def same_batch_def settle_def) (metis nth_list_update_neq option.distinct(1))+

lemma finishes_batch_inv: "finishes b b' \<Longrightarrow> batch_inv b \<Longrightarrow> batch_inv b'"
  by (auto simp: finishes_def same_batch_def batch_inv_def)

lemma finishes_complete_write: "sound b \<Longrightarrow> finishes b (complete_write index result b)"
  by (cases "index < length (bufs b) \<and> pending b ! index")
     (auto simp: complete_write_settle sound_def intro!: finishes_settle, auto simp: complete_write_def)

text \<open>
  A marking loop: it gives every buffer without a result that \<open>skip\<close> does not exclude the error,
  and touches nothing else.
\<close>

lemma marking_loop:
  assumes "sound b" and skip: "\<And>s. finishes b s \<Longrightarrow> skip s = skip b"
    and at: "\<And>i s. sound s \<Longrightarrow> i < length (bufs s) \<Longrightarrow> mark i s =
      (if skip s i \<or> results s ! i \<noteq> None then s else settle i (Err e) s)"
  shows "finishes b (fold mark [0 ..< length (bufs b)] b)" (is "finishes b ?s")
    and "\<And>i. i < length (bufs b) \<Longrightarrow> results (fold mark [0 ..< length (bufs b)] b) ! i =
      (if skip b i \<or> results b ! i \<noteq> None then results b ! i else Some (Err e))"
proof -
  let ?r = "\<lambda>i. if skip b i \<or> results b ! i \<noteq> None then results b ! i else Some (Err e)"
  have "finishes b ?s \<and> (\<forall>j < length (bufs b). results ?s ! j = (if j < length (bufs b) then ?r j else results b ! j))"
  proof (rule fold_upt_induct [where P = "\<lambda>n s. finishes b s \<and>
        (\<forall>j < length (bufs b). results s ! j = (if j < n then ?r j else results b ! j))"])
    fix i s
    assume i: "i < length (bufs b)" and IH: "finishes b s \<and>
      (\<forall>j < length (bufs b). results s ! j = (if j < i then ?r j else results b ! j))"
    then have s: "sound s" "length (bufs s) = length (bufs b)" "length (results s) = length (bufs b)"
      "results s ! i = results b ! i" "skip s = skip b"
      using \<open>sound b\<close> skip [of s] by (auto simp: finishes_def same_batch_def sound_def)
    have "finishes b (mark i s)"
      using IH i s finishes_settle [of i s "Err e"] by (auto simp: at intro: finishes_trans)
    moreover have "results (mark i s) ! j = (if j < Suc i then ?r j else results b ! j)"
      if "j < length (bufs b)" for j
      using IH i s that by (auto simp: at settle_def nth_list_update less_Suc_eq)
    ultimately show "finishes b (mark i s) \<and>
      (\<forall>j < length (bufs b). results (mark i s) ! j = (if j < Suc i then ?r j else results b ! j))" by blast
  qed simp
  then show "finishes b ?s" "\<And>i. i < length (bufs b) \<Longrightarrow> results ?s ! i = ?r i" by simp_all
qed

lemma mark_unsubmitted_at_cases:
  "sound s \<Longrightarrow> i < length (bufs s) \<Longrightarrow> mark_unsubmitted_at error i s =
   (if submitted s ! i \<or> results s ! i \<noteq> None then s else settle i (Err (clone_io_error error)) s)"
  by (cases "submitted s ! i \<or> results s ! i \<noteq> None")
     (auto simp: mark_unsubmitted_settle, auto simp: mark_unsubmitted_at_def)

lemma mark_driver_at_cases:
  "mark_driver_at error i s =
   (if False \<or> results s ! i \<noteq> None then s else settle i (Err (clone_io_error error)) s)"
  by (cases "results s ! i = None") (auto simp: mark_driver_settle, auto simp: mark_driver_at_def)

lemma finishes_submitted: "finishes b s \<Longrightarrow> (\<lambda>i. submitted s ! i) = (\<lambda>i. submitted b ! i)"
  by (simp add: finishes_def)

lemma mark_unsubmitted_spec:
  assumes "sound b"
  shows "finishes b (mark_unsubmitted_error error b)"
    and "i < length (bufs b) \<Longrightarrow> results (mark_unsubmitted_error error b) ! i =
      (if submitted b ! i \<or> results b ! i \<noteq> None then results b ! i else Some (Err (clone_io_error error)))"
  unfolding mark_unsubmitted_error_def
  by (rule marking_loop [OF assms finishes_submitted mark_unsubmitted_at_cases]; assumption)+

lemma mark_driver_spec:
  assumes "sound b"
  shows "finishes b (mark_driver_error error b)"
    and "i < length (bufs b) \<Longrightarrow> results (mark_driver_error error b) ! i =
      (if results b ! i \<noteq> None then results b ! i else Some (Err (clone_io_error error)))"
  unfolding mark_driver_error_def
  by (rule marking_loop(1) [OF assms refl mark_driver_at_cases])
     (use marking_loop(2) [OF assms refl mark_driver_at_cases] in simp)

lemma complete_iff: "sound b \<Longrightarrow> is_complete b \<longleftrightarrow> None \<notin> set (results b)"
  using count_if_full_iff [of "\<lambda>r. r \<noteq> None" "results b"]
  by (auto simp: is_complete_def sound_def in_set_conv_nth)

lemma complete_not_in_flight: "sound b \<Longrightarrow> is_complete b \<Longrightarrow> in_flight b = 0"
  by (auto simp: complete_iff) (auto simp: sound_def count_if_zero_iff in_set_conv_nth)

lemma mark_driver_complete: "sound b \<Longrightarrow> is_complete (mark_driver_error error b)"
  using mark_driver_spec(1) [of b error] mark_driver_spec(2) [where b = b and error = error] complete_iff [of "mark_driver_error error b"]
  by (auto simp: finishes_def same_batch_def in_set_conv_nth sound_def)

section \<open>User data\<close>

lemma index_mask: "TX_INDEX_MASK = mask 40" and kind_mask: "TX_KIND_MASK = NOT (mask 40)"
  by (simp_all add: tx_kind_defs mask_eq_exp_minus_1)

lemma kind_low_bits: "TX_WRITE_KIND AND mask 40 = 0" "TX_CANCEL_KIND AND mask 40 = 0"
  "TX_WRITE_KIND AND NOT (mask 40) = TX_WRITE_KIND" "TX_CANCEL_KIND AND NOT (mask 40) = TX_CANCEL_KIND"
  "TX_WRITE_KIND \<noteq> TX_CANCEL_KIND"
  by (simp_all add: tx_kind_defs mask_eq_exp_minus_1)

lemma index_bits: "unat ((of_nat i :: u64) AND mask 40) = i mod 2 ^ 40"
proof -
  have "(2::nat) ^ 40 dvd 2 ^ 64" by (rule le_imp_power_dvd) simp
  then show ?thesis
    by (simp only: take_bit_eq_mask [symmetric] unsigned_take_bit_eq unat_of_nat)
       (simp add: take_bit_eq_mod mod_mod_cancel del: power_numeral)
qed

lemma kind_or_index:
  "k AND mask 40 = 0 \<Longrightarrow> (k OR (x AND mask 40)) AND mask 40 = x AND mask 40"
  "k AND NOT (mask 40) = k \<Longrightarrow> (k OR (x AND mask 40)) AND NOT (mask 40) = (k :: u64)"
  by (simp_all add: bit.conj_disj_distrib2 and.assoc)

lemma user_data_split: "u = (u AND NOT (mask 40)) OR (of_nat (unat (u AND mask 40)) AND mask 40)"
  for u :: u64
  by (simp add: bit.conj_disj_distrib [symmetric] and.assoc)

text \<open>
  The tag of a submission identifies its buffer: decoding the user data of a write or a
  cancel gives back the kind and the index (modulo \<open>2 ^ 40\<close>, far beyond any batch), and a tag that
  decodes to an index is the encoding of that index, so no two different tags name one write.
\<close>

theorem user_data_roundtrip:
  "user_data_kind (write_user_data i) = Some (WriteData (i mod 2 ^ 40)) \<and>
   user_data_kind (cancel_user_data i) = Some (CancelData (i mod 2 ^ 40)) \<and>
   (user_data_kind u = Some (WriteData j) \<longrightarrow> u = write_user_data j \<and> j < 2 ^ 40) \<and>
   (user_data_kind u = Some (CancelData j) \<longrightarrow> u = cancel_user_data j \<and> j < 2 ^ 40)"
proof (intro conjI impI)
  have less: "unat (u AND mask 40) < 2 ^ 40"
    by (simp only: take_bit_eq_mask [symmetric] unsigned_take_bit_eq take_bit_nat_less_exp)
  show "user_data_kind (write_user_data i) = Some (WriteData (i mod 2 ^ 40))"
    "user_data_kind (cancel_user_data i) = Some (CancelData (i mod 2 ^ 40))"
    using kind_low_bits(5)
    by (simp_all add: user_data_kind_def write_user_data_def cancel_user_data_def index_mask kind_mask
        kind_or_index kind_low_bits(1-4) index_bits del: power_numeral)
  { assume "user_data_kind u = Some (WriteData j)"
    then have k: "u AND NOT (mask 40) = TX_WRITE_KIND" "j = unat (u AND mask 40)"
      by (auto simp: user_data_kind_def index_mask kind_mask Let_def split: if_splits)
    then show "u = write_user_data j" "j < 2 ^ 40"
      using user_data_split [of u] less by (simp_all only: write_user_data_def index_mask) }
  { assume "user_data_kind u = Some (CancelData j)"
    then have k: "u AND NOT (mask 40) = TX_CANCEL_KIND" "j = unat (u AND mask 40)"
      by (auto simp: user_data_kind_def index_mask kind_mask Let_def split: if_splits)
    then show "u = cancel_user_data j" "j < 2 ^ 40"
      using user_data_split [of u] less by (simp_all only: cancel_user_data_def index_mask) }
qed

theorem user_data_roundtrip_witness:
  "user_data_kind (write_user_data 3) = Some (WriteData (3 mod 2 ^ 40)) \<and>
   user_data_kind (0x5458570000000003 :: u64) = Some (WriteData 3) \<and>
   (0x5458570000000003 :: u64) = write_user_data 3"
proof -
  have *: "user_data_kind (0x5458570000000003 :: u64) = Some (WriteData 3)" by code_simp
  then show ?thesis
    using user_data_roundtrip [of 3 "0x5458570000000003" 3] by simp
qed

section \<open>Waiting\<close>

text \<open>
  C39.  The poll timeout computed from a duration is a legal one: never negative (a negative timeout
  would wait for ever), zero only for the zero duration (so a pending deadline never busy-waits),
  never more than the duration except that a duration below a millisecond is rounded up to one,
  and less than a millisecond short of it up to the largest timeout \<^verbatim>\<open>poll\<close> can take.
\<close>

theorem poll_timeout_bounds:
  "0 \<le> duration_to_poll_timeout_ms d \<and> duration_to_poll_timeout_ms d \<le> 2 ^ 31 - 1 \<and>
   (duration_to_poll_timeout_ms d = 0 \<longleftrightarrow> d = 0) \<and>
   duration_to_poll_timeout_ms d * 1000000 \<le> max (int d) 1000000 \<and>
   min (int d) ((2 ^ 31 - 1) * 1000000) < (duration_to_poll_timeout_ms d + 1) * 1000000"
proof -
  let ?m = "d div 1000000"
  have "d = ?m * 1000000 + d mod 1000000" by (simp only: div_mult_mod_eq)
  then have m: "int d = int ?m * 1000000 + int (d mod 1000000)" "d mod 1000000 < 1000000"
    by (metis of_nat_add of_nat_mult of_nat_numeral) simp
  consider "d = 0" | "d > 0" "?m = 0" | "?m > 0" "?m \<le> 2147483647" | "?m > 2147483647" by linarith
  then show ?thesis
  proof cases
    case 1
    then show ?thesis by (simp add: duration_to_poll_timeout_ms_def)
  next
    case 2
    then have "duration_to_poll_timeout_ms d = 1" by (simp add: duration_to_poll_timeout_ms_def i32_max_def)
    then show ?thesis using 2 m by simp
  next
    case 3
    then have "duration_to_poll_timeout_ms d = int ?m"
      using m by (auto simp: duration_to_poll_timeout_ms_def i32_max_def max_def Let_def)
    then show ?thesis using 3 m by (auto simp: max_def min_def)
  next
    case 4
    then have "duration_to_poll_timeout_ms d = 2147483647"
      by (auto simp: duration_to_poll_timeout_ms_def i32_max_def)
    then show ?thesis using 4 m by (auto simp: max_def min_def)
  qed
qed

section \<open>The life of a batch\<close>

text \<open>
  The bookkeeping of a batch is exact.  Every operation keeps the invariant; a completion
  counts once (a second completion for the same write changes nothing) and never touches another
  buffer; marking on a timeout or a cancellation gives an error to exactly the buffers that were
  not handed to the ring and have no result; and when the batch counts as complete, every buffer
  has its result and no write is in flight.
\<close>

theorem batch_bookkeeping:
  assumes "batch_inv b"
  shows "batch_inv (complete_write i r b) \<and> batch_inv (mark_unsubmitted_error e b) \<and>
         batch_inv (mark_driver_error e b) \<and>
         complete_write i r' (complete_write i r b) = complete_write i r b \<and>
         (\<forall>j < length (bufs b). j \<noteq> i \<longrightarrow> results (complete_write i r b) ! j = results b ! j) \<and>
         (\<forall>j < length (bufs b). results (mark_unsubmitted_error e b) ! j =
            (if j < next_to_submit b \<or> results b ! j \<noteq> None then results b ! j
             else Some (Err (clone_io_error e)))) \<and>
         pending (mark_unsubmitted_error e b) = pending b \<and>
         (is_complete b \<longrightarrow> None \<notin> set (results b) \<and> in_flight b = 0)"
proof (intro conjI allI impI)
  have s: "sound b" using assms by (simp add: batch_inv_def)
  show "batch_inv (complete_write i r b)" "batch_inv (mark_unsubmitted_error e b)" "batch_inv (mark_driver_error e b)"
    using finishes_batch_inv [OF _ assms] finishes_complete_write [OF s] mark_unsubmitted_spec(1) [OF s]
      mark_driver_spec(1) [OF s] by blast+
  show "complete_write i r' (complete_write i r b) = complete_write i r b"
    using s by (auto simp: complete_write_def sound_def)
  show "results (complete_write i r b) ! j = results b ! j" if "j \<noteq> i" for j
    using that by (auto simp: complete_write_def)
  show "results (mark_unsubmitted_error e b) ! j = (if j < next_to_submit b \<or> results b ! j \<noteq> None
      then results b ! j else Some (Err (clone_io_error e)))" if "j < length (bufs b)" for j
    using mark_unsubmitted_spec(2) [OF s that] assms that by (auto simp: batch_inv_def)
  show "pending (mark_unsubmitted_error e b) = pending b"
  proof (rule nth_equalityI)
    have f: "finishes b (mark_unsubmitted_error e b)" by (rule mark_unsubmitted_spec(1) [OF s])
    then show "length (pending (mark_unsubmitted_error e b)) = length (pending b)"
      using s by (auto simp: finishes_def same_batch_def sound_def)
    show "pending (mark_unsubmitted_error e b) ! j = pending b ! j"
      if "j < length (pending (mark_unsubmitted_error e b))" for j
      using f s that mark_unsubmitted_spec(2) [OF s, of j e]
      by (auto simp: finishes_def same_batch_def sound_def split: if_splits)
  qed
qed (use assms complete_iff complete_not_in_flight in \<open>auto simp: batch_inv_def\<close>)

definition example_request :: "bool \<Rightarrow> nat TxBatchRequest" where
  "example_request ordered = \<lparr> req_bufs = map (\<lambda>i. \<lparr> bytes_ptr = 100 + 50 * i, bytes_len = 20 + i \<rparr>) [0 ..< 3],
     req_deadline = Some 500, req_keep_order = ordered, req_cancel_requested = 0, req_response = 9 \<rparr>"

theorem batch_bookkeeping_witness:
  "batch_inv (batch_new (example_request True)) \<and>
   results (mark_unsubmitted_error (Os 5) (batch_new (example_request True))) ! 2 = Some (Err (clone_io_error (Os 5)))"
proof
  show inv: "batch_inv (batch_new (example_request True))" by (rule batch_new_inv)
  have "2 < length (bufs (batch_new (example_request True)))" by (simp add: example_request_def)
  moreover have "results (batch_new (example_request True)) ! 2 = None"
    by (simp add: batch_new_def example_request_def)
  ultimately show "results (mark_unsubmitted_error (Os 5) (batch_new (example_request True))) ! 2 =
      Some (Err (clone_io_error (Os 5)))"
    using batch_bookkeeping [OF inv, of 0 60 "Os 5" 7] by auto
qed

end
