(* ===== verification/Tx_Slot.thy ===== *)
theory Tx_Slot
  imports Uring_Prelude
begin

text \<open>
  The batch slot of TX (\<^verbatim>\<open>TxBatchPhase\<close>, \<^verbatim>\<open>TxBatchShared\<close> and \<^verbatim>\<open>acquire_batch_slot\<close> of
  \<^verbatim>\<open>src/src/core/tx.rs\<close>): at most one \<^verbatim>\<open>send_many\<close> batch at a time, the others wait.

  Every method is one critical section of the mutex.  Wakers are numbers (the task that waits),
  \<^verbatim>\<open>will_wake\<close> is equality, and \<open>release_to_idle\<close> returns the wakers it woke.
\<close>

section \<open>The slot\<close>

datatype TxBatchPhase = Idle | BatchRunning | Cancelling

record TxBatchSharedState =
  phase :: TxBatchPhase
  waiters :: "nat list"

definition slot_default :: TxBatchSharedState where
  "slot_default = \<lparr> phase = Idle, waiters = [] \<rparr>"

definition try_acquire :: "TxBatchSharedState \<Rightarrow> bool \<times> TxBatchSharedState" where
  "try_acquire inner =
     (if phase inner \<noteq> Idle then (False, inner) else (True, inner\<lparr>phase := BatchRunning\<rparr>))"

definition try_acquire_or_register :: "nat \<Rightarrow> TxBatchSharedState \<Rightarrow> bool \<times> TxBatchSharedState" where
  "try_acquire_or_register w inner =
     (if phase inner = Idle then (True, inner\<lparr>phase := BatchRunning\<rparr>)
      else if w \<in> set (waiters inner) then (False, inner)
      else (False, inner\<lparr>waiters := waiters inner @ [w]\<rparr>))"

definition request_cancel :: "TxBatchSharedState \<Rightarrow> bool \<times> TxBatchSharedState" where
  "request_cancel inner =
     (if phase inner \<noteq> BatchRunning then (False, inner) else (True, inner\<lparr>phase := Cancelling\<rparr>))"

definition release_to_idle :: "TxBatchSharedState \<Rightarrow> bool \<times> TxBatchSharedState \<times> nat list" where
  "release_to_idle inner =
     (if phase inner = Idle then (False, inner, [])
      else (True, inner\<lparr>phase := Idle, waiters := []\<rparr>, waiters inner))"

lemmas slot_defs = try_acquire_def try_acquire_or_register_def request_cancel_def release_to_idle_def

section \<open>Waiting for the slot\<close>

text \<open>
  The future of \<^verbatim>\<open>acquire_batch_slot\<close>.  \<open>now_expired\<close> is the outcome of the comparison of
  \<^verbatim>\<open>Instant::now()\<close> with the deadline, \<open>timer_ready\<close> the outcome of polling the timer.
\<close>

datatype acquire_pc = AcqTry | AcqPoll | AcqPending | AcqDone bool | AcqReleased

fun acquire_step :: "bool option \<Rightarrow> bool \<Rightarrow> nat \<Rightarrow> acquire_pc \<Rightarrow> TxBatchSharedState \<Rightarrow>
    acquire_pc \<times> TxBatchSharedState" where
  "acquire_step now_expired timer_ready cx AcqTry inner =
     (let (ok, inner) = try_acquire inner in
      if ok then (AcqDone True, inner)
      else case now_expired of
             None \<Rightarrow> (AcqPoll, inner)
           | Some expired \<Rightarrow> (if expired then AcqDone False else AcqPoll, inner))"
| "acquire_step now_expired timer_ready cx AcqPoll inner =
     (let (ok, inner) = try_acquire_or_register cx inner in
      if ok then (AcqDone True, inner)
      else if now_expired \<noteq> None \<and> timer_ready then (AcqDone False, inner)
      else (AcqPending, inner))"
| "acquire_step now_expired timer_ready cx AcqPending inner =
     (let (ok, inner) = try_acquire_or_register cx inner in
      if ok then (AcqDone True, inner)
      else if now_expired \<noteq> None \<and> timer_ready then (AcqDone False, inner)
      else (AcqPending, inner))"
| "acquire_step now_expired timer_ready cx (AcqDone r) inner = (AcqDone r, inner)"
| "acquire_step now_expired timer_ready cx AcqReleased inner = (AcqReleased, inner)"

section \<open>Many callers\<close>

text \<open>
  Task \<open>i\<close> is a call of \<^verbatim>\<open>send_many\<close>; \<open>AcqDone True\<close> is a call that owns the slot, and its batch
  gives the slot back by \<open>release_to_idle\<close>.  A pending task is polled when it was woken, and may
  be polled spuriously (its timer, for instance).
\<close>

record slot_sys =
  slot :: TxBatchSharedState
  tasks :: "acquire_pc list"
  woken_tasks :: "nat set"

inductive slot_step :: "slot_sys \<Rightarrow> slot_sys \<Rightarrow> bool" where
  acquire: "i < length (tasks s) \<Longrightarrow> acquire_step e t i (tasks s ! i) (slot s) = (pc', sl') \<Longrightarrow>
    slot_step s \<lparr> slot = sl', tasks = (tasks s)[i := pc'], woken_tasks = woken_tasks s - {i} \<rparr>"
| cancel: "i < length (tasks s) \<Longrightarrow> tasks s ! i = AcqDone True \<Longrightarrow>
    slot_step s (s\<lparr>slot := snd (request_cancel (slot s))\<rparr>)"
| release: "i < length (tasks s) \<Longrightarrow> tasks s ! i = AcqDone True \<Longrightarrow>
    release_to_idle (slot s) = (b, sl', ws) \<Longrightarrow>
    slot_step s \<lparr> slot = sl', tasks = (tasks s)[i := AcqReleased], woken_tasks = woken_tasks s \<union> set ws \<rparr>"

definition slot_init :: "nat \<Rightarrow> slot_sys" where
  "slot_init n = \<lparr> slot = slot_default, tasks = replicate n AcqTry, woken_tasks = {} \<rparr>"

definition slot_inv :: "slot_sys \<Rightarrow> bool" where
  "slot_inv s \<longleftrightarrow>
     count_if (\<lambda>pc. pc = AcqDone True) (tasks s) = (if phase (slot s) = Idle then 0 else 1) \<and>
     (\<forall>i < length (tasks s). tasks s ! i = AcqPending \<longrightarrow>
        i \<in> woken_tasks s \<or> phase (slot s) \<noteq> Idle \<and> i \<in> set (waiters (slot s)))"

lemma slot_inv_step:
  assumes "slot_step s s'" "slot_inv s"
  shows "slot_inv s'"
  using assms(1)
proof cases
  case (acquire i e t pc' sl')
  show ?thesis
  proof (cases "\<exists>r. tasks s ! i = AcqDone r \<or> tasks s ! i = AcqReleased")
    case True
    then have "pc' = tasks s ! i" "sl' = slot s" using acquire(3) by auto
    then show ?thesis
      using acquire(1,2) assms(2) True by (auto simp: slot_inv_def)
  next
    case False
    have up: "count_if (\<lambda>pc. pc = AcqDone True) ((tasks s)[i := pc']) =
        count_if (\<lambda>pc. pc = AcqDone True) (tasks s) + (if pc' = AcqDone True then 1 else 0)"
      using count_if_update [OF acquire(2), of "\<lambda>pc. pc = AcqDone True" pc'] False by auto
    have "phase sl' \<noteq> Idle \<and> (pc' = AcqDone True \<longleftrightarrow> phase (slot s) = Idle) \<and>
        set (waiters (slot s)) \<subseteq> set (waiters sl') \<and> (pc' = AcqPending \<longrightarrow> i \<in> set (waiters sl'))"
    proof -
      consider "tasks s ! i = AcqTry" | "tasks s ! i = AcqPoll" | "tasks s ! i = AcqPending"
        using False by (cases "tasks s ! i") blast+
      then show ?thesis
        using acquire(3) by cases (auto simp: slot_defs split: if_splits option.splits)
    qed
    then show ?thesis
      using acquire(1,2) assms(2) up by (auto simp: slot_inv_def nth_list_update split: if_splits)
  qed
next
  case (cancel i)
  then show ?thesis using assms(2) by (auto simp: slot_inv_def request_cancel_def)
next
  case (release i b sl' ws)
  have "0 < count_if (\<lambda>pc. pc = AcqDone True) (tasks s)"
    using release by (auto simp: count_if_pos_iff)
  then have run: "phase (slot s) \<noteq> Idle" "count_if (\<lambda>pc. pc = AcqDone True) (tasks s) = 1"
    using assms(2) by (auto simp: slot_inv_def split: if_splits)
  then have "phase sl' = Idle" "ws = waiters (slot s)" using release(4) by (auto simp: slot_defs)
  moreover have "count_if (\<lambda>pc. pc = AcqDone True) ((tasks s)[i := AcqReleased]) = 0"
    using count_if_update_out(1) [of i "tasks s" "\<lambda>pc. pc = AcqDone True" AcqReleased] release(2,3) run(2)
    by simp
  ultimately show ?thesis
    using release(1,2) assms(2) by (auto simp: slot_inv_def nth_list_update split: if_splits)
qed

lemma slot_inv_reachable: "slot_step\<^sup>*\<^sup>* (slot_init n) s \<Longrightarrow> slot_inv s"
proof (induction rule: rtranclp_induct)
  case base
  show ?case by (simp add: slot_inv_def slot_init_def slot_default_def)
qed (rule slot_inv_step)

text \<open>
  A run of two calls: the first owns the slot while the second waits, then gives it back.
\<close>

definition slot_waiting :: slot_sys where
  "slot_waiting = \<lparr> slot = \<lparr> phase = BatchRunning, waiters = [1] \<rparr>, tasks = [AcqDone True, AcqPending],
     woken_tasks = {} \<rparr>"

definition slot_released :: slot_sys where
  "slot_released = \<lparr> slot = slot_default, tasks = [AcqReleased, AcqPending], woken_tasks = {1} \<rparr>"

lemma slot_waiting_reachable: "slot_step\<^sup>*\<^sup>* (slot_init 2) slot_waiting"
proof -
  let ?run = "\<lambda>ws ts. \<lparr> slot = \<lparr> phase = BatchRunning, waiters = ws \<rparr>, tasks = ts, woken_tasks = {} \<rparr>"
  have "slot_step (slot_init 2) (?run [] [AcqDone True, AcqTry])"
    using slot_step.acquire [of 0 "slot_init 2" None False "AcqDone True" "\<lparr> phase = BatchRunning, waiters = [] \<rparr>"]
    by (simp add: slot_init_def slot_default_def slot_defs numeral_2_eq_2)
  moreover have "slot_step (?run [] [AcqDone True, AcqTry]) (?run [] [AcqDone True, AcqPoll])"
    using slot_step.acquire [of 1 "?run [] [AcqDone True, AcqTry]" None False AcqPoll
        "\<lparr> phase = BatchRunning, waiters = [] \<rparr>"]
    by (simp add: slot_defs)
  moreover have "slot_step (?run [] [AcqDone True, AcqPoll]) slot_waiting"
    using slot_step.acquire [of 1 "?run [] [AcqDone True, AcqPoll]" None False AcqPending
        "\<lparr> phase = BatchRunning, waiters = [1] \<rparr>"]
    by (simp add: slot_defs slot_waiting_def)
  ultimately show ?thesis by (rule rtranclp.rtrancl_into_rtrancl [OF converse_rtranclp_into_rtranclp [OF _ r_into_rtranclp]])
qed

lemma slot_released_reachable: "slot_step\<^sup>*\<^sup>* (slot_init 2) slot_released"
proof -
  have "slot_step slot_waiting slot_released"
    using slot_step.release [of 0 slot_waiting True slot_default "[1]"]
    by (simp add: slot_waiting_def slot_released_def slot_defs slot_default_def)
  with slot_waiting_reachable show ?thesis by (rule rtranclp.rtrancl_into_rtrancl)
qed

text \<open>
  C18.  Mutual exclusion: however many \<^verbatim>\<open>send_many\<close> calls compete, in every interleaving of their
  polls, timeouts, cancellations and releases at most one of them owns the batch slot, and the
  slot is idle exactly when none does.
\<close>

theorem slot_mutual_exclusion:
  assumes "slot_step\<^sup>*\<^sup>* (slot_init n) s"
  shows "count_if (\<lambda>pc. pc = AcqDone True) (tasks s) \<le> 1 \<and>
         (phase (slot s) = Idle \<longleftrightarrow> AcqDone True \<notin> set (tasks s))"
proof -
  have inv: "count_if (\<lambda>pc. pc = AcqDone True) (tasks s) = (if phase (slot s) = Idle then 0 else 1)"
    using slot_inv_reachable [OF assms] by (simp add: slot_inv_def)
  moreover have "AcqDone True \<in> set (tasks s) \<longleftrightarrow> 0 < count_if (\<lambda>pc. pc = AcqDone True) (tasks s)"
    unfolding count_if_pos_iff by (auto simp: in_set_conv_nth)
  ultimately show ?thesis by (auto split: if_splits)
qed

theorem slot_mutual_exclusion_witness:
  "count_if (\<lambda>pc. pc = AcqDone True) (tasks slot_waiting) \<le> 1 \<and>
   (phase (slot slot_waiting) = Idle \<longleftrightarrow> AcqDone True \<notin> set (tasks slot_waiting))"
  by (rule slot_mutual_exclusion [OF slot_waiting_reachable])

text \<open>
  C38.  No waiter is forgotten: a call that is pending although the slot is idle has been woken,
  so it will be polled again and can take the slot.
\<close>

theorem slot_no_lost_wakeup:
  assumes "slot_step\<^sup>*\<^sup>* (slot_init n) s" "i < length (tasks s)" "tasks s ! i = AcqPending"
    and "phase (slot s) = Idle"
  shows "i \<in> woken_tasks s"
  using slot_inv_reachable [OF assms(1)] assms(2-) by (auto simp: slot_inv_def)

theorem slot_no_lost_wakeup_witness: "1 \<in> woken_tasks slot_released"
  by (rule slot_no_lost_wakeup [OF slot_released_reachable])
     (simp_all add: slot_released_def slot_default_def)

end
