(* ===== verification/Tx_Driver.thy ===== *)
theory Tx_Driver
  imports Tx_Batch Tx_Slot
begin

text \<open>
  The TX driver thread (\<^verbatim>\<open>TxDriverThread\<close> and \<^verbatim>\<open>TxDriverCommand\<close> of \<^verbatim>\<open>src/src/core/tx.rs\<close>).

  The methods that submit work on the batch and the ring: functions on \<^verbatim>\<open>batch\<close> and the world
  that read the thread's state.  The loop of a batch works on the batch, the thread and the world.
  Beside \<open>uring_env\<close> the thread uses the command channel, the response channels, the callers'
  cancel flags and their wakers, the further fields of \<open>tx_env\<close>.
\<close>

section \<open>State and environment\<close>

datatype 'a TxDriverCommand = RunBatch "'a TxBatchRequest" | TxShutdown

record ('w, 'a) tx_env = "'w uring_env" +
  tx_try_recv :: "'w \<Rightarrow> 'a TxDriverCommand try_recv_result \<times> 'w"
  tx_recv_blocking :: "'w \<Rightarrow> 'a TxDriverCommand option \<times> 'w"
  response_send :: "'a \<Rightarrow> TxBatchResponse \<Rightarrow> 'w \<Rightarrow> 'w"
  flag_load :: "nat \<Rightarrow> 'w \<Rightarrow> bool \<times> 'w"
  tx_wake :: "nat list \<Rightarrow> 'w \<Rightarrow> 'w"

record TxDriverThread =
  tx_cq_eventfd :: i32
  tx_device :: i32
  tx_command_eventfd :: i32
  tx_shared :: TxBatchSharedState
  submit_chunk_size :: usize
  tx_shutdown_requested :: bool

type_synonym ('a, 'w) batch_world = "'a ActiveTxBatch \<times> 'w"
type_synonym ('a, 'w) batch_sys = "'a ActiveTxBatch \<times> TxDriverThread \<times> 'w"

definition external_cancel_requested ::
    "('w, 'a, 'm) tx_env_scheme \<Rightarrow> 'a ActiveTxBatch \<Rightarrow> 'w \<Rightarrow> bool \<times> 'w" where
  "external_cancel_requested env batch w = flag_load env (external_cancel batch) w"

section \<open>Submitting\<close>

definition tx_submit_entry :: "('w, 'm) uring_env_scheme \<Rightarrow> sqe \<Rightarrow> 'w \<Rightarrow> (unit, 'w) call" where
  "tx_submit_entry env entry w = push_retry env entry w"

definition submit_write :: "('w, 'm) uring_env_scheme \<Rightarrow> TxDriverThread \<Rightarrow> usize \<Rightarrow>
    ('a, 'w) batch_world \<Rightarrow> (unit, ('a, 'w) batch_world) call" where
  "submit_write env self index s =
     (let (batch, w) = s in
      andthen (on_world (tx_submit_entry env (build_write_entry (tx_device self) batch index False) w) batch)
        (\<lambda>_ (batch, w). Some (Ok (),
           batch\<lparr>submitted := (submitted batch)[index := True], pending := (pending batch)[index := True],
                 in_flight := in_flight batch + 1\<rparr>, w)))"

text \<open>
  The loop of \<^verbatim>\<open>submit_unordered\<close>; \<open>budget\<close> is what is left of \<^verbatim>\<open>submit_chunk_size\<close>, the result is
  \<^verbatim>\<open>submitted_this_round\<close>.
\<close>

fun submit_round :: "('w, 'm) uring_env_scheme \<Rightarrow> TxDriverThread \<Rightarrow> nat \<Rightarrow> ('a, 'w) batch_world \<Rightarrow>
    (nat, ('a, 'w) batch_world) call" where
  "submit_round env self 0 s = Some (Ok 0, s)"
| "submit_round env self (Suc budget) s =
     (if next_to_submit (fst s) < length (bufs (fst s)) then
        andthen (submit_write env self (next_to_submit (fst s)) s) (\<lambda>_ (batch, w).
        andthen (submit_round env self budget (batch\<lparr>next_to_submit := next_to_submit batch + 1\<rparr>, w))
          (\<lambda>n s. Some (Ok (Suc n), s)))
      else Some (Ok 0, s))"

definition submit_unordered :: "('w, 'm) uring_env_scheme \<Rightarrow> TxDriverThread \<Rightarrow>
    ('a, 'w) batch_world \<Rightarrow> (unit, ('a, 'w) batch_world) call" where
  "submit_unordered env self s =
     andthen (submit_round env self (submit_chunk_size self) s) (\<lambda>submitted_this_round (batch, w).
       if submitted_this_round > 0 then on_world (Some (ring_submit env w)) batch
       else Some (Ok (), batch, w))"

text \<open>The chain of an ordered chunk, each entry linked to the next, and its bookkeeping.\<close>

definition chain_entries :: "i32 \<Rightarrow> 'a ActiveTxBatch \<Rightarrow> nat \<Rightarrow> sqe list" where
  "chain_entries fd batch chunk_len =
     map (\<lambda>offset. build_write_entry fd batch (next_to_submit batch + offset) (offset + 1 < chunk_len))
       [0 ..< chunk_len]"

definition mark_submitted_at :: "usize \<Rightarrow> 'a ActiveTxBatch \<Rightarrow> 'a ActiveTxBatch" where
  "mark_submitted_at offset batch =
     batch\<lparr>submitted := (submitted batch)[next_to_submit batch + offset := True],
           pending := (pending batch)[next_to_submit batch + offset := True]\<rparr>"

definition mark_chain :: "nat \<Rightarrow> 'a ActiveTxBatch \<Rightarrow> 'a ActiveTxBatch" where
  "mark_chain chunk_len batch =
     (let batch = fold mark_submitted_at [0 ..< chunk_len] batch
      in batch\<lparr>next_to_submit := next_to_submit batch + chunk_len, in_flight := in_flight batch + chunk_len\<rparr>)"

partial_function (option) submit_ordered_linked :: "('w, 'm) uring_env_scheme \<Rightarrow> TxDriverThread \<Rightarrow>
    ('a, 'w) batch_world \<Rightarrow> (unit, ('a, 'w) batch_world) call" where
  "submit_ordered_linked env self s =
     (let (batch, w) = s;
          available = sq_capacity env w - sq_len env w;
          chunk_len = min (min (remaining_to_submit batch) (submit_chunk_size self)) available
      in if chunk_len = 0 then
           andthen (on_world (Some (ring_submit env w)) batch) (\<lambda>_ s. submit_ordered_linked env self s)
         else
           (let (pushed, w) = sq_push_multiple env (chain_entries (tx_device self) batch chunk_len) w in
            if pushed then on_world (Some (ring_submit env w)) (mark_chain chunk_len batch)
            else andthen (on_world (Some (ring_submit env w)) batch) (\<lambda>_ s. submit_ordered_linked env self s)))"

declare submit_ordered_linked.simps [code]

definition submit_next_ordered :: "('w, 'm) uring_env_scheme \<Rightarrow> TxDriverThread \<Rightarrow>
    ('a, 'w) batch_world \<Rightarrow> (unit, ('a, 'w) batch_world) call" where
  "submit_next_ordered env self s =
     (if in_flight (fst s) \<noteq> 0 \<or> next_to_submit (fst s) \<ge> length (bufs (fst s)) then Some (Ok (), s)
      else submit_ordered_linked env self s)"

definition pending_indices :: "'a ActiveTxBatch \<Rightarrow> usize list" where
  "pending_indices batch = filter (\<lambda>index. pending batch ! index) [0 ..< length (pending batch)]"

fun push_cancels :: "('w, 'm) uring_env_scheme \<Rightarrow> usize list \<Rightarrow> 'w \<Rightarrow> (unit, 'w) call" where
  "push_cancels env [] w = Some (Ok (), w)"
| "push_cancels env (index # rest) w =
     andthen (tx_submit_entry env (AsyncCancel (write_user_data index) (cancel_user_data index)) w)
       (\<lambda>_ w. push_cancels env rest w)"

definition submit_cancels :: "('w, 'm) uring_env_scheme \<Rightarrow> 'a ActiveTxBatch \<Rightarrow> 'w \<Rightarrow> (unit, 'w) call" where
  "submit_cancels env batch w =
     andthen (push_cancels env (pending_indices batch) w) (\<lambda>_ w. Some (ring_submit env w))"

section \<open>Completions and waiting\<close>

definition tx_handle_cqe :: "cqe \<Rightarrow> 'a ActiveTxBatch \<Rightarrow> 'a ActiveTxBatch" where
  "tx_handle_cqe entry batch =
     (case user_data_kind (cqe_user_data entry) of
        Some (WriteData index) \<Rightarrow> complete_write index (cqe_result entry) batch
      | Some (CancelData _) \<Rightarrow> batch
      | None \<Rightarrow> batch)"

definition tx_process_cqes :: "('w, 'm) uring_env_scheme \<Rightarrow> ('a, 'w) batch_world \<Rightarrow>
    (unit, ('a, 'w) batch_world) call" where
  "tx_process_cqes env s =
     (let (batch, w) = s; (entries, w) = cq_collect env w
      in Some (Ok (), fold tx_handle_cqe entries batch, w))"

partial_function (option) drain_shutdown_commands :: "('w, 'a, 'm) tx_env_scheme \<Rightarrow>
    TxDriverThread \<times> 'w \<Rightarrow> (unit, TxDriverThread \<times> 'w) call" where
  "drain_shutdown_commands env s =
     (case tx_try_recv env (snd s) of
        (Received command, w) \<Rightarrow>
          (case command of
             TxShutdown \<Rightarrow> Some (Ok (), (fst s)\<lparr>tx_shutdown_requested := True\<rparr>, w)
           | RunBatch request \<Rightarrow>
               (let batch = mark_unsubmitted_error (Custom Interrupted ''tx driver shutting down'')
                              (batch_new request)
                in drain_shutdown_commands env
                     (fst s, response_send env (response batch) (into_response batch) w)))
      | (Empty, w) \<Rightarrow> Some (Ok (), fst s, w)
      | (Closed, w) \<Rightarrow> Some (Ok (), (fst s)\<lparr>tx_shutdown_requested := True\<rparr>, w))"

declare drain_shutdown_commands.simps [code]

definition tx_wait_for_activity :: "('w, 'a, 'm) tx_env_scheme \<Rightarrow> nat option \<Rightarrow>
    TxDriverThread \<times> 'w \<Rightarrow> (unit, TxDriverThread \<times> 'w) call" where
  "tx_wait_for_activity env timeout s =
     (let (self, w) = s;
          timeout_ms = (case timeout of Some d \<Rightarrow> duration_to_poll_timeout_ms d | None \<Rightarrow> - 1)
      in andthen (on_world (poll_retry env [tx_command_eventfd self, tx_cq_eventfd self] timeout_ms w) self)
           (\<lambda>revents (self, w).
              andthen
                (if revents ! 0 then
                   andthen (on_world (drain_eventfd env (tx_command_eventfd self) w) self)
                     (\<lambda>_ s. drain_shutdown_commands env s)
                 else Some (Ok (), self, w))
                (\<lambda>_ (self, w).
                   if revents ! 1 then on_world (drain_eventfd env (tx_cq_eventfd self) w) self
                   else Some (Ok (), self, w))))"

section \<open>Running a batch\<close>

text \<open>A call on the batch and the world, or on the thread and the world, inside the loop.\<close>

definition on_batch :: "(unit, ('a, 'w) batch_world) call \<Rightarrow> TxDriverThread \<Rightarrow>
    (unit, ('a, 'w) batch_sys) call" where
  "on_batch m self = map_option (\<lambda>(r, batch, w). (r, batch, self, w)) m"

definition batch_error :: "io_error \<Rightarrow> ('a, 'w) batch_sys \<Rightarrow> ('a, 'w) batch_sys" where
  "batch_error error s = (mark_driver_error error (fst s), snd s)"

text \<open>The submission at the head of the loop.\<close>

definition submit_stage :: "('w, 'a, 'm) tx_env_scheme \<Rightarrow> ('a, 'w) batch_sys \<Rightarrow>
    (unit, ('a, 'w) batch_sys) call" where
  "submit_stage env s =
     (let (batch, self, w) = s in
      if cancel_requested batch then Some (Ok (), s)
      else if keep_order batch then on_err (on_batch (submit_next_ordered env self (batch, w)) self) batch_error
      else on_err (on_batch (submit_unordered env self (batch, w)) self) batch_error)"

text \<open>Cancelling what is in flight, after \<open>mark\<close> has settled what was not submitted.\<close>

definition cancel_stage :: "('w, 'a, 'm) tx_env_scheme \<Rightarrow> ('a ActiveTxBatch \<Rightarrow> 'a ActiveTxBatch) \<Rightarrow>
    ('a, 'w) batch_sys \<Rightarrow> (unit, ('a, 'w) batch_sys) call" where
  "cancel_stage env mark s =
     (let (batch, self, w) = s;
          self = self\<lparr>tx_shared := snd (request_cancel (tx_shared self))\<rparr>;
          batch = mark (batch\<lparr>cancel_requested := True\<rparr>)
      in on_err (on_batch (on_world (submit_cancels env batch w) batch) self) batch_error)"

definition check_external_cancel :: "('w, 'a, 'm) tx_env_scheme \<Rightarrow> ('a, 'w) batch_sys \<Rightarrow>
    (unit, ('a, 'w) batch_sys) call" where
  "check_external_cancel env s =
     (let (batch, self, w) = s; (cancel, w) = external_cancel_requested env batch w in
      if cancel \<and> \<not> cancel_requested batch
      then cancel_stage env mark_unsubmitted_cancelled (batch, self, w)
      else Some (Ok (), batch, self, w))"

definition check_deadline :: "('w, 'a, 'm) tx_env_scheme \<Rightarrow> ('a, 'w) batch_sys \<Rightarrow>
    (unit, ('a, 'w) batch_sys) call" where
  "check_deadline env s =
     (let (batch, self, w) = s; (expired, w) = deadline_expired env batch w in
      if expired \<and> \<not> cancel_requested batch
      then cancel_stage env mark_unsubmitted_timed_out (batch, self, w)
      else Some (Ok (), batch, self, w))"

text \<open>
  Waiting and reaping, and one iteration of the loop of \<^verbatim>\<open>run_batch\<close>: \<open>Ok True\<close> is a return, with
  the batch to answer with.  (The code tests for completion again inside each of the two
  cancelling branches; where a branch is not taken the batch is as it was at the test before.)
\<close>

definition wait_stage :: "('w, 'a, 'm) tx_env_scheme \<Rightarrow> ('a, 'w) batch_sys \<Rightarrow>
    (bool, ('a, 'w) batch_sys) call" where
  "wait_stage env s =
     (let (batch, self, w) = s; (timeout, w) = wait_timeout env batch w in
      Option.bind (tx_wait_for_activity env timeout (self, w)) (\<lambda>(r, self, w). case r of
        Err e \<Rightarrow> Some (Ok True, mark_driver_error e batch, self, w)
      | Panic \<Rightarrow> Some (Panic, batch, self, w)
      | Ok _ \<Rightarrow>
          Option.bind (tx_process_cqes env (batch, w)) (\<lambda>(r, batch, w). case r of
            Err e \<Rightarrow> Some (Ok True, mark_driver_error e batch, self, w)
          | Panic \<Rightarrow> Some (Panic, batch, self, w)
          | Ok _ \<Rightarrow> Some (Ok False, batch, self, w))))"

definition batch_iteration :: "('w, 'a, 'm) tx_env_scheme \<Rightarrow> ('a, 'w) batch_sys \<Rightarrow>
    (bool, ('a, 'w) batch_sys) call" where
  "batch_iteration env s =
     andthen (submit_stage env s) (\<lambda>_ s.
     if is_complete (fst s) then Some (Ok True, s)
     else andthen (check_external_cancel env s) (\<lambda>_ s.
     if is_complete (fst s) then Some (Ok True, s)
     else andthen (check_deadline env s) (\<lambda>_ s.
     if is_complete (fst s) then Some (Ok True, s)
     else wait_stage env s)))"

partial_function (option) run_batch_loop :: "('w, 'a, 'm) tx_env_scheme \<Rightarrow> ('a, 'w) batch_sys \<Rightarrow>
    (unit, ('a, 'w) batch_sys) call" where
  "run_batch_loop env s =
     andthen (batch_iteration env s) (\<lambda>return s. if return then Some (Ok (), s) else run_batch_loop env s)"

declare run_batch_loop.simps [code]

definition run_batch :: "('w, 'a, 'm) tx_env_scheme \<Rightarrow> 'a TxBatchRequest \<Rightarrow> TxDriverThread \<times> 'w \<Rightarrow>
    ('a \<times> TxBatchResponse, TxDriverThread \<times> 'w) call" where
  "run_batch env request s =
     (let (self, w) = s; batch = batch_new request; (expired, w) = deadline_expired env batch w in
      if expired then
        Some (Ok (req_response request, into_response (mark_unsubmitted_timed_out batch)), self, w)
      else
        Option.bind (run_batch_loop env (batch, self, w)) (\<lambda>(r, batch, self, w).
          Some (map_res (\<lambda>_. (req_response request, into_response batch)) r, self, w)))"

section \<open>The thread\<close>

definition release_slot :: "('w, 'a, 'm) tx_env_scheme \<Rightarrow> TxDriverThread \<times> 'w \<Rightarrow> TxDriverThread \<times> 'w" where
  "release_slot env s =
     (let (self, w) = s; (_, slot, wakers) = release_to_idle (tx_shared self)
      in (self\<lparr>tx_shared := slot\<rparr>, tx_wake env wakers w))"

fun tx_handle_command :: "('w, 'a, 'm) tx_env_scheme \<Rightarrow> 'a TxDriverCommand \<Rightarrow> TxDriverThread \<times> 'w \<Rightarrow>
    (unit, TxDriverThread \<times> 'w) call" where
  "tx_handle_command env (RunBatch request) s =
     andthen (run_batch env request s) (\<lambda>(sender, resp) (self, w).
       Some (Ok (), release_slot env (self, response_send env sender resp w)))"
| "tx_handle_command env TxShutdown s = Some (Ok (), (fst s)\<lparr>tx_shutdown_requested := True\<rparr>, snd s)"

partial_function (option) tx_run :: "('w, 'a, 'm) tx_env_scheme \<Rightarrow> TxDriverThread \<times> 'w \<Rightarrow>
    (unit, TxDriverThread \<times> 'w) call" where
  "tx_run env s =
     (if tx_shutdown_requested (fst s) then Some (Ok (), s)
      else case tx_recv_blocking env (snd s) of
             (Some command, w) \<Rightarrow>
               andthen (on_world (ignoring (drain_eventfd env (tx_command_eventfd (fst s)) w)) (fst s)) (\<lambda>_ s.
               andthen (tx_handle_command env command s) (\<lambda>_ s. tx_run env s))
           | (None, w) \<Rightarrow> Some (Ok (), fst s, w))"

declare tx_run.simps [code]

end
