(* ===== verification/Tx_Host.thy ===== *)
theory Tx_Host
  imports Tx_Driver
begin

text \<open>
  A concrete environment for the TX driver.  The submission queue has four entries and a submit
  hands them to the kernel.  The kernel finishes the writes it holds when the driver polls and
  nothing else is there to report, unless it is slow: then the poll runs into its timeout and
  the clock advances.  A cancelled write completes with \<^verbatim>\<open>ECANCELED\<close>.  \<open>ts_signal\<close> is the command
  eventfd; every entry that was pushed is recorded in \<open>ts_log\<close>.
\<close>

record tsim =
  ts_sq :: "sqe list"
  ts_held :: "(u64 \<times> u32) list"
  ts_cq :: "cqe list"
  ts_cmds :: "nat TxDriverCommand list"
  ts_responses :: "(nat \<times> TxBatchResponse) list"
  ts_wakes :: "nat list"
  ts_flag :: bool
  ts_signal :: bool
  ts_now :: nat
  ts_slow :: nat
  ts_log :: "sqe list"
  ts_poll_fails :: bool
  ts_next :: nat

definition ts_push :: "sqe list \<Rightarrow> tsim \<Rightarrow> bool \<times> tsim" where
  "ts_push es w =
     (if length (ts_sq w) + length es \<le> 4
      then (True, w\<lparr>ts_sq := ts_sq w @ es, ts_log := ts_log w @ es\<rparr>) else (False, w))"

definition done_cqe :: "u64 \<Rightarrow> i32 \<Rightarrow> cqe" where
  "done_cqe ud result = \<lparr> cqe_user_data = ud, cqe_result = result, cqe_flags = 0 \<rparr>"

definition written_cqe :: "u64 \<times> u32 \<Rightarrow> cqe" where
  "written_cqe h = done_cqe (fst h) (int (unat (snd h)))"

text \<open>The kernel takes one entry: it holds a write, and completes the writes a cancel names.\<close>

fun ts_accept :: "sqe \<Rightarrow> tsim \<Rightarrow> tsim" where
  "ts_accept (Write fd p l ud link) w = w\<lparr>ts_held := ts_held w @ [(ud, l)]\<rparr>"
| "ts_accept (AsyncCancel target ud) w =
     w\<lparr>ts_held := filter (\<lambda>h. fst h \<noteq> target) (ts_held w),
       ts_cq := ts_cq w @ map (\<lambda>h. done_cqe (fst h) (- ECANCELED)) (filter (\<lambda>h. fst h = target) (ts_held w)) @
         [done_cqe ud (if filter (\<lambda>h. fst h = target) (ts_held w) = [] then - ENOENT else 0)]\<rparr>"
| "ts_accept (ReadMulti fd off grp ud) w = w\<lparr>ts_cq := ts_cq w @ [done_cqe ud (- EINVAL)]\<rparr>"

definition ts_submit :: "tsim \<Rightarrow> unit res \<times> tsim" where
  "ts_submit w = (Ok (), fold ts_accept (ts_sq w) (w\<lparr>ts_sq := []\<rparr>))"

definition ts_poll :: "i32 \<Rightarrow> tsim \<Rightarrow> bool list res \<times> tsim" where
  "ts_poll timeout w =
     (if ts_poll_fails w then (Err (Os EINVAL), w)
      else if ts_signal w \<or> ts_cq w \<noteq> [] then (Ok [ts_signal w, ts_cq w \<noteq> []], w)
      else if ts_slow w > 0
      then (Ok [False, False], w\<lparr>ts_slow := ts_slow w - 1, ts_now := ts_now w + nat timeout * 1000000\<rparr>)
      else (Ok [False, ts_held w \<noteq> []], w\<lparr>ts_held := [], ts_cq := map written_cqe (ts_held w)\<rparr>))"

definition ts_read :: "i32 \<Rightarrow> tsim \<Rightarrow> int res \<times> tsim" where
  "ts_read fd w = (if fd = 3 \<and> ts_signal w then (Ok 8, w\<lparr>ts_signal := False\<rparr>) else (Err (Os EAGAIN), w))"

definition ts_env :: "(tsim, nat) tx_env" where
  "ts_env =
     \<lparr> sq_push = (\<lambda>e. ts_push [e]), sq_push_multiple = ts_push, sq_capacity = (\<lambda>_. 4),
       sq_len = (\<lambda>w. length (ts_sq w)), ring_submit = ts_submit,
       cq_collect = (\<lambda>w. (ts_cq w, w\<lparr>ts_cq := []\<rparr>)), cq_is_empty = (\<lambda>w. ts_cq w = []),
       cq_overflow = (\<lambda>_. False), buffer_select = (\<lambda>_. None), cqe_more = (\<lambda>_. False),
       poll_fds = (\<lambda>fds timeout. ts_poll timeout), fd_read_u64 = ts_read,
       fd_write_u64 = (\<lambda>fd v w. (Ok 8, w\<lparr>ts_signal := True\<rparr>)), sys_eventfd = (\<lambda>w. (Ok 3, w)), sys_dup = (\<lambda>fd w. (Ok (fd + 1), w)),
       instant_now = (\<lambda>w. (ts_now w, w)),
       tx_try_recv = (\<lambda>w. case ts_cmds w of [] \<Rightarrow> (Empty, w) | c # cs \<Rightarrow> (Received c, w\<lparr>ts_cmds := cs\<rparr>)),
       tx_recv_blocking = (\<lambda>w. case ts_cmds w of [] \<Rightarrow> (None, w) | c # cs \<Rightarrow> (Some c, w\<lparr>ts_cmds := cs\<rparr>)),
       response_send = (\<lambda>a r w. w\<lparr>ts_responses := ts_responses w @ [(a, r)]\<rparr>),
       flag_load = (\<lambda>_ w. (ts_flag w, w)), tx_wake = (\<lambda>ws w. w\<lparr>ts_wakes := ts_wakes w @ ws\<rparr>) \<rparr>"

definition ts_empty :: tsim where
  "ts_empty = \<lparr> ts_sq = [], ts_held = [], ts_cq = [], ts_cmds = [], ts_responses = [], ts_wakes = [],
     ts_flag = False, ts_signal = False, ts_now = 0, ts_slow = 0, ts_log = [], ts_poll_fails = False,
     ts_next = 0 \<rparr>"

definition ts_thread :: TxDriverThread where
  "ts_thread = \<lparr> tx_cq_eventfd = 4, tx_device = 5, tx_command_eventfd = 3,
     tx_shared = \<lparr> phase = BatchRunning, waiters = [] \<rparr>, submit_chunk_size = 2, tx_shutdown_requested = False \<rparr>"

lemma ts_env_simps [simp]:
  "sq_push ts_env e w = ts_push [e] w" "sq_push_multiple ts_env es w = ts_push es w"
  "sq_capacity ts_env w = 4" "sq_len ts_env w = length (ts_sq w)" "ring_submit ts_env w = ts_submit w"
  "cq_collect ts_env w = (ts_cq w, w\<lparr>ts_cq := []\<rparr>)" "poll_fds ts_env fds timeout w = ts_poll timeout w"
  "fd_read_u64 ts_env fd w = ts_read fd w" "instant_now ts_env w = (ts_now w, w)"
  "tx_try_recv ts_env w = (case ts_cmds w of [] \<Rightarrow> (Empty, w) | c # cs \<Rightarrow> (Received c, w\<lparr>ts_cmds := cs\<rparr>))"
  "response_send ts_env a r w = w\<lparr>ts_responses := ts_responses w @ [(a, r)]\<rparr>"
  "flag_load ts_env f w = (ts_flag w, w)"
  by (simp_all add: ts_env_def)

end
