(* ===== verification/Tx_Correct.thy ===== *)
theory Tx_Correct
  imports Tx_Host
begin

text \<open>
  Running a batch is correct on every path: the invariant of the loop of \<^verbatim>\<open>run_batch\<close>, the answer
  of a batch, and that the driver never waits with nothing in flight.
\<close>

section \<open>Retrying submissions\<close>

text \<open>
  The steps a submission loop repeats before it succeeds or gives up: a push the full queue
  refuses, and a submit.
\<close>

inductive retry_step :: "('w, 'm) uring_env_scheme \<Rightarrow> 'w \<Rightarrow> 'w \<Rightarrow> bool" for env where
  refused: "sq_push env e w = (False, w') \<Longrightarrow> retry_step env w w'"
| refused_chain: "sq_push_multiple env es w = (False, w') \<Longrightarrow> retry_step env w w'"
| submit: "ring_submit env w = (r, w') \<Longrightarrow> retry_step env w w'"

abbreviation retries :: "('w, 'm) uring_env_scheme \<Rightarrow> 'w \<Rightarrow> 'w \<Rightarrow> bool" where
  "retries env \<equiv> (retry_step env)\<^sup>*\<^sup>*"

lemma retries_last:
  "sq_push env e w = (False, w') \<Longrightarrow> retries env w w'"
  "sq_push_multiple env es w = (False, w') \<Longrightarrow> retries env w w'"
  "ring_submit env w = (r, w') \<Longrightarrow> retries env w w'"
  by (blast intro: retry_step.intros)+

lemma push_retry_cases:
  fixes env :: "('w, 'm) uring_env_scheme"
  assumes "push_retry env e w = Some (r, w')"
  shows "r = Ok () \<and> (\<exists>w0. retries env w w0 \<and> sq_push env e w0 = (True, w')) \<or>
         (\<forall>x. r \<noteq> Ok x) \<and> retries env w w'"
proof -
  let ?P = "\<lambda>env e w y. fst y = Ok () \<and> (\<exists>w0. retries env w w0 \<and> sq_push env e w0 = (True, snd y)) \<or>
         (\<forall>x. fst y \<noteq> Ok x) \<and> retries env w (snd y)"
  have "?P env e w (r, w')"
  proof (rule push_retry.raw_induct [where P = ?P, OF _ assms])
    fix cont :: "('w, 'm) uring_env_scheme \<Rightarrow> sqe \<Rightarrow> 'w \<Rightarrow> (unit, 'w) call"
    fix env :: "('w, 'm) uring_env_scheme" and e w y
    assume IH: "\<And>env e w y. cont env e w = Some y \<Longrightarrow> ?P env e w y"
      and y: "(let (pushed, w) = sq_push env e w in
        if pushed then Some (Ok (), w)
        else (case ring_submit env w of (Ok _, w) \<Rightarrow> cont env e w
              | (Err e, w) \<Rightarrow> Some (Err e, w) | (Panic, w) \<Rightarrow> Some (Panic, w))) = Some y"
    obtain pushed w1 where push: "sq_push env e w = (pushed, w1)" by (cases "sq_push env e w")
    show "?P env e w y"
    proof (cases pushed)
      case True
      then show ?thesis using y push by auto
    next
      case False
      obtain r2 w2 where sub: "ring_submit env w1 = (r2, w2)" by (cases "ring_submit env w1")
      have go: "retries env w w2" using push sub False retries_last(1) [of env e w w1] retries_last(3) [of env w1 r2 w2] by simp
      show ?thesis
      proof (cases r2)
        case (Ok x)
        then have "?P env e w2 y" using IH [of env e w2 y] y push sub False by simp
        then show ?thesis using rtranclp_trans [OF go] by blast
      qed (use y push sub False go in auto)
    qed
  qed
  then show ?thesis by simp
qed

text \<open>A linked chain goes out as one push, of as many buffers as the chunk size and the queue allow.\<close>

definition chain_pushed :: "('w, 'm) uring_env_scheme \<Rightarrow> TxDriverThread \<Rightarrow> nat \<Rightarrow>
    'a ActiveTxBatch \<Rightarrow> 'w \<Rightarrow> unit res \<times> 'w \<Rightarrow> bool" where
  "chain_pushed env self n b w y \<longleftrightarrow>
     (\<exists>w0 w1. retries env w w0 \<and> 0 < n \<and> n \<le> remaining_to_submit b \<and> n \<le> submit_chunk_size self \<and>
        sq_push_multiple env (chain_entries (tx_device self) b n) w0 = (True, w1) \<and> ring_submit env w1 = y)"

lemma submit_ordered_cases:
  fixes env :: "('w, 'm) uring_env_scheme" and b :: "'a ActiveTxBatch"
  assumes "submit_ordered_linked env self (b, w) = Some (r, b', w')"
  shows "(\<exists>n. b' = mark_chain n b \<and> chain_pushed env self n b w (r, w')) \<or>
         (\<forall>x. r \<noteq> Ok x) \<and> b' = b \<and> retries env w w'"
proof -
  let ?P = "\<lambda>env self (s :: ('a, 'w) batch_world) y.
     (\<exists>n. fst (snd y) = mark_chain n (fst s) \<and> chain_pushed env self n (fst s) (snd s) (fst y, snd (snd y))) \<or>
     (\<forall>x. fst y \<noteq> Ok x) \<and> fst (snd y) = fst s \<and> retries env (snd s) (snd (snd y))"
  have "?P env self (b, w) (r, b', w')"
  proof (rule submit_ordered_linked.raw_induct [where P = ?P, OF _ assms])
    fix cont :: "('w, 'm) uring_env_scheme \<Rightarrow> TxDriverThread \<Rightarrow> ('a, 'w) batch_world \<Rightarrow>
      (unit, ('a, 'w) batch_world) call"
    fix env :: "('w, 'm) uring_env_scheme" and self s y
    assume IH: "\<And>env self s y. cont env self s = Some y \<Longrightarrow> ?P env self s y"
      and y: "(let (batch, w) = s;
          available = sq_capacity env w - sq_len env w;
          chunk_len = min (min (remaining_to_submit batch) (submit_chunk_size self)) available
      in if chunk_len = 0 then
           andthen (on_world (Some (ring_submit env w)) batch) (\<lambda>_. cont env self)
         else
           (let (pushed, w) = sq_push_multiple env (chain_entries (tx_device self) batch chunk_len) w in
            if pushed then on_world (Some (ring_submit env w)) (mark_chain chunk_len batch)
            else andthen (on_world (Some (ring_submit env w)) batch) (\<lambda>_. cont env self))) = Some y"
    obtain b w where s: "s = (b, w)" by (cases s)
    have again: "?P env self s y"
      if go: "retries env w w1" "andthen (on_world (Some (ring_submit env w1)) b) (\<lambda>_. cont env self) = Some y" for w1
    proof -
      obtain r2 w2 where sub: "ring_submit env w1 = (r2, w2)" by (cases "ring_submit env w1")
      have w2: "retries env w w2" using go(1) retries_last(3) [OF sub] by simp
      show ?thesis
      proof (cases r2)
        case (Ok x)
        then have "?P env self (b, w2) y" using IH [of env self "(b, w2)" y] go(2) sub by simp
        then show ?thesis using rtranclp_trans [OF w2] unfolding chain_pushed_def s fst_conv snd_conv by meson
      qed (use go(2) sub w2 s in auto)
    qed
    define n where "n = min (min (remaining_to_submit b) (submit_chunk_size self)) (sq_capacity env w - sq_len env w)"
    show "?P env self s y"
    proof (cases "n = 0")
      case True
      with y s n_def again [of w] show ?thesis by (simp add: Let_def)
    next
      case False
      obtain pushed w1 where push: "sq_push_multiple env (chain_entries (tx_device self) b n) w = (pushed, w1)"
        by (cases "sq_push_multiple env (chain_entries (tx_device self) b n) w")
      show ?thesis
      proof (cases pushed)
        case True
        then obtain r2 w2 where "ring_submit env w1 = (r2, w2)" "y = (r2, mark_chain n b, w2)"
          using y s n_def False push by (cases "ring_submit env w1") (simp add: Let_def)
        moreover have "n \<le> remaining_to_submit b" "n \<le> submit_chunk_size self" by (simp_all add: n_def)
        ultimately show ?thesis
          using True push False s unfolding chain_pushed_def by fastforce
      next
        case False
        then have "retries env w w1" using push retries_last(2) by simp
        with y s n_def \<open>n \<noteq> 0\<close> push False again [of w1] show ?thesis by (simp add: Let_def)
      qed
    qed
  qed
  then show ?thesis by simp
qed

section \<open>Handing buffers to the ring\<close>

text \<open>
  While a batch is not cancelled the buffers behind \<open>next_to_submit\<close> have no result; when it is
  cancelled they all have one.
\<close>

definition loop_inv :: "'a ActiveTxBatch \<Rightarrow> bool" where
  "loop_inv b \<longleftrightarrow> batch_inv b \<and>
     (\<forall>i < length (bufs b). next_to_submit b \<le> i \<longrightarrow> (results b ! i = None \<longleftrightarrow> \<not> cancel_requested b))"

lemma loop_inv_new: "loop_inv (batch_new request)"
  using batch_new_inv [of request] by (simp add: loop_inv_def batch_new_def Let_def)

lemma loop_inv_sound: "loop_inv b \<Longrightarrow> sound b"
  by (simp add: loop_inv_def batch_inv_def)

lemma loop_inv_batch: "loop_inv b \<Longrightarrow> batch_inv b"
  by (simp add: loop_inv_def)

lemma mark_chain_Suc: "mark_chain (Suc n) b = mark_chain 1 (mark_chain n b)"
proof -
  have "next_to_submit (fold mark_submitted_at [0 ..< m] b) = next_to_submit b \<and>
      in_flight (fold mark_submitted_at [0 ..< m] b) = in_flight b" for m
    by (induction m) (simp_all add: mark_submitted_at_def)
  then show ?thesis by (simp add: mark_chain_def mark_submitted_at_def Let_def)
qed

lemma mark_chain_0 [simp]: "mark_chain 0 b = b"
  by (simp add: mark_chain_def)

lemma same_batch_chain1: "same_batch b (mark_chain 1 b)" "cancel_requested (mark_chain 1 b) = cancel_requested b"
    "next_to_submit (mark_chain 1 b) = Suc (next_to_submit b)" "results (mark_chain 1 b) = results b"
  by (simp_all add: mark_chain_def mark_submitted_at_def same_batch_def)

lemma mark_chain_frame: "same_batch b (mark_chain n b)" "cancel_requested (mark_chain n b) = cancel_requested b"
    "next_to_submit (mark_chain n b) = next_to_submit b + n" "results (mark_chain n b) = results b"
  by (induction n)
     (simp_all add: mark_chain_Suc same_batch_chain1 del: One_nat_def,
      meson same_batch_trans same_batch_chain1)

lemma loop_inv_chain1:
  assumes "loop_inv b" "\<not> cancel_requested b" "next_to_submit b < length (bufs b)"
  shows "loop_inv (mark_chain 1 b)"
proof -
  let ?i = "next_to_submit b"
  have b: "length (pending b) = length (bufs b)" "length (submitted b) = length (bufs b)"
    "results b ! ?i = None" "\<not> submitted b ! ?i" "\<not> pending b ! ?i"
    "in_flight b = count_if (\<lambda>p. p) (pending b)"
    using assms by (auto simp: loop_inv_def batch_inv_def sound_def)
  have "count_if (\<lambda>p. p) ((pending b)[?i := True]) = Suc (in_flight b)"
    using b assms(3) count_if_update_in [of ?i "pending b" "\<lambda>p. p" True] by simp
  then show ?thesis
    using assms b
    by (auto simp: loop_inv_def batch_inv_def sound_def mark_chain_def mark_submitted_at_def nth_list_update
        less_Suc_eq)
qed

lemma loop_inv_chain:
  "loop_inv b \<Longrightarrow> \<not> cancel_requested b \<Longrightarrow> next_to_submit b + n \<le> length (bufs b) \<Longrightarrow> loop_inv (mark_chain n b)"
proof (induction n)
  case (Suc n)
  have "bufs (mark_chain n b) = bufs b" using mark_chain_frame(1) [of b n] by (simp add: same_batch_def)
  with Suc show ?case
    unfolding mark_chain_Suc by (intro loop_inv_chain1) (simp_all add: mark_chain_frame)
qed simp

lemma submit_write_chain:
  "submit_write env self (next_to_submit b) (b, w) = Some (r, b', w') \<Longrightarrow>
   r = Ok () \<and> b'\<lparr>next_to_submit := next_to_submit b' + 1\<rparr> = mark_chain 1 b \<and>
     next_to_submit b' = next_to_submit b \<or> (\<forall>x. r \<noteq> Ok x) \<and> b' = b"
  by (auto simp: submit_write_def andthen_Some_iff on_world_Some_iff mark_chain_def mark_submitted_at_def)

text \<open>A submission call advances the batch by some buffers, in order, and does nothing else to it.\<close>

lemma submit_round_chain:
  assumes "submit_round env self budget (b, w) = Some (r, b', w')"
  shows "\<exists>n \<le> budget. next_to_submit b + n \<le> max (next_to_submit b) (length (bufs b)) \<and> b' = mark_chain n b \<and>
    (\<forall>x. r = Ok x \<longrightarrow> x = n \<and> (n = budget \<or> length (bufs b) \<le> next_to_submit b + n))"
  using assms
proof (induction budget arbitrary: b w r)
  case 0
  then show ?case by (auto intro!: exI [of _ 0])
next
  case (Suc budget)
  show ?case
  proof (cases "next_to_submit b < length (bufs b)")
    case False
    with Suc.prems show ?thesis by (auto intro!: exI [of _ 0])
  next
    case True
    obtain r1 b1 w1 where sw: "submit_write env self (next_to_submit b) (b, w) = Some (r1, b1, w1)"
      using Suc.prems True by (cases "submit_write env self (next_to_submit b) (b, w)") auto
    show ?thesis
    proof (cases "r1 = Ok ()")
      case False
      then have "b' = b" "\<forall>x. r \<noteq> Ok x"
        using submit_write_chain [OF sw] Suc.prems True sw by (cases r1; auto)+
      then show ?thesis by (auto intro!: exI [of _ 0])
    next
      case r1: True
      let ?b = "b1\<lparr>next_to_submit := next_to_submit b1 + 1\<rparr>"
      have b1: "?b = mark_chain 1 b" using submit_write_chain [OF sw] r1 by auto
      obtain r2 where rest: "submit_round env self budget (mark_chain 1 b, w1) = Some (r2, b', w')"
        and r2: "\<And>x. r = Ok x \<Longrightarrow> \<exists>n. r2 = Ok n \<and> x = Suc n"
        using Suc.prems True sw r1 b1 by (auto simp: andthen_Some_iff)
      have len: "length (bufs (mark_chain 1 b)) = length (bufs b)"
        using mark_chain_frame(1) [of b 1] by (simp add: same_batch_def)
      from Suc.IH [OF rest] obtain n where n: "n \<le> budget" "b' = mark_chain n (mark_chain 1 b)"
          "next_to_submit b + 1 + n \<le> max (next_to_submit b + 1) (length (bufs b))"
          "\<forall>x. r2 = Ok x \<longrightarrow> x = n \<and> (n = budget \<or> length (bufs b) \<le> next_to_submit b + 1 + n)"
        unfolding mark_chain_frame(3) len by blast
      have "mark_chain n (mark_chain 1 b) = mark_chain (Suc n) b"
        by (induction n) (simp_all add: mark_chain_Suc del: One_nat_def)
      with n r2 True show ?thesis by (intro exI [of _ "Suc n"]) fastforce
    qed
  qed
qed

text \<open>What the two submission methods do to the batch: they hand over the next \<open>n\<close> buffers.\<close>

definition advances :: "'a ActiveTxBatch \<Rightarrow> (unit, ('a, 'w) batch_world) call \<Rightarrow> bool" where
  "advances b m \<longleftrightarrow> (\<forall>r b' w'. m = Some (r, b', w') \<longrightarrow>
     (\<exists>n. b' = mark_chain n b \<and> next_to_submit b + n \<le> length (bufs b) \<and>
        (r = Ok () \<longrightarrow> n > 0 \<or> length (bufs b) \<le> next_to_submit b \<or> in_flight b \<noteq> 0)))"

lemma advances_Ex:
  "advances b m \<Longrightarrow> m = Some (r, b', w') \<Longrightarrow>
   \<exists>n. b' = mark_chain n b \<and> next_to_submit b + n \<le> length (bufs b) \<and>
     (r = Ok () \<longrightarrow> n > 0 \<or> length (bufs b) \<le> next_to_submit b \<or> in_flight b \<noteq> 0)"
  by (simp add: advances_def)

lemma submit_unordered_round:
  assumes "submit_unordered env self (b, w) = Some (r, b', w')"
  obtains r1 w1 where "submit_round env self (submit_chunk_size self) (b, w) = Some (r1, b', w1)"
    "r = Ok () \<Longrightarrow> \<exists>x. r1 = Ok x" "w' = w1 \<or> (\<exists>r2. ring_submit env w1 = (r2, w'))"
proof (cases "submit_round env self (submit_chunk_size self) (b, w)")
  case None
  with assms show thesis by (simp add: submit_unordered_def)
next
  case (Some y)
  obtain r1 b1 w1 where y: "y = (r1, b1, w1)" by (cases y)
  show thesis
  proof (cases r1)
    case (Ok k)
    obtain r2 w2 where sub: "ring_submit env w1 = (r2, w2)" by (cases "ring_submit env w1")
    show thesis
      by (rule that [of r1 w1]) (use assms Some y Ok sub in \<open>auto simp: submit_unordered_def split: if_splits\<close>)
  qed (rule that [of r1 w1]; use assms Some y in \<open>simp add: submit_unordered_def\<close>)+
qed

lemma submit_unordered_advances:
  assumes "next_to_submit b \<le> length (bufs b)" "0 < submit_chunk_size self"
  shows "advances b (submit_unordered env self (b, w))"
  unfolding advances_def
proof (intro allI impI)
  fix r b' w'
  assume "submit_unordered env self (b, w) = Some (r, b', w')"
  then obtain r1 w1 where round: "submit_round env self (submit_chunk_size self) (b, w) = Some (r1, b', w1)"
    and r1: "r = Ok () \<Longrightarrow> \<exists>x. r1 = Ok x" by (rule submit_unordered_round) blast
  from submit_round_chain [OF round] obtain n where n: "b' = mark_chain n b"
      "next_to_submit b + n \<le> max (next_to_submit b) (length (bufs b))"
      "\<forall>x. r1 = Ok x \<longrightarrow> x = n \<and> (n = submit_chunk_size self \<or> length (bufs b) \<le> next_to_submit b + n)"
    by blast
  have "r = Ok () \<longrightarrow> n = submit_chunk_size self \<or> length (bufs b) \<le> next_to_submit b + n"
    using r1 n(3) by blast
  with n(1,2) assms show "\<exists>n. b' = mark_chain n b \<and> next_to_submit b + n \<le> length (bufs b) \<and>
     (r = Ok () \<longrightarrow> n > 0 \<or> length (bufs b) \<le> next_to_submit b \<or> in_flight b \<noteq> 0)"
    by (intro exI [of _ n]) (simp, linarith)
qed

lemma submit_ordered_advances:
  assumes "next_to_submit b \<le> length (bufs b)"
  shows "advances b (submit_next_ordered env self (b, w))"
  unfolding advances_def
proof (intro allI impI)
  fix r b' w'
  assume *: "submit_next_ordered env self (b, w) = Some (r, b', w')"
  show "\<exists>n. b' = mark_chain n b \<and> next_to_submit b + n \<le> length (bufs b) \<and>
     (r = Ok () \<longrightarrow> n > 0 \<or> length (bufs b) \<le> next_to_submit b \<or> in_flight b \<noteq> 0)"
  proof (cases "in_flight b \<noteq> 0 \<or> next_to_submit b \<ge> length (bufs b)")
    case True
    with * assms show ?thesis by (intro exI [of _ 0]) (auto simp: submit_next_ordered_def)
  next
    case False
    with * have "submit_ordered_linked env self (b, w) = Some (r, b', w')" by (simp add: submit_next_ordered_def)
    from submit_ordered_cases [OF this] consider n where "b' = mark_chain n b" "0 < n" "n \<le> remaining_to_submit b"
      | "\<forall>x. r \<noteq> Ok x" "b' = b" by (auto simp: chain_pushed_def)
    then show ?thesis
    proof cases
      case 1
      with False show ?thesis by (intro exI [of _ n]) (auto simp: remaining_to_submit_def)
    next
      case 2
      with assms show ?thesis by (intro exI [of _ 0]) auto
    qed
  qed
qed

section \<open>The loop of a batch\<close>

text \<open>
  A stage of the loop leaves the batch the one it was, and either complete or in the loop's
  invariant again.
\<close>

definition stage_ok :: "'a ActiveTxBatch \<Rightarrow> 'a ActiveTxBatch \<Rightarrow> bool" where
  "stage_ok b b' \<longleftrightarrow> same_batch b b' \<and> batch_inv b' \<and> (is_complete b' \<or> loop_inv b')"

lemma stage_ok_error: "same_batch b b' \<Longrightarrow> batch_inv b' \<Longrightarrow> stage_ok b (mark_driver_error e b')"
  using mark_driver_spec(1) [of b' e] mark_driver_complete [of b' e] finishes_batch_inv [of b' "mark_driver_error e b'"]
  by (auto simp: stage_ok_def finishes_def batch_inv_def [of b'] intro: same_batch_trans)

lemma stage_ok_trans: "stage_ok a b \<Longrightarrow> stage_ok b c \<Longrightarrow> stage_ok a c"
  by (auto simp: stage_ok_def intro: same_batch_trans)

lemma on_batch_Some_iff: "on_batch m self = Some (r, s) \<longleftrightarrow> (\<exists>b w. m = Some (r, b, w) \<and> s = (b, self, w))"
  by (auto simp: on_batch_def)

text \<open>The invariant rules out a batch that waits although nothing is in flight.\<close>

lemma settled_in_flight:
  assumes "loop_inv b" "cancel_requested b \<or> length (bufs b) \<le> next_to_submit b" "\<not> is_complete b"
  shows "0 < in_flight b"
proof -
  have "None \<in> set (results b)" using assms complete_iff loop_inv_sound by blast
  then obtain i where i: "i < length (bufs b)" "results b ! i = None"
    using loop_inv_sound [OF assms(1)] by (auto simp: in_set_conv_nth sound_def)
  then have "i < next_to_submit b" using assms(1,2) by (auto simp: loop_inv_def)
  then have "submitted b ! i" using assms(1) i by (auto simp: loop_inv_def batch_inv_def)
  with i show ?thesis using loop_inv_sound [OF assms(1)] by (auto simp: sound_def count_if_pos_iff)
qed

lemma chain_in_flight: "in_flight (mark_chain n b) = in_flight b + n"
  by (induction n) (simp_all add: mark_chain_Suc del: One_nat_def, simp add: mark_chain_def mark_submitted_at_def)

lemma submit_stage_ok:
  assumes "loop_inv b" "0 < submit_chunk_size self" "submit_stage env (b, self, w) = Some (r, b', s')"
  shows "stage_ok b b' \<and> (r = Ok () \<longrightarrow> \<not> is_complete b' \<longrightarrow> 0 < in_flight b') \<and> fst s' = self"
proof (cases "cancel_requested b")
  case True
  with assms settled_in_flight [of b] show ?thesis
    by (auto simp: submit_stage_def stage_ok_def dest: loop_inv_batch)
next
  case False
  let ?m = "if keep_order b then submit_next_ordered env self (b, w) else submit_unordered env self (b, w)"
  have "next_to_submit b \<le> length (bufs b)" using assms(1) by (simp add: loop_inv_def batch_inv_def)
  then have adv: "advances b ?m"
    using submit_ordered_advances submit_unordered_advances assms(2) by auto
  have m: "on_err (on_batch ?m self) batch_error = Some (r, b', s')"
    using assms(3) False by (auto simp: submit_stage_def split: if_splits)
  then obtain r1 b1 w1 where 1: "?m = Some (r1, b1, w1)" "fst s' = self"
    and b': "b' = (case r1 of Err e \<Rightarrow> mark_driver_error e b1 | _ \<Rightarrow> b1)"
    and r: "r1 = Panic \<longleftrightarrow> r = Panic"
    by (auto simp: on_err_Some_iff on_batch_Some_iff batch_error_def)
  from advances_Ex [OF adv 1(1)] obtain n where n: "b1 = mark_chain n b" "next_to_submit b + n \<le> length (bufs b)"
      "r1 = Ok () \<longrightarrow> n > 0 \<or> length (bufs b) \<le> next_to_submit b \<or> in_flight b \<noteq> 0" by blast
  have inv: "loop_inv b1" "same_batch b b1" using n(1,2) loop_inv_chain assms(1) False mark_chain_frame(1) by auto
  show ?thesis
  proof (cases r1)
    case (Ok x)
    have "0 < in_flight b1" if "\<not> is_complete b1"
    proof (cases "length (bufs b) \<le> next_to_submit b \<and> n = 0")
      case True
      then show ?thesis using settled_in_flight [OF inv(1)] that n(1) by simp
    next
      case False
      then show ?thesis using n Ok chain_in_flight [of n b] by auto
    qed
    with b' Ok inv 1 show ?thesis by (simp add: stage_ok_def loop_inv_batch)
  next
    case (Err e)
    with b' 1 inv stage_ok_error [of b b1 e] show ?thesis
      using mark_driver_complete [of b1 e] by (simp add: loop_inv_sound loop_inv_batch)
  next
    case Panic
    with b' 1 inv r show ?thesis by (simp add: stage_ok_def loop_inv_batch)
  qed
qed

lemma finishes_same: "finishes b b' \<Longrightarrow> same_batch b b'" by (simp add: finishes_def)

lemma loop_inv_cancel:
  assumes "loop_inv b"
  shows "loop_inv (mark_unsubmitted_error e (b\<lparr>cancel_requested := True\<rparr>))"
    and "same_batch b (mark_unsubmitted_error e (b\<lparr>cancel_requested := True\<rparr>))"
    and "cancel_requested (mark_unsubmitted_error e (b\<lparr>cancel_requested := True\<rparr>))"
proof -
  let ?b' = "mark_unsubmitted_error e (b\<lparr>cancel_requested := True\<rparr>)"
  let ?c = "b\<lparr>cancel_requested := True\<rparr>"
  have inv: "batch_inv ?c" "sound ?c" using assms by (auto simp: loop_inv_def batch_inv_def sound_def)
  note spec = mark_unsubmitted_spec(1) [OF inv(2), of e] mark_unsubmitted_spec(2) [OF inv(2), where error = e]
  show "same_batch b ?b'" "cancel_requested ?b'"
    using spec(1) by (auto simp: finishes_def same_batch_def)
  have "results ?b' ! i \<noteq> None" if "i < length (bufs b)" "next_to_submit b \<le> i" for i
    using spec(2) [of i] that inv(1) by (simp add: batch_inv_def)
  then show "loop_inv ?b'"
    using finishes_batch_inv [OF spec(1) inv(1)] spec(1)
    by (auto simp: loop_inv_def finishes_def same_batch_def)
qed

lemma cancel_stage_ok:
  assumes "loop_inv b" "mark = mark_unsubmitted_error e"
  shows "call_post (\<lambda>r s. stage_ok b (fst s) \<and> submit_chunk_size (fst (snd s)) = submit_chunk_size self \<and>
      (r = Ok () \<longrightarrow> \<not> is_complete (fst s) \<longrightarrow> 0 < in_flight (fst s))) (cancel_stage env mark (b, self, w))"
proof (rule call_postI)
  fix r s
  let ?b = "mark_unsubmitted_error e (b\<lparr>cancel_requested := True\<rparr>)"
  note inv = loop_inv_cancel [OF assms(1), of e]
  assume "cancel_stage env mark (b, self, w) = Some (r, s)"
  then have "r = Ok () \<and> fst s = ?b \<or> r = Ok () \<and> (\<exists>e'. fst s = mark_driver_error e' ?b) \<or> r = Panic \<and> fst s = ?b"
    and self: "submit_chunk_size (fst (snd s)) = submit_chunk_size self"
    by (auto simp: cancel_stage_def assms(2) Let_def on_err_Some_iff on_batch_Some_iff on_world_Some_iff
        batch_error_def)
  then show "stage_ok b (fst s) \<and> submit_chunk_size (fst (snd s)) = submit_chunk_size self \<and>
      (r = Ok () \<longrightarrow> \<not> is_complete (fst s) \<longrightarrow> 0 < in_flight (fst s))"
    using inv settled_in_flight [OF inv(1)] stage_ok_error [OF inv(2) loop_inv_batch [OF inv(1)]]
      mark_driver_complete [OF loop_inv_sound [OF inv(1)]]
    by (auto simp: stage_ok_def loop_inv_batch)
qed

lemma complete_write_loop_inv:
  assumes "loop_inv b"
  shows "loop_inv (complete_write index result b)"
proof (cases "index < length (bufs b) \<and> pending b ! index")
  case True
  then have "index < next_to_submit b"
    using assms by (auto simp: loop_inv_def batch_inv_def sound_def)
  then show ?thesis
    using assms finishes_batch_inv [OF finishes_complete_write [OF loop_inv_sound [OF assms], of index result]]
    by (auto simp: loop_inv_def complete_write_def)
qed (use assms in \<open>auto simp: complete_write_def\<close>)

lemma handle_cqe_loop_inv: "loop_inv b \<Longrightarrow> loop_inv (tx_handle_cqe entry b) \<and> same_batch b (tx_handle_cqe entry b)"
  using complete_write_loop_inv finishes_same [OF finishes_complete_write [OF loop_inv_sound]]
  by (auto simp: tx_handle_cqe_def split: option.split TxUserDataKind.split)

lemma handle_cqes_loop_inv:
  "loop_inv b \<Longrightarrow> loop_inv (fold tx_handle_cqe entries b) \<and> same_batch b (fold tx_handle_cqe entries b)"
  by (induction entries arbitrary: b) (simp, simp, metis handle_cqe_loop_inv same_batch_trans)

text \<open>Waiting changes nothing of the thread but the shutdown flag.\<close>

definition same_thread :: "TxDriverThread \<Rightarrow> TxDriverThread \<Rightarrow> bool" where
  "same_thread t t' \<longleftrightarrow>
     tx_cq_eventfd t' = tx_cq_eventfd t \<and> tx_device t' = tx_device t \<and>
     tx_command_eventfd t' = tx_command_eventfd t \<and> tx_shared t' = tx_shared t \<and>
     submit_chunk_size t' = submit_chunk_size t"

lemma same_thread_simps [simp]: "same_thread t t" "same_thread t (t\<lparr>tx_shutdown_requested := flag\<rparr>)"
  by (simp_all add: same_thread_def)

lemma same_thread_trans: "same_thread a b \<Longrightarrow> same_thread b c \<Longrightarrow> same_thread a c"
  by (simp add: same_thread_def)

lemma drain_shutdown_frame:
  fixes env :: "('w, 'a, 'm) tx_env_scheme"
  assumes "drain_shutdown_commands env s = Some (r, s')"
  shows "same_thread (fst s) (fst s')"
proof -
  let ?P = "\<lambda>env s y. same_thread (fst s) (fst (snd y))"
  have "?P env s (r, s')"
  proof (rule drain_shutdown_commands.raw_induct [where P = ?P, OF _ assms])
    fix cont :: "('w, 'a, 'm) tx_env_scheme \<Rightarrow> TxDriverThread \<times> 'w \<Rightarrow> (unit, TxDriverThread \<times> 'w) call"
    fix env :: "('w, 'a, 'm) tx_env_scheme" and s y
    assume IH: "\<And>env s y. cont env s = Some y \<Longrightarrow> ?P env s y"
      and y: "(case tx_try_recv env (snd s) of
        (Received command, w) \<Rightarrow>
          (case command of
             RunBatch request \<Rightarrow>
               (let batch = mark_unsubmitted_error (Custom Interrupted ''tx driver shutting down'')
                              (batch_new request)
                in cont env (fst s, response_send env (response batch) (into_response batch) w))
           | TxShutdown \<Rightarrow> Some (Ok (), (fst s)\<lparr>tx_shutdown_requested := True\<rparr>, w))
      | (Empty, w) \<Rightarrow> Some (Ok (), fst s, w)
      | (Closed, w) \<Rightarrow> Some (Ok (), (fst s)\<lparr>tx_shutdown_requested := True\<rparr>, w)) = Some y"
    show "?P env s y"
      using y IH [of env "(fst s, _)"]
      by (auto simp: Let_def split: prod.splits try_recv_result.splits TxDriverCommand.splits)
  qed
  then show ?thesis by simp
qed

lemma tx_wait_frame:
  "call_post (\<lambda>r s. same_thread self (fst s)) (tx_wait_for_activity env timeout (self, w))"
proof -
  let ?Q = "\<lambda>r s. same_thread self (fst s)"
  have drain: "call_post ?Q (on_world (drain_eventfd env fd w) s1)" if "same_thread self s1" for fd w s1
    using that by (auto simp: call_post_def on_world_Some_iff)
  have cmds: "call_post ?Q (drain_shutdown_commands env s1)" if "same_thread self (fst s1)" for s1
    using that by (intro call_postI) (blast intro: same_thread_trans drain_shutdown_frame)
  have poll: "call_post ?Q (on_world (poll_retry env fds t w) self)" for fds t
    by (auto simp: call_post_def on_world_Some_iff)
  show ?thesis
    unfolding tx_wait_for_activity_def Let_def prod.case
    by (rule call_post_andthen [where P = ?Q, OF poll];
        (auto intro!: call_post_andthen [where P = ?Q] drain cmds)?)
qed

text \<open>One iteration: it answers with a complete batch, or goes on in the invariant.\<close>

definition iteration_post :: "'a ActiveTxBatch \<Rightarrow> nat \<Rightarrow> bool res \<Rightarrow> ('a, 'w) batch_sys \<Rightarrow> bool" where
  "iteration_post b chunk r s \<longleftrightarrow>
     same_batch b (fst s) \<and> batch_inv (fst s) \<and> submit_chunk_size (fst (snd s)) = chunk \<and>
     (r = Ok True \<longrightarrow> is_complete (fst s)) \<and> (r = Ok False \<longrightarrow> loop_inv (fst s))"

text \<open>The stages before the wait.\<close>

definition stage_post :: "'a ActiveTxBatch \<Rightarrow> nat \<Rightarrow> unit res \<Rightarrow> ('a, 'w) batch_sys \<Rightarrow> bool" where
  "stage_post b chunk r s \<longleftrightarrow>
     stage_ok b (fst s) \<and> submit_chunk_size (fst (snd s)) = chunk \<and>
     (r = Ok () \<longrightarrow> \<not> is_complete (fst s) \<longrightarrow> 0 < in_flight (fst s))"

lemma stage_post_trans:
  "stage_post b c r s \<Longrightarrow> stage_post (fst s) c r' s' \<Longrightarrow> stage_post b c r' s'"
  by (auto simp: stage_post_def intro: stage_ok_trans)

lemma stage_post_loop_inv: "stage_post b c r s \<Longrightarrow> \<not> is_complete (fst s) \<Longrightarrow> loop_inv (fst s)"
  by (auto simp: stage_post_def stage_ok_def)

lemma submit_stage_post:
  "loop_inv b \<Longrightarrow> 0 < submit_chunk_size self \<Longrightarrow>
   call_post (stage_post b (submit_chunk_size self)) (submit_stage env (b, self, w))"
proof (rule call_postI)
  fix r s
  assume *: "loop_inv b" "0 < submit_chunk_size self" "submit_stage env (b, self, w) = Some (r, s)"
  then show "stage_post b (submit_chunk_size self) r s"
    using submit_stage_ok [of b self env w r "fst s" "snd s"] by (simp add: stage_post_def)
qed

lemma cancel_stage_post:
  assumes "loop_inv b" "mark = mark_unsubmitted_error e"
  shows "call_post (stage_post b (submit_chunk_size self)) (cancel_stage env mark (b, self, w))"
  by (rule call_post_mono [OF cancel_stage_ok [OF assms]]) (simp add: stage_post_def)

lemma stage_post_same: "loop_inv b \<Longrightarrow> 0 < in_flight b \<Longrightarrow> stage_post b (submit_chunk_size self) r (b, self, w)"
  by (simp add: stage_post_def stage_ok_def loop_inv_batch)

lemma check_stages_post:
  assumes "loop_inv b" "0 < in_flight b"
  shows "call_post (stage_post b (submit_chunk_size self)) (check_external_cancel env (b, self, w))"
    and "call_post (stage_post b (submit_chunk_size self)) (check_deadline env (b, self, w))"
  by (auto simp: check_external_cancel_def check_deadline_def split_beta Let_def
      intro!: stage_post_same assms cancel_stage_post [OF _ ext [OF mark_unsubmitted_cancelled_def]]
        cancel_stage_post [OF _ ext [OF mark_unsubmitted_timed_out_def]])

lemma wait_stage_post:
  assumes "loop_inv b"
  shows "call_post (iteration_post b (submit_chunk_size self)) (wait_stage env (b, self, w))"
proof -
  obtain timeout w1 where t: "wait_timeout env b w = (timeout, w1)" by (cases "wait_timeout env b w")
  show ?thesis
  proof (cases "tx_wait_for_activity env timeout (self, w1)")
    case None
    then show ?thesis using t by (simp add: wait_stage_def)
  next
    case (Some y)
    obtain r2 self2 w2 where y: "y = (r2, self2, w2)" by (cases y)
    have self: "submit_chunk_size self2 = submit_chunk_size self"
      using call_postD [OF tx_wait_frame] Some y by (fastforce simp: same_thread_def)
    obtain es w3 where es: "cq_collect env w2 = (es, w3)" by (cases "cq_collect env w2")
    show ?thesis
      using Some y t es self assms handle_cqes_loop_inv [OF assms, of es] stage_ok_error [of b b]
        mark_driver_complete [OF loop_inv_sound [OF assms]]
      by (cases r2) (auto simp: wait_stage_def tx_process_cqes_def iteration_post_def loop_inv_batch stage_ok_def)
  qed
qed

lemma batch_iteration_post:
  assumes "loop_inv b" "0 < submit_chunk_size self"
  shows "call_post (iteration_post b (submit_chunk_size self)) (batch_iteration env (b, self, w))"
proof -
  let ?c = "submit_chunk_size self"
  have ret: "iteration_post b ?c (Err e) s" "iteration_post b ?c Panic s"
    "is_complete (fst s) \<Longrightarrow> iteration_post b ?c (Ok True) s" if "stage_post b ?c r s" for e s r
    using that by (auto simp: iteration_post_def stage_post_def stage_ok_def)
  have chain: "call_post (stage_post b ?c) (stage env s)"
    if s: "stage_post b ?c (Ok ()) s" "\<not> is_complete (fst s)"
      and stage: "\<And>b self w. loop_inv b \<Longrightarrow> 0 < in_flight b \<Longrightarrow>
        call_post (stage_post b (submit_chunk_size self)) (stage env (b, self, w))" for stage s
  proof -
    have "call_post (stage_post (fst s) ?c) (stage env s)"
      using stage [of "fst s" "fst (snd s)" "snd (snd s)"] s stage_post_loop_inv [OF s]
      by (simp add: stage_post_def)
    then show ?thesis by (rule call_post_mono) (rule stage_post_trans [OF s(1)])
  qed
  have wait: "call_post (iteration_post b ?c) (wait_stage env s)"
    if "stage_post b ?c (Ok ()) s" "\<not> is_complete (fst s)" for s
  proof -
    have "call_post (iteration_post (fst s) ?c) (wait_stage env s)"
      using wait_stage_post [OF stage_post_loop_inv [OF that], of "fst (snd s)" env "snd (snd s)"] that
      by (simp add: stage_post_def)
    then show ?thesis
      by (rule call_post_mono)
         (use that in \<open>auto simp: stage_post_def iteration_post_def stage_ok_def intro: same_batch_trans\<close>)
  qed
  show ?thesis
    unfolding batch_iteration_def
    by (intro call_post_andthen [where P = "stage_post b ?c"] submit_stage_post assms)
       (auto intro!: call_post_andthen [where P = "stage_post b ?c"] chain check_stages_post wait ret)
qed

lemma run_batch_loop_post:
  fixes env :: "('w, 'a, 'm) tx_env_scheme"
  assumes "run_batch_loop env (b, self, w) = Some (r, s')" "loop_inv b" "0 < submit_chunk_size self"
  shows "same_batch b (fst s') \<and> batch_inv (fst s') \<and> (r = Ok () \<longrightarrow> is_complete (fst s'))"
proof -
  let ?P = "\<lambda>env s y. loop_inv (fst s) \<longrightarrow> 0 < submit_chunk_size (fst (snd s)) \<longrightarrow>
    same_batch (fst s) (fst (snd y)) \<and> batch_inv (fst (snd y)) \<and> (fst y = Ok () \<longrightarrow> is_complete (fst (snd y)))"
  have "?P env (b, self, w) (r, s')"
  proof (rule run_batch_loop.raw_induct [where P = ?P, OF _ assms(1)], intro impI)
    fix cont :: "('w, 'a, 'm) tx_env_scheme \<Rightarrow> ('a, 'w) batch_sys \<Rightarrow> (unit, ('a, 'w) batch_sys) call"
    fix env :: "('w, 'a, 'm) tx_env_scheme" and s y
    assume IH: "\<And>env s y. cont env s = Some y \<Longrightarrow> ?P env s y"
      and y: "andthen (batch_iteration env s) (\<lambda>return s. if return then Some (Ok (), s) else cont env s) = Some y"
      and inv: "loop_inv (fst s)" "0 < submit_chunk_size (fst (snd s))"
    have post: "call_post (iteration_post (fst s) (submit_chunk_size (fst (snd s)))) (batch_iteration env s)"
      using batch_iteration_post [OF inv, of env "snd (snd s)"] by simp
    obtain r1 s1 where 1: "batch_iteration env s = Some (r1, s1)"
      using y by (cases "batch_iteration env s") auto
    note p = call_postD [OF post 1]
    show "same_batch (fst s) (fst (snd y)) \<and> batch_inv (fst (snd y)) \<and> (fst y = Ok () \<longrightarrow> is_complete (fst (snd y)))"
    proof (cases "r1 = Ok False")
      case True
      then have "?P env s1 y" using IH [of env s1 y] y 1 by simp
      with p True inv(2) show ?thesis by (auto simp: iteration_post_def intro: same_batch_trans)
    next
      case False
      with y 1 p show ?thesis by (cases r1) (auto simp: iteration_post_def)
    qed
  qed
  with assms show ?thesis by simp
qed

lemma run_batch_cases:
  assumes "run_batch env request (self, w) = Some (Ok (sender, resp), s')"
  obtains (expired) w1 where "deadline_expired env (batch_new request) w = (True, w1)" "s' = (self, w1)"
      "resp = into_response (mark_unsubmitted_timed_out (batch_new request))" "sender = req_response request"
  | (ran) w1 b where "deadline_expired env (batch_new request) w = (False, w1)"
      "run_batch_loop env (batch_new request, self, w1) = Some (Ok (), b, s')"
      "resp = into_response b" "sender = req_response request"
proof -
  obtain expired w1 where d: "deadline_expired env (batch_new request) w = (expired, w1)"
    by (cases "deadline_expired env (batch_new request) w")
  show thesis
  proof (cases expired)
    case True
    with assms d show thesis by (auto simp: run_batch_def Let_def intro: expired)
  next
    case False
    with assms d show thesis
      by (auto simp: run_batch_def Let_def map_res_Ok split: Option.bind_splits intro: ran)
  qed
qed

lemma expired_complete: "is_complete (mark_unsubmitted_timed_out (batch_new request))"
proof -
  note s = batch_new_inv [of request, unfolded batch_inv_def, THEN conjunct1]
  let ?e = "Custom TimedOut ''tx batch timed out''"
  have "finishes (batch_new request) (mark_unsubmitted_error ?e (batch_new request))"
    by (rule mark_unsubmitted_spec(1) [OF s])
  then show ?thesis
    using mark_unsubmitted_spec(2) [OF s, where error = ?e] complete_iff [of "mark_unsubmitted_error ?e (batch_new request)"] s
    by (auto simp: mark_unsubmitted_timed_out_def finishes_def same_batch_def sound_def in_set_conv_nth batch_new_def Let_def)
qed

lemma run_batch_final:
  assumes "run_batch env request (self, w) = Some (Ok (sender, resp), s')" "0 < submit_chunk_size self"
  shows "\<exists>b. resp = into_response b \<and> sender = req_response request \<and> same_batch (batch_new request) b \<and>
    sound b \<and> is_complete b"
  using assms(1)
proof (cases rule: run_batch_cases)
  case (expired w1)
  have "finishes (batch_new request) (mark_unsubmitted_timed_out (batch_new request))"
    unfolding mark_unsubmitted_timed_out_def
    by (rule mark_unsubmitted_spec(1) [OF loop_inv_sound [OF loop_inv_new]])
  then show ?thesis
    using expired expired_complete [of request] loop_inv_sound [OF loop_inv_new, of request]
    by (auto simp: finishes_def)
next
  case (ran w1 b)
  then show ?thesis using run_batch_loop_post [OF ran(2) loop_inv_new assms(2)] by (auto simp: batch_inv_def)
qed

section \<open>What a batch answers\<close>

lemma complete_answered:
  assumes "sound b" "is_complete b" "r \<in> set (results b)"
  shows "\<exists>n e. r = Some (Ok n) \<or> r = Some (Err e)"
proof -
  have "None \<notin> set (results b)" "Some Panic \<notin> set (results b)"
    using assms(1,2) complete_iff [OF assms(1)] by (simp_all add: sound_def)
  with assms(3) have "r \<noteq> None" "r \<noteq> Some Panic" by metis+
  then show ?thesis by (metis option.exhaust res.exhaust)
qed

text \<open>
  C11.  A batch is answered in full.  Whenever \<^verbatim>\<open>run_batch\<close> returns (all buffers written, timed out,
  cancelled, or a failure of the ring or of \<^verbatim>\<open>poll\<close> at any point), the response goes to the sender of
  the request, it carries the caller's buffers, all of them and in their order, and every buffer
  has a result: none is left without one.
\<close>

theorem run_batch_answers:
  assumes "run_batch env request (self, w) = Some (Ok (sender, resp), s')" "0 < submit_chunk_size self"
  shows "sender = req_response request \<and> resp_bufs resp = req_bufs request \<and>
         length (resp_results resp) = length (req_bufs request) \<and>
         (\<forall>r \<in> set (resp_results resp). \<exists>n e. r = Some (Ok n) \<or> r = Some (Err e))"
proof -
  obtain b where b: "resp = into_response b" "sender = req_response request" "same_batch (batch_new request) b"
    "sound b" "is_complete b" using run_batch_final [OF assms] by blast
  with complete_answered [OF b(4,5)] show ?thesis by (auto simp: into_response_def same_batch_def sound_def)
qed

theorem run_batch_answers_witness:
  "case run_batch ts_env (example_request True) (ts_thread, ts_empty) of
     Some (Ok (sender, resp), s') \<Rightarrow>
       sender = req_response (example_request True) \<and> resp_bufs resp = req_bufs (example_request True) \<and>
       length (resp_results resp) = length (req_bufs (example_request True)) \<and>
       (\<forall>r \<in> set (resp_results resp). \<exists>n e. r = Some (Ok n) \<or> r = Some (Err e))
   | _ \<Rightarrow> False"
proof -
  let ?c = "run_batch ts_env (example_request True) (ts_thread, ts_empty)"
  have "case ?c of Some (Ok _, _) \<Rightarrow> True | _ \<Rightarrow> False" by code_simp
  then obtain sender resp s' where c: "?c = Some (Ok (sender, resp), s')" by (auto split: option.splits res.splits)
  have chunk: "0 < submit_chunk_size ts_thread" by (simp add: ts_thread_def)
  show ?thesis unfolding c option.case prod.case res.case by (rule run_batch_answers [OF c chunk])
qed

section \<open>Failures that leave writes in flight\<close>

text \<open>
  After a failure of \<^verbatim>\<open>poll\<close> the caller gets its buffers back while the kernel still holds the
  writes that read from them: the batch is answered with errors for all three buffers, and two
  writes, to the addresses of the first two buffers, are still in the kernel.
\<close>

theorem failed_wait_returns_buffers_in_flight:
  "case run_batch ts_env (example_request False) (ts_thread, ts_empty\<lparr>ts_poll_fails := True\<rparr>) of
     Some (Ok (sender, resp), self, w) \<Rightarrow>
       resp_bufs resp = req_bufs (example_request False) \<and>
       resp_results resp = [Some (Err (Os EINVAL)), Some (Err (Os EINVAL)), Some (Err (Os EINVAL))] \<and>
       map bytes_ptr (take 2 (resp_bufs resp)) = [100, 150] \<and>
       ts_log w = [Write 5 100 20 (write_user_data 0) False, Write 5 150 21 (write_user_data 1) False] \<and>
       ts_held w = [(write_user_data 0, 20), (write_user_data 1, 21)]
   | _ \<Rightarrow> False"
  by code_simp

text \<open>
  And the next batch is answered with the results of the abandoned one: the tag of a write is
  its index in the batch and does not name the batch, so the late completions (20 and 21 bytes)
  are taken for those of the next batch, whose buffers are 9 bytes each.
\<close>

definition next_request :: "nat TxBatchRequest" where
  "next_request = (example_request False)\<lparr>req_bufs := replicate 2 \<lparr> bytes_ptr = 300, bytes_len = 9 \<rparr>\<rparr>"

theorem stale_completions_answer_next_batch:
  "case run_batch ts_env (example_request False) (ts_thread, ts_empty\<lparr>ts_poll_fails := True\<rparr>) of
     Some (Ok _, self, w) \<Rightarrow>
       (case run_batch ts_env next_request (self, w\<lparr>ts_poll_fails := False\<rparr>) of
          Some (Ok (sender, resp), _) \<Rightarrow> resp_results resp = [Some (Ok 20), Some (Ok 21)]
        | _ \<Rightarrow> False)
   | _ \<Rightarrow> False"
  by code_simp

end
