(* ===== verification/Tx_Log.thy ===== *)
theory Tx_Log
  imports Tx_Correct
begin

text \<open>
  What a batch hands to the ring.  The locale \<open>tx_recorder\<close> is a ring that records the entries
  pushed to it; inside it the writes a batch pushes are computed, on every path of the loop.
\<close>

section \<open>Waiting keeps what its calls keep\<close>

lemma drain_shutdown_keeps:
  fixes env :: "('w, 'a, 'm) tx_env_scheme"
  assumes recv: "\<And>w r w'. I w \<Longrightarrow> tx_try_recv env w = (r, w') \<Longrightarrow> I w'"
    and send: "\<And>a resp w. I w \<Longrightarrow> I (response_send env a resp w)"
    and run: "drain_shutdown_commands env s = Some (r, s')" "I (snd s)"
  shows "I (snd s')"
proof -
  let ?P = "\<lambda>(e :: ('w, 'a, 'm) tx_env_scheme) s y. e = env \<longrightarrow> I (snd s) \<longrightarrow> I (snd (snd y))"
  have "?P env s (r, s')"
  proof (rule drain_shutdown_commands.raw_induct [where P = ?P, OF _ run(1)], intro impI)
    fix cont :: "('w, 'a, 'm) tx_env_scheme \<Rightarrow> TxDriverThread \<times> 'w \<Rightarrow> (unit, TxDriverThread \<times> 'w) call"
    fix e s y
    assume IH: "\<And>e s y. cont e s = Some y \<Longrightarrow> ?P e s y"
      and y: "(case tx_try_recv e (snd s) of
        (Received command, w) \<Rightarrow>
          (case command of
             RunBatch request \<Rightarrow>
               (let batch = mark_unsubmitted_error (Custom Interrupted ''tx driver shutting down'')
                              (batch_new request)
                in cont e (fst s, response_send e (response batch) (into_response batch) w))
           | TxShutdown \<Rightarrow> Some (Ok (), (fst s)\<lparr>tx_shutdown_requested := True\<rparr>, w))
      | (Empty, w) \<Rightarrow> Some (Ok (), fst s, w)
      | (Closed, w) \<Rightarrow> Some (Ok (), (fst s)\<lparr>tx_shutdown_requested := True\<rparr>, w)) = Some y"
      and eq: "e = env" "I (snd s)"
    obtain c w1 where c: "tx_try_recv env (snd s) = (c, w1)" by (cases "tx_try_recv env (snd s)")
    have w1: "I w1" using recv [OF eq(2) c] .
    show "I (snd (snd y))"
      using y c w1 eq IH [of env "(fst s, _)"] send
      by (auto simp: Let_def split: try_recv_result.splits TxDriverCommand.splits)
  qed
  with run(2) show ?thesis by simp
qed

lemma tx_wait_keeps:
  assumes "\<And>fds t w r w'. I w \<Longrightarrow> poll_fds env fds t w = (r, w') \<Longrightarrow> I w'"
    and read: "\<And>fd w r w'. I w \<Longrightarrow> fd_read_u64 env fd w = (r, w') \<Longrightarrow> I w'"
    and "\<And>w r w'. I w \<Longrightarrow> tx_try_recv env w = (r, w') \<Longrightarrow> I w'"
    and "\<And>a resp w. I w \<Longrightarrow> I (response_send env a resp w)"
    and "I w"
  shows "call_post (\<lambda>r s. I (snd s)) (tx_wait_for_activity env timeout (self, w))"
proof -
  let ?Q = "\<lambda>r s. I (snd s)"
  have drain: "call_post ?Q (on_world (drain_eventfd env fd w) s1)" if "I w" for fd w s1
    by (rule call_post_on_world) (use drain_eventfd_keeps [where I = I, OF read _ that] in simp)
  have cmds: "call_post ?Q (drain_shutdown_commands env s1)" if "I (snd s1)" for s1
    by (rule call_postI) (rule drain_shutdown_keeps [where I = I, OF assms(3,4) _ that])
  have poll: "call_post ?Q (on_world (poll_retry env fds t w) self)" for fds t
    by (rule call_post_on_world) (use poll_retry_keeps [where I = I, OF assms(1) _ assms(5)] in simp)
  show ?thesis
    unfolding tx_wait_for_activity_def Let_def prod.case
    by (rule call_post_andthen [where P = ?Q, OF poll];
        (auto intro!: call_post_andthen [where P = ?Q] drain cmds)?)
qed

section \<open>The writes of a log\<close>

fun write_part :: "sqe \<Rightarrow> (i32 \<times> usize \<times> u32 \<times> u64) option" where
  "write_part (Write fd p l ud link) = Some (fd, p, l, ud)"
| "write_part _ = None"

definition writes :: "sqe list \<Rightarrow> (i32 \<times> usize \<times> u32 \<times> u64) list" where
  "writes es = List.map_filter write_part es"

text \<open>The write of buffer \<open>i\<close>: the device, the buffer's address and length, and its tag.\<close>

definition write_of :: "i32 \<Rightarrow> Bytes list \<Rightarrow> nat \<Rightarrow> i32 \<times> usize \<times> u32 \<times> u64" where
  "write_of fd bs i = (fd, bytes_ptr (bs ! i), of_nat (bytes_len (bs ! i)), write_user_data i)"

lemma writes_simps [simp]:
  "writes [] = []" "writes (es @ fs) = writes es @ writes fs" "writes [AsyncCancel t u] = []"
  "writes [build_write_entry fd b i link] = [write_of fd (bufs b) i]"
  by (simp_all add: writes_def map_filter_def write_of_def build_write_entry_def)

lemma writes_chain:
  "writes (chain_entries fd b n) = map (write_of fd (bufs b)) [next_to_submit b ..< next_to_submit b + n]"
proof -
  have "writes (map (\<lambda>k. build_write_entry fd b (m + k) (f k)) ks) = map (write_of fd (bufs b)) (map ((+) m) ks)"
    for m ks f
    by (induction ks) (simp_all add: writes_def map_filter_def write_of_def build_write_entry_def)
  moreover have "map ((+) m) [0 ..< n] = [m ..< m + n]" for m
    by (induction n) simp_all
  ultimately show ?thesis unfolding chain_entries_def by metis
qed

lemma upt_join: "i \<le> j \<Longrightarrow> j \<le> k \<Longrightarrow> [i ..< j] @ [j ..< k] = [i ..< k]"
  by (metis le_add_diff_inverse upt_add_eq_append)

text \<open>Finishing buffers does not move \<open>next_to_submit\<close>.\<close>

definition same_front :: "'a ActiveTxBatch \<Rightarrow> 'a ActiveTxBatch \<Rightarrow> bool" where
  "same_front b b' \<longleftrightarrow> bufs b' = bufs b \<and> next_to_submit b' = next_to_submit b"

lemma same_front_marks [simp]:
  "same_front b (mark_driver_error e b)" "same_front b (mark_unsubmitted_error e b)"
proof -
  show "same_front b (mark_driver_error e b)"
    unfolding mark_driver_error_def
    by (rule fold_upt_induct [where P = "\<lambda>_ s. same_front b s"])
       (simp_all add: same_front_def mark_driver_at_def Let_def)
  show "same_front b (mark_unsubmitted_error e b)"
    unfolding mark_unsubmitted_error_def
    by (rule fold_upt_induct [where P = "\<lambda>_ s. same_front b s"])
       (simp_all add: same_front_def mark_unsubmitted_at_def)
qed

lemma same_front_cqes: "same_front b (fold tx_handle_cqe entries b)"
proof (induction entries arbitrary: b)
  case (Cons e es)
  have "same_front b (tx_handle_cqe e b)"
    by (simp add: same_front_def tx_handle_cqe_def complete_write_def split: option.split TxUserDataKind.split)
  with Cons [of "tx_handle_cqe e b"] show ?case by (simp add: same_front_def)
qed (simp add: same_front_def)

lemma same_front_cancelled: "same_front (b\<lparr>cancel_requested := True\<rparr>) b' \<Longrightarrow> same_front b b'"
  by (simp add: same_front_def)

locale tx_recorder =
  fixes env :: "('w, 'a, 'm) tx_env_scheme" and log :: "'w \<Rightarrow> sqe list"
  assumes push_log: "sq_push env e w = (ok, w') \<Longrightarrow> log w' = log w @ (if ok then [e] else [])"
    and chain_log: "sq_push_multiple env es w = (ok, w') \<Longrightarrow> log w' = log w @ (if ok then es else [])"
    and submit_log: "ring_submit env w = (r, w') \<Longrightarrow> log w' = log w"
    and collect_log: "cq_collect env w = (entries, w') \<Longrightarrow> log w' = log w"
    and poll_log: "poll_fds env fds timeout w = (revents, w') \<Longrightarrow> log w' = log w"
    and read_log: "fd_read_u64 env fd w = (n, w') \<Longrightarrow> log w' = log w"
    and recv_log: "tx_try_recv env w = (c, w') \<Longrightarrow> log w' = log w"
    and send_log: "log (response_send env a resp w) = log w"
    and flag_log: "flag_load env f w = (raised, w') \<Longrightarrow> log w' = log w"
    and now_log: "instant_now env w = (now, w') \<Longrightarrow> log w' = log w"
begin

lemma retries_log: "retries env w w' \<Longrightarrow> log w' = log w"
proof (induction rule: rtranclp_induct)
  case (step y z)
  from step(2) have "log z = log y" by cases (auto dest: push_log chain_log submit_log)
  with step(3) show ?case by simp
qed simp

lemma push_retry_log:
  "push_retry env e w = Some (r, w') \<Longrightarrow> log w' = log w @ (if r = Ok () then [e] else [])"
  using push_retry_cases [of env e w r w'] by (auto dest!: retries_log push_log)

text \<open>A call hands over the buffers it advances the batch by, once each and in order.\<close>

definition hands_over :: "TxDriverThread \<Rightarrow> 'a ActiveTxBatch \<Rightarrow> 'w \<Rightarrow> 'a ActiveTxBatch \<Rightarrow> 'w \<Rightarrow> bool" where
  "hands_over self b w b' w' \<longleftrightarrow>
     bufs b' = bufs b \<and> next_to_submit b \<le> next_to_submit b' \<and>
     writes (log w') = writes (log w) @
       map (write_of (tx_device self) (bufs b)) [next_to_submit b ..< next_to_submit b']"

lemma hands_over_refl: "log w' = log w \<Longrightarrow> hands_over self b w b w'"
  by (simp add: hands_over_def)

lemma hands_over_trans:
  "hands_over self b w b1 w1 \<Longrightarrow> hands_over self b1 w1 b2 w2 \<Longrightarrow> hands_over self b w b2 w2"
  unfolding hands_over_def using upt_join [of "next_to_submit b" "next_to_submit b1" "next_to_submit b2"]
  by (auto simp flip: map_append)

lemma hands_over_front:
  "hands_over self b w b1 w1 \<Longrightarrow> same_front b1 b2 \<Longrightarrow> writes (log w2) = writes (log w1) \<Longrightarrow>
   hands_over self b w b2 w2"
  by (simp add: hands_over_def same_front_def)

lemma submit_write_log:
  assumes "submit_write env self (next_to_submit b) (b, w) = Some (r, b', w')"
  shows "log w' = log w @ (if r = Ok () then [build_write_entry (tx_device self) b (next_to_submit b) False] else [])"
  using assms
  by (auto simp: submit_write_def tx_submit_entry_def andthen_Some_iff on_world_Some_iff dest!: push_retry_log)

lemma submit_round_log:
  "submit_round env self budget (b, w) = Some (r, b', w') \<Longrightarrow> hands_over self b w b' w'"
proof (induction budget arbitrary: b w r)
  case (Suc budget)
  show ?case
  proof (cases "next_to_submit b < length (bufs b)")
    case False
    with Suc.prems show ?thesis by (simp add: hands_over_refl)
  next
    case True
    obtain r1 b1 w1 where sw: "submit_write env self (next_to_submit b) (b, w) = Some (r1, b1, w1)"
      using Suc.prems True by (cases "submit_write env self (next_to_submit b) (b, w)") auto
    note log1 = submit_write_log [OF sw]
    show ?thesis
    proof (cases "r1 = Ok ()")
      case False
      then have "b' = b" "w' = w1"
        using submit_write_chain [OF sw] Suc.prems True sw by (cases r1; auto)+
      with False log1 show ?thesis by (simp add: hands_over_refl)
    next
      case r1: True
      let ?b = "b1\<lparr>next_to_submit := next_to_submit b1 + 1\<rparr>"
      have b1: "?b = mark_chain 1 b" using submit_write_chain [OF sw] r1 by auto
      obtain r2 where rest: "submit_round env self budget (mark_chain 1 b, w1) = Some (r2, b', w')"
        using Suc.prems True sw r1 b1 by (auto simp: andthen_Some_iff)
      have "hands_over self b w (mark_chain 1 b) w1"
        using log1 r1 mark_chain_frame(1,3) [where b = b and n = 1] by (simp add: hands_over_def same_batch_def)
      with Suc.IH [OF rest] show ?thesis by (rule hands_over_trans [rotated])
    qed
  qed
qed (simp add: hands_over_refl)

lemma submit_unordered_log:
  assumes "submit_unordered env self (b, w) = Some (r, b', w')"
  shows "hands_over self b w b' w'"
  using assms
proof (rule submit_unordered_round)
  fix r1 w1
  assume "submit_round env self (submit_chunk_size self) (b, w) = Some (r1, b', w1)"
    and "w' = w1 \<or> (\<exists>r2. ring_submit env w1 = (r2, w'))"
  then show ?thesis using submit_round_log submit_log by (fastforce simp: hands_over_def)
qed

lemma submit_ordered_log:
  assumes "submit_next_ordered env self (b, w) = Some (r, b', w')"
  shows "hands_over self b w b' w'"
proof (cases "in_flight b \<noteq> 0 \<or> next_to_submit b \<ge> length (bufs b)")
  case True
  with assms show ?thesis by (auto simp: submit_next_ordered_def hands_over_refl)
next
  case False
  with assms have "submit_ordered_linked env self (b, w) = Some (r, b', w')" by (simp add: submit_next_ordered_def)
  from submit_ordered_cases [OF this] show ?thesis
  proof (elim disjE exE conjE)
    fix n
    assume b': "b' = mark_chain n b" and "chain_pushed env self n b w (r, w')"
    then obtain w0 w1 where "retries env w w0" "ring_submit env w1 = (r, w')"
      "sq_push_multiple env (chain_entries (tx_device self) b n) w0 = (True, w1)"
      by (auto simp: chain_pushed_def)
    then have "log w' = log w @ chain_entries (tx_device self) b n"
      by (auto dest!: retries_log chain_log submit_log)
    with b' show ?thesis
      using mark_chain_frame(1,3) [where b = b and n = n] by (simp add: hands_over_def writes_chain same_batch_def)
  qed (simp add: hands_over_refl retries_log)
qed

lemma submit_cancels_log:
  assumes "submit_cancels env b w = Some (r, w')"
  shows "writes (log w') = writes (log w)"
proof -
  have cancels: "writes (log w') = writes (log w)" if "push_cancels env is w = Some (r, w')" for "is" w r w'
    using that
  proof (induction "is" arbitrary: w)
    case (Cons i "is")
    then show ?case by (auto simp: tx_submit_entry_def andthen_Some_iff dest!: push_retry_log)
  qed simp
  from assms show ?thesis
    by (auto simp: submit_cancels_def andthen_Some_iff dest!: cancels submit_log)
qed

text \<open>The stages of the loop.\<close>

definition log_post :: "'a ActiveTxBatch \<Rightarrow> TxDriverThread \<Rightarrow> 'w \<Rightarrow> ('a, 'w) batch_sys \<Rightarrow> bool" where
  "log_post b self w s \<longleftrightarrow>
     hands_over self b w (fst s) (snd (snd s)) \<and> tx_device (fst (snd s)) = tx_device self"

lemma log_postI [intro]:
  "hands_over self b w b' w' \<Longrightarrow> tx_device self' = tx_device self \<Longrightarrow> log_post b self w (b', self', w')"
  by (simp add: log_post_def)

lemma log_post_trans:
  "log_post b self w s \<Longrightarrow> log_post (fst s) (fst (snd s)) (snd (snd s)) s' \<Longrightarrow> log_post b self w s'"
  unfolding log_post_def
  by (elim conjE, intro conjI, erule hands_over_trans) (simp_all add: hands_over_def)

lemma submit_stage_log: "call_post (\<lambda>_. log_post b self w) (submit_stage env (b, self, w))"
proof -
  let ?m = "if keep_order b then submit_next_ordered env self (b, w) else submit_unordered env self (b, w)"
  have "call_post (\<lambda>_. log_post b self w) (on_batch ?m self)"
    by (rule call_postI) (auto simp: on_batch_Some_iff split: if_splits dest: submit_ordered_log submit_unordered_log)
  then have "call_post (\<lambda>_. log_post b self w) (on_err (on_batch ?m self) batch_error)"
    by (rule call_post_on_err)
       (auto simp: batch_error_def log_post_def intro: hands_over_front same_front_marks)
  then show ?thesis by (auto simp: submit_stage_def hands_over_refl split: if_splits)
qed

lemma cancel_stage_log:
  assumes "mark = mark_unsubmitted_error e"
  shows "call_post (\<lambda>_. log_post b self w) (cancel_stage env mark (b, self, w))"
proof -
  let ?b = "mark (b\<lparr>cancel_requested := True\<rparr>)"
  let ?self = "self\<lparr>tx_shared := snd (request_cancel (tx_shared self))\<rparr>"
  have front: "same_front b ?b" unfolding assms by (rule same_front_cancelled) simp
  have "call_post (\<lambda>_. log_post b self w) (on_batch (on_world (submit_cancels env ?b w) ?b) ?self)"
  proof (rule call_postI)
    fix r s
    assume "on_batch (on_world (submit_cancels env ?b w) ?b) ?self = Some (r, s)"
    then obtain w' where s: "submit_cancels env ?b w = Some (r, w')" "s = (?b, ?self, w')"
      by (auto simp: on_batch_Some_iff on_world_Some_iff)
    have "hands_over self b w ?b w'"
      by (rule hands_over_front [OF hands_over_refl [OF refl] front submit_cancels_log [OF s(1)]])
    then show "log_post b self w s" by (simp add: s(2) log_post_def)
  qed
  then have "call_post (\<lambda>_. log_post b self w) (on_err (on_batch (on_world (submit_cancels env ?b w) ?b) ?self) batch_error)"
    by (rule call_post_on_err)
       (auto simp: batch_error_def log_post_def intro: hands_over_front same_front_marks)
  then show ?thesis by (simp add: cancel_stage_def Let_def)
qed

lemma log_post_start:
  "log w1 = log w \<Longrightarrow> call_post (\<lambda>_. log_post b self w1) m \<Longrightarrow> call_post (\<lambda>_. log_post b self w) m"
  by (erule call_post_mono) (simp add: log_post_def hands_over_def)

lemma deadline_expired_log: "deadline_expired env b w = (x, w') \<Longrightarrow> log w' = log w"
  by (auto simp: deadline_expired_def split: option.splits prod.splits dest: now_log)

lemma check_stages_log:
  "call_post (\<lambda>_. log_post b self w) (check_external_cancel env (b, self, w))"
  "call_post (\<lambda>_. log_post b self w) (check_deadline env (b, self, w))"
proof -
  obtain x1 w1 where 1: "external_cancel_requested env b w = (x1, w1)" by (cases "external_cancel_requested env b w")
  then have l1: "log w1 = log w" by (simp add: external_cancel_requested_def flag_log)
  obtain x2 w2 where 2: "deadline_expired env b w = (x2, w2)" by (cases "deadline_expired env b w")
  have l2: "log w2 = log w" using deadline_expired_log [OF 2] .
  show "call_post (\<lambda>_. log_post b self w) (check_external_cancel env (b, self, w))"
    using log_post_start [OF l1 cancel_stage_log [OF ext [OF mark_unsubmitted_cancelled_def]]] l1
    by (auto simp: check_external_cancel_def 1 intro: hands_over_refl)
  show "call_post (\<lambda>_. log_post b self w) (check_deadline env (b, self, w))"
    using log_post_start [OF l2 cancel_stage_log [OF ext [OF mark_unsubmitted_timed_out_def]]] l2
    by (auto simp: check_deadline_def 2 intro: hands_over_refl)
qed

lemma wait_stage_log: "call_post (\<lambda>_. log_post b self w) (wait_stage env (b, self, w))"
proof -
  obtain timeout w1 where t: "wait_timeout env b w = (timeout, w1)" by (cases "wait_timeout env b w")
  then have l1: "log w1 = log w"
    by (auto simp: wait_timeout_def split: if_splits option.splits prod.splits dest: now_log)
  have wait: "call_post (\<lambda>r s. same_thread self (fst s) \<and> log (snd s) = log w)
      (tx_wait_for_activity env timeout (self, w1))"
    by (rule call_post_conj [OF tx_wait_frame tx_wait_keeps])
       (auto simp: l1 send_log dest: poll_log read_log recv_log)
  show ?thesis
  proof (cases "tx_wait_for_activity env timeout (self, w1)")
    case None
    then show ?thesis using t by (simp add: wait_stage_def)
  next
    case (Some y)
    obtain r2 self2 w2 where y: "y = (r2, self2, w2)" by (cases y)
    have w2: "same_thread self self2" "log w2 = log w" using call_postD [OF wait] Some y by fastforce+
    obtain es w3 where es: "cq_collect env w2 = (es, w3)" by (cases "cq_collect env w2")
    show ?thesis
      using Some y t es w2 collect_log [OF es] same_front_cqes [of b es] same_front_marks(1) [of b]
      by (cases r2) (auto simp: wait_stage_def tx_process_cqes_def log_post_def hands_over_def same_front_def same_thread_def)
  qed
qed

lemma log_post_next:
  assumes "log_post b self w s" "\<And>b self w. call_post (\<lambda>_. log_post b self w) (stage (b, self, w))"
  shows "call_post (\<lambda>_. log_post b self w) (stage s)"
proof -
  have "call_post (\<lambda>_. log_post (fst s) (fst (snd s)) (snd (snd s))) (stage s)"
    using assms(2) [of "fst s" "fst (snd s)" "snd (snd s)"] by simp
  then show ?thesis by (rule call_post_mono) (rule log_post_trans [OF assms(1)])
qed

lemma batch_iteration_log: "call_post (\<lambda>_. log_post b self w) (batch_iteration env (b, self, w))"
proof -
  note stages = log_post_next [where stage = "check_external_cancel env", OF _ check_stages_log(1)]
    log_post_next [where stage = "check_deadline env", OF _ check_stages_log(2)]
    log_post_next [where stage = "wait_stage env", OF _ wait_stage_log]
  show ?thesis
    unfolding batch_iteration_def
    by (intro call_post_andthen [where P = "\<lambda>_. log_post b self w"] submit_stage_log)
       (auto intro!: call_post_andthen [where P = "\<lambda>_. log_post b self w"] stages del: log_postI)
qed

lemma run_batch_loop_log:
  assumes "run_batch_loop env (b, self, w) = Some (r, s')"
  shows "log_post b self w s'"
proof -
  let ?P = "\<lambda>e s y. e = env \<longrightarrow> log_post (fst s) (fst (snd s)) (snd (snd s)) (snd y)"
  have "?P env (b, self, w) (r, s')"
  proof (rule run_batch_loop.raw_induct [where P = ?P, OF _ assms], intro impI)
    fix cont :: "('w, 'a, 'm) tx_env_scheme \<Rightarrow> ('a, 'w) batch_sys \<Rightarrow> (unit, ('a, 'w) batch_sys) call"
    fix e s y
    assume IH: "\<And>e s y. cont e s = Some y \<Longrightarrow> ?P e s y"
      and y: "andthen (batch_iteration e s) (\<lambda>return s. if return then Some (Ok (), s) else cont e s) = Some y"
      and eq: "e = env"
    obtain r1 s1 where 1: "batch_iteration env s = Some (r1, s1)"
      using y eq by (cases "batch_iteration env s") auto
    have post: "log_post (fst s) (fst (snd s)) (snd (snd s)) s1"
      by (rule call_postD [OF batch_iteration_log]) (simp add: 1)
    show "log_post (fst s) (fst (snd s)) (snd (snd s)) (snd y)"
    proof (cases "r1 = Ok False")
      case True
      then have "?P env s1 y" using IH [of env s1 y] y 1 eq by simp
      then show ?thesis using log_post_trans [OF post] by simp
    next
      case False
      with y 1 eq post show ?thesis by (cases r1) auto
    qed
  qed
  then show ?thesis by simp
qed

text \<open>
  The whole batch: it pushes a prefix of its buffers, each once and in order, and a buffer
  outside that prefix is not reported as written.
\<close>

lemma run_batch_log:
  assumes "run_batch env request (self, w) = Some (Ok (sender, resp), self', w')" "0 < submit_chunk_size self"
  shows "\<exists>n \<le> length (req_bufs request).
    writes (log w') = writes (log w) @ map (write_of (tx_device self) (req_bufs request)) [0 ..< n] \<and>
    (\<forall>i < length (req_bufs request). n \<le> i \<longrightarrow> (\<exists>e. resp_results resp ! i = Some (Err e)))"
  using assms(1)
proof (cases rule: run_batch_cases)
  case (expired w1)
  let ?b = "batch_new request"
  have sound: "sound ?b" by (rule loop_inv_sound [OF loop_inv_new])
  have "\<exists>e. resp_results resp ! i = Some (Err e)" if "i < length (req_bufs request)" for i
    using mark_unsubmitted_spec(2) [OF sound, of i] that
    by (simp add: expired into_response_def mark_unsubmitted_timed_out_def batch_new_def Let_def)
  then show ?thesis
    using deadline_expired_log [OF expired(1)] expired(2) by (intro exI [of _ 0]) simp
next
  case (ran w1 b)
  have post: "hands_over self (batch_new request) w1 b w'"
    using run_batch_loop_log [OF ran(2)] by (simp add: log_post_def)
  have inv: "batch_inv b" and b: "same_batch (batch_new request) b" "sound b" "is_complete b"
    using run_batch_loop_post [OF ran(2) loop_inv_new assms(2)] by (auto simp: batch_inv_def)
  let ?n = "next_to_submit b"
  have bufs: "bufs b = req_bufs request" using b(1) by (simp add: same_batch_def)
  show ?thesis
  proof (intro exI [of _ ?n] conjI allI impI)
    show "?n \<le> length (req_bufs request)" using inv bufs by (simp add: batch_inv_def)
    show "writes (log w') = writes (log w) @ map (write_of (tx_device self) (req_bufs request)) [0 ..< ?n]"
      using post deadline_expired_log [OF ran(1)] by (simp add: hands_over_def)
    fix i
    assume i: "i < length (req_bufs request)" "?n \<le> i"
    have "results b ! i \<noteq> None" "results b ! i \<noteq> Some Panic"
    proof -
      have "results b ! i \<in> set (results b)" using b(2) i(1) bufs by (simp add: sound_def)
      then show "results b ! i \<noteq> None" "results b ! i \<noteq> Some Panic"
        using b(2,3) complete_iff [OF b(2)] unfolding sound_def by metis+
    qed
    moreover have "\<forall>k. results b ! i \<noteq> Some (Ok k)"
      using inv i bufs by (auto simp: batch_inv_def sound_def)
    ultimately show "\<exists>e. resp_results resp ! i = Some (Err e)"
      by (simp add: ran(3) into_response_def) (metis option.exhaust res.exhaust)
  qed
qed

end

section \<open>The driver hands over each buffer once\<close>

lemma ts_accept_log [simp]: "ts_log (fold ts_accept es w) = ts_log w"
proof (induction es arbitrary: w)
  case (Cons e es)
  have "ts_log (ts_accept e w) = ts_log w" by (cases e) auto
  with Cons show ?case by simp
qed simp

interpretation ts_recorder: tx_recorder ts_env ts_log
  by unfold_locales
     (auto simp: ts_push_def ts_submit_def ts_poll_def ts_read_def split: if_splits list.splits)

text \<open>
  C12.  A batch hands each buffer to the ring at most once, in order.  For a ring that records the
  entries pushed to it: whatever happens during the batch (full submission queues, chunks,
  linked chains, timeouts, cancellation, failures), the writes pushed are those of a prefix of
  the buffers, in the caller's order, each with its buffer's address and length, and a buffer
  that was not handed over is answered with an error, never as written.
\<close>

theorem batch_writes_once_in_order:
  assumes ring: "tx_recorder env log"
    and "run_batch env request (self, w) = Some (Ok (sender, resp), self', w')" "0 < submit_chunk_size self"
  shows "\<exists>n \<le> length (req_bufs request).
    writes (log w') = writes (log w) @ map (write_of (tx_device self) (req_bufs request)) [0 ..< n] \<and>
    (\<forall>i < length (req_bufs request). n \<le> i \<longrightarrow> (\<exists>e. resp_results resp ! i = Some (Err e)))"
  by (rule tx_recorder.run_batch_log [OF assms])

theorem batch_writes_once_in_order_witness:
  "case run_batch ts_env (example_request True) (ts_thread, ts_empty) of
     Some (Ok (sender, resp), self', w') \<Rightarrow>
       \<exists>n \<le> length (req_bufs (example_request True)).
         writes (ts_log w') = writes (ts_log ts_empty) @
           map (write_of (tx_device ts_thread) (req_bufs (example_request True))) [0 ..< n] \<and>
         (\<forall>i < length (req_bufs (example_request True)). n \<le> i \<longrightarrow>
            (\<exists>e. resp_results resp ! i = Some (Err e)))
   | _ \<Rightarrow> False"
proof -
  let ?c = "run_batch ts_env (example_request True) (ts_thread, ts_empty)"
  have "case ?c of Some (Ok _, _) \<Rightarrow> True | _ \<Rightarrow> False" by code_simp
  then obtain sender resp self' w' where c: "?c = Some (Ok (sender, resp), self', w')"
    by (auto split: option.splits res.splits)
  have chunk: "0 < submit_chunk_size ts_thread" by (simp add: ts_thread_def)
  show ?thesis
    unfolding c option.case prod.case res.case
    by (rule batch_writes_once_in_order [OF ts_recorder.tx_recorder_axioms c chunk])
qed

end
