(* ===== verification/Tx_Live.thy ===== *)
theory Tx_Live
  imports Tx_Log "HOL-Library.Multiset"
begin

text \<open>
  A batch ends.  The locale \<open>tx_kernel\<close> states what the loop of \<^verbatim>\<open>run_batch\<close> needs of io_uring, \<^verbatim>\<open>poll\<close>,
  the eventfds and the channels: a submit makes room in the submission queue and hands over what
  was pushed, every submitted write is completed once, a \<^verbatim>\<open>poll\<close> that returns reports a completion or
  uses up one of finitely many other events (signals, timeouts, commands), and nothing panics.
\<close>

section \<open>Pending writes and their tags\<close>

definition pending_tags :: "'a ActiveTxBatch \<Rightarrow> u64 set" where
  "pending_tags b = write_user_data ` {i. i < length (bufs b) \<and> pending b ! i}"

lemma finite_pending_tags [simp]: "finite (pending_tags b)"
  by (simp add: pending_tags_def)

text \<open>The user data of entries; the entries of a chain carry the tags of its buffers.\<close>

fun entry_user_data :: "sqe \<Rightarrow> u64" where
  "entry_user_data (ReadMulti fd off grp ud) = ud"
| "entry_user_data (AsyncCancel target ud) = ud"
| "entry_user_data (Write fd p l ud link) = ud"

lemma entry_user_data_write [simp]: "entry_user_data (build_write_entry fd b i link) = write_user_data i"
  by (simp add: build_write_entry_def)

lemma chain_user_data:
  "image_mset entry_user_data (mset (chain_entries fd b n)) =
     image_mset write_user_data (mset_set {next_to_submit b ..< next_to_submit b + n})"
proof -
  have "image_mset entry_user_data (mset (map (\<lambda>k. build_write_entry fd b (m + k) (f k)) ks)) =
      image_mset write_user_data (image_mset ((+) m) (mset ks))" for m ks f
    by (induction ks) simp_all
  then have "image_mset entry_user_data (mset (chain_entries fd b n)) =
      image_mset write_user_data (image_mset ((+) (next_to_submit b)) (mset [0 ..< n]))"
    unfolding chain_entries_def .
  also have "image_mset ((+) (next_to_submit b)) (mset [0 ..< n]) = mset_set {next_to_submit b ..< next_to_submit b + n}"
    by (simp add: image_mset_mset_set image_add_atLeastLessThan add.commute flip: mset_set_set)
  finally show ?thesis .
qed

lemma pending_chain:
  "length (pending b) = length (bufs b) \<Longrightarrow> next_to_submit b + n \<le> length (bufs b) \<Longrightarrow> i < length (bufs b) \<Longrightarrow>
   length (pending (mark_chain n b)) = length (bufs b) \<and>
   (pending (mark_chain n b) ! i \<longleftrightarrow> pending b ! i \<or> next_to_submit b \<le> i \<and> i < next_to_submit b + n)"
proof (induction n)
  case (Suc n)
  have "pending (mark_chain 1 c) = (pending c)[next_to_submit c := True]" for c :: "'a ActiveTxBatch"
    by (simp add: mark_chain_def mark_submitted_at_def)
  with Suc show ?case
    by (auto simp: mark_chain_Suc mark_chain_frame(3) nth_list_update simp del: One_nat_def)
qed auto

lemma kind_write_iff:
  assumes "i < 2 ^ 40"
  shows "user_data_kind u = Some (WriteData i) \<longleftrightarrow> u = write_user_data i"
proof
  assume "user_data_kind u = Some (WriteData i)"
  then have "u AND NOT (mask 40) = TX_WRITE_KIND" "i = unat (u AND mask 40)"
    by (auto simp: user_data_kind_def index_mask kind_mask Let_def split: if_splits)
  then show "u = write_user_data i"
    using user_data_split [of u] by (simp only: write_user_data_def index_mask)
next
  assume "u = write_user_data i"
  then show "user_data_kind u = Some (WriteData i)"
    using assms kind_low_bits(5)
    by (simp add: user_data_kind_def write_user_data_def index_mask kind_mask
        kind_or_index kind_low_bits(1-4) index_bits del: power_numeral)
qed

lemma pending_tags_chain:
  assumes "loop_inv b" "next_to_submit b + n \<le> length (bufs b)"
  shows "pending_tags (mark_chain n b) =
    pending_tags b \<union> write_user_data ` {next_to_submit b ..< next_to_submit b + n}"
proof -
  have len: "length (pending b) = length (bufs b)" using assms(1) by (simp add: loop_inv_def batch_inv_def sound_def)
  have "bufs (mark_chain n b) = bufs b" using mark_chain_frame(1) [of b n] by (simp add: same_batch_def)
  moreover have "{i. i < length (bufs b) \<and> pending (mark_chain n b) ! i} =
      {i. i < length (bufs b) \<and> pending b ! i} \<union> {next_to_submit b ..< next_to_submit b + n}"
    using pending_chain [OF len assms(2)] assms(2) by auto
  ultimately show ?thesis by (simp add: pending_tags_def image_Un)
qed

text \<open>Reaping completions.\<close>

lemma handle_cqe_pending:
  assumes "length (bufs b) \<le> 2 ^ 40" "length (pending b) = length (bufs b)" "i < length (bufs b)"
  shows "pending (tx_handle_cqe c b) ! i \<longleftrightarrow> pending b ! i \<and> cqe_user_data c \<noteq> write_user_data i"
proof -
  have i: "user_data_kind (cqe_user_data c) = Some (WriteData i) \<longleftrightarrow> cqe_user_data c = write_user_data i"
    using assms by (intro kind_write_iff) simp
  then show ?thesis
    using assms
    by (auto simp: tx_handle_cqe_def complete_write_def nth_list_update
        split: option.split TxUserDataKind.split if_splits)
qed

lemma handle_cqes_pending:
  assumes "loop_inv b" "length (bufs b) \<le> 2 ^ 40" "i < length (bufs b)"
  shows "pending (fold tx_handle_cqe es b) ! i \<longleftrightarrow> pending b ! i \<and> write_user_data i \<notin> cqe_user_data ` set es"
  using assms
proof (induction es arbitrary: b)
  case (Cons c es)
  have len: "length (pending b) = length (bufs b)" using Cons.prems(1) by (simp add: loop_inv_def batch_inv_def sound_def)
  have c: "loop_inv (tx_handle_cqe c b)" "bufs (tx_handle_cqe c b) = bufs b"
    using handle_cqe_loop_inv [OF Cons.prems(1), of c] by (simp_all add: same_batch_def)
  show ?case
    using Cons.IH [OF c(1)] Cons.prems(2,3) handle_cqe_pending [OF Cons.prems(2) len Cons.prems(3), of c] c(2)
    by auto
qed simp

lemma pending_tags_cqes:
  assumes "loop_inv b" "length (bufs b) \<le> 2 ^ 40"
  shows "pending_tags (fold tx_handle_cqe es b) = pending_tags b - cqe_user_data ` set es"
proof -
  have "bufs (fold tx_handle_cqe es b) = bufs b"
    using handle_cqes_loop_inv [OF assms(1), of es] by (simp add: same_batch_def)
  then show ?thesis
    using handle_cqes_pending [OF assms] by (auto simp: pending_tags_def)
qed

lemma finishes_cqes: "sound b \<Longrightarrow> finishes b (fold tx_handle_cqe es b)"
proof (induction es arbitrary: b)
  case (Cons c es)
  have "finishes b (tx_handle_cqe c b)"
    using finishes_complete_write [OF Cons.prems]
    by (auto simp: tx_handle_cqe_def split: option.split TxUserDataKind.split)
  then show ?case
    using Cons.IH [of "tx_handle_cqe c b"] Cons.prems
    by (auto simp: finishes_def [of b "tx_handle_cqe c b"] intro: finishes_trans [of b "tx_handle_cqe c b"])
qed simp

section \<open>What a batch needs of its host\<close>

text \<open>A call that owes the driver the same completions after it and raises no new event.\<close>

definition world_keeps :: "('w \<Rightarrow> u64 multiset) \<Rightarrow> ('w \<Rightarrow> bool) \<Rightarrow> ('w \<Rightarrow> nat) \<Rightarrow> 'w \<Rightarrow> 'w \<Rightarrow> bool" where
  "world_keeps owes flushed events w w' \<longleftrightarrow>
     owes w' = owes w \<and> (flushed w \<longrightarrow> flushed w') \<and> events w' \<le> events w"

lemma world_keeps_refl [simp]: "world_keeps owes flushed events w w"
  by (simp add: world_keeps_def)

lemma world_keeps_trans:
  "world_keeps owes flushed events w w1 \<Longrightarrow> world_keeps owes flushed events w1 w2 \<Longrightarrow>
   world_keeps owes flushed events w w2"
  by (auto simp: world_keeps_def)

text \<open>
  \<open>owes\<close> is the bag of the user data of the entries pushed and not yet reaped (every entry has one
  completion, with its user data), \<open>flushed\<close> says that everything pushed was submitted, \<open>ready\<close> that
  a completion waits to be reaped, \<open>signalled\<close> that the command eventfd \<open>cmd_fd\<close> is
  readable; \<open>events\<close> bounds the wake-ups that are not completions, \<open>queued\<close> the commands in the
  channel, \<open>ticks\<close> the eventfd reads that can succeed or be interrupted.
\<close>

locale tx_kernel =
  fixes env :: "('w, 'a, 'm) tx_env_scheme"
    and cmd_fd :: i32 and owes :: "'w \<Rightarrow> u64 multiset" and flushed ready signalled :: "'w \<Rightarrow> bool" and events queued ticks :: "'w \<Rightarrow> nat"
  assumes push_room: "sq_len env w < sq_capacity env w \<Longrightarrow> fst (sq_push env e w)"
    and chain_room: "sq_len env w + length es \<le> sq_capacity env w \<Longrightarrow> fst (sq_push_multiple env es w)"
    and submit_room: "ring_submit env w = (Ok (), w') \<Longrightarrow> sq_len env w' < sq_capacity env w'"
    and push: "sq_push env e w = (ok, w') \<Longrightarrow>
      owes w' = owes w + (if ok then {# entry_user_data e #} else {#}) \<and> events w' \<le> events w"
    and chain: "sq_push_multiple env es w = (ok, w') \<Longrightarrow>
      owes w' = owes w + (if ok then image_mset entry_user_data (mset es) else {#}) \<and> events w' \<le> events w"
    and submit: "ring_submit env w = (r, w') \<Longrightarrow>
      r \<noteq> Panic \<and> owes w' = owes w \<and> events w' \<le> events w \<and> (r = Ok () \<longrightarrow> flushed w')"
    and poll: "poll_fds env fds timeout w = (revents, w') \<Longrightarrow>
      revents \<noteq> Panic \<and> world_keeps owes flushed events w w' \<and>
      (\<forall>e. revents = Err e \<longrightarrow> kind e = Interrupted \<longrightarrow> events w' < events w) \<and>
      (\<forall>v. revents = Ok v \<longrightarrow> flushed w \<longrightarrow> owes w \<noteq> {#} \<longrightarrow>
         ready w' \<or> events w' < events w \<or> v ! 0 \<and> signalled w')"
    and read: "fd_read_u64 env fd w = (n, w') \<Longrightarrow>
      n \<noteq> Panic \<and> world_keeps owes flushed events w w' \<and> (ready w \<longrightarrow> ready w') \<and>
      (n = Ok 8 \<or> (\<exists>e. n = Err e \<and> kind e = Interrupted) \<longrightarrow> ticks w' < ticks w) \<and>
      (signalled w \<longrightarrow> fd = cmd_fd \<longrightarrow> n = Ok 8 \<and> events w' < events w \<or>
         (\<exists>e. n = Err e \<and> kind e \<noteq> WouldBlock \<and> (kind e = Interrupted \<longrightarrow> signalled w')))"
    and recv: "tx_try_recv env w = (c, w') \<Longrightarrow>
      world_keeps owes flushed events w w' \<and> (ready w \<longrightarrow> ready w') \<and>
      (\<forall>x. c = Received x \<longrightarrow> queued w' < queued w)"
    and send: "world_keeps owes flushed events w (response_send env a resp w)"
      "ready w \<longrightarrow> ready (response_send env a resp w)" "queued (response_send env a resp w) \<le> queued w"
    and flag: "flag_load env f w = (raised, w') \<Longrightarrow> world_keeps owes flushed events w w'"
    and now: "instant_now env w = (t, w') \<Longrightarrow> world_keeps owes flushed events w w'"
    and collect: "cq_collect env w = (cs, w') \<Longrightarrow>
      owes w = owes w' + image_mset cqe_user_data (mset cs) \<and> events w' \<le> events w \<and>
      (flushed w \<longrightarrow> flushed w') \<and> (ready w \<longrightarrow> cs \<noteq> [])"
begin

abbreviation keeps :: "'w \<Rightarrow> 'w \<Rightarrow> bool" where
  "keeps \<equiv> world_keeps owes flushed events"

text \<open>Pushing one entry succeeds after at most one submit, or the submit fails.\<close>

lemma push_retry_total:
  "call_total (\<lambda>r w'. events w' \<le> events w \<and> (\<forall>x. r = Ok x \<longrightarrow> owes w' = owes w + {# entry_user_data e #}))
     (push_retry env e w)"
proof -
  obtain ok w1 where p: "sq_push env e w = (ok, w1)" by (cases "sq_push env e w")
  show ?thesis
  proof (cases ok)
    case True
    then show ?thesis using p push [OF p] by (subst push_retry.simps) simp
  next
    case False
    obtain r w2 where s: "ring_submit env w1 = (r, w2)" by (cases "ring_submit env w1")
    note facts = push [OF p] submit [OF s]
    show ?thesis
    proof (cases r)
      case (Ok x)
      then obtain w3 where p3: "sq_push env e w2 = (True, w3)"
        using push_room [OF submit_room] s by (metis (full_types) prod.collapse old.unit.exhaust)
      have "push_retry env e w = push_retry env e w2"
        using p s False Ok by (subst push_retry.simps) simp
      also have "push_retry env e w2 = Some (Ok (), w3)" using p3 by (subst push_retry.simps) simp
      finally show ?thesis using facts False push [OF p3] by simp
    qed (use p s False facts in \<open>subst push_retry.simps; simp\<close>)+
  qed
qed

text \<open>
  The submission methods return; what they pushed is what they marked.  With nothing pushed the
  world is as it was, otherwise a success ends with everything submitted.
\<close>

definition pushed_post :: "'a ActiveTxBatch \<Rightarrow> 'w \<Rightarrow> 'a ActiveTxBatch \<Rightarrow> 'w \<Rightarrow> bool" where
  "pushed_post b w b' w' \<longleftrightarrow>
     events w' \<le> events w \<and> next_to_submit b \<le> next_to_submit b' \<and>
     owes w' = owes w + image_mset write_user_data (mset_set {next_to_submit b ..< next_to_submit b'})"

lemma submit_round_total:
  "call_total (\<lambda>r s. events (snd s) \<le> events w \<and>
       (\<forall>n. r = Ok n \<longrightarrow> pushed_post b w (fst s) (snd s) \<and> (n = 0 \<longrightarrow> s = (b, w))))
     (submit_round env self budget (b, w))"
proof (induction budget arbitrary: b w)
  case (Suc budget)
  show ?case
  proof (cases "next_to_submit b < length (bufs b)")
    case True
    let ?e = "build_write_entry (tx_device self) b (next_to_submit b) False"
    from push_retry_total [of w ?e] obtain r1 w1 where p: "push_retry env ?e w = Some (r1, w1)" "r1 \<noteq> Panic"
        "events w1 \<le> events w" "\<And>x. r1 = Ok x \<Longrightarrow> owes w1 = owes w + {# write_user_data (next_to_submit b) #}"
      by (rule call_totalE) auto
    show ?thesis
    proof (cases r1)
      case (Err e)
      then show ?thesis using True p by (simp add: submit_write_def tx_submit_entry_def)
    next
      case (Ok x)
      let ?b = "mark_chain 1 b"
      have b1: "(b\<lparr>submitted := (submitted b)[next_to_submit b := True], pending := (pending b)[next_to_submit b := True],
          in_flight := in_flight b + 1\<rparr>)\<lparr>next_to_submit := next_to_submit b + 1\<rparr> = ?b"
        by (simp add: mark_chain_def mark_submitted_at_def)
      have step: "submit_round env self (Suc budget) (b, w) =
          andthen (submit_round env self budget (?b, w1)) (\<lambda>n s. Some (Ok (Suc n), s))"
        using True p(1) Ok b1 by (simp add: submit_write_def tx_submit_entry_def)
      show ?thesis
        unfolding step
      proof (rule call_total_andthen [OF Suc.IH])
        fix n :: nat and s
        assume "events (snd s) \<le> events w1 \<and>
          (\<forall>k. Ok n = Ok k \<longrightarrow> pushed_post ?b w1 (fst s) (snd s) \<and> (k = 0 \<longrightarrow> s = (?b, w1)))"
        then have post: "events (snd s) \<le> events w1" "pushed_post ?b w1 (fst s) (snd s)" by auto
        have "{next_to_submit b ..< next_to_submit (fst s)} =
            insert (next_to_submit b) {Suc (next_to_submit b) ..< next_to_submit (fst s)}"
          using post(2) mark_chain_frame(3) [of 1 b] by (auto simp: pushed_post_def)
        then show "call_total (\<lambda>r s. events (snd s) \<le> events w \<and>
            (\<forall>n. r = Ok n \<longrightarrow> pushed_post b w (fst s) (snd s) \<and> (n = 0 \<longrightarrow> s = (b, w)))) (Some (Ok (Suc n), s))"
          using post p(3,4) Ok mark_chain_frame(3) [of 1 b] by (auto simp: pushed_post_def)
      qed (use p(3) in auto)
    qed (use p in simp)
  qed (simp add: pushed_post_def)
qed (simp add: pushed_post_def)

lemma submit_unordered_total:
  "call_total (\<lambda>r s. events (snd s) \<le> events w \<and>
       (r = Ok () \<longrightarrow> pushed_post b w (fst s) (snd s) \<and> (flushed (snd s) \<or> s = (b, w))))
     (submit_unordered env self (b, w))"
  unfolding submit_unordered_def
proof (rule call_total_andthen [OF submit_round_total])
  fix n :: nat and s
  assume *: "events (snd s) \<le> events w \<and>
      (\<forall>k. Ok n = Ok k \<longrightarrow> pushed_post b w (fst s) (snd s) \<and> (k = 0 \<longrightarrow> s = (b, w)))"
  obtain b1 w1 where s: "s = (b1, w1)" by (cases s)
  obtain r2 w2 where sub: "ring_submit env w1 = (r2, w2)" by (cases "ring_submit env w1")
  show "call_total (\<lambda>r s. events (snd s) \<le> events w \<and>
       (r = Ok () \<longrightarrow> pushed_post b w (fst s) (snd s) \<and> (flushed (snd s) \<or> s = (b, w))))
     (case s of (batch, w) \<Rightarrow> if 0 < n then on_world (Some (ring_submit env w)) batch else Some (Ok (), batch, w))"
    using * s sub submit [OF sub] by (auto simp: pushed_post_def)
qed auto

lemma submit_ordered_total:
  assumes "0 < submit_chunk_size self" "next_to_submit b < length (bufs b)"
  shows "call_total (\<lambda>r s. events (snd s) \<le> events w \<and>
       (r = Ok () \<longrightarrow> pushed_post b w (fst s) (snd s) \<and> flushed (snd s)))
     (submit_ordered_linked env self (b, w))"
    (is "call_total (?Q w) _")
proof -
  have go: "call_total (?Q w) (submit_ordered_linked env self (b, w))" if room: "sq_len env w < sq_capacity env w" for w
  proof -
    define n where "n = min (min (remaining_to_submit b) (submit_chunk_size self)) (sq_capacity env w - sq_len env w)"
    have n: "0 < n" using room assms by (simp add: n_def remaining_to_submit_def)
    obtain w1 where push: "sq_push_multiple env (chain_entries (tx_device self) b n) w = (True, w1)"
      using chain_room [of w "chain_entries (tx_device self) b n"] room
      by (cases "sq_push_multiple env (chain_entries (tx_device self) b n) w") (auto simp: chain_entries_def n_def)
    obtain r2 w2 where sub: "ring_submit env w1 = (r2, w2)" by (cases "ring_submit env w1")
    have "submit_ordered_linked env self (b, w) = Some (r2, mark_chain n b, w2)"
      using n push sub
      by (subst submit_ordered_linked.simps)
         (simp only: Let_def prod.case n_def [symmetric] refl if_False on_world_simps
           less_numeral_extra(3) if_True neq0_conv [symmetric])
    then show ?thesis
      using chain [OF push] submit [OF sub]
      by (auto simp: pushed_post_def mark_chain_frame(3) chain_user_data)
  qed
  show ?thesis
  proof (cases "sq_len env w < sq_capacity env w")
    case False
    obtain r2 w2 where sub: "ring_submit env w = (r2, w2)" by (cases "ring_submit env w")
    have again: "submit_ordered_linked env self (b, w) =
        andthen (on_world (Some (r2, w2)) b) (\<lambda>_ s. submit_ordered_linked env self s)"
      using False sub by (subst submit_ordered_linked.simps) (simp add: Let_def)
    show ?thesis
    proof (cases r2)
      case (Ok x)
      then have "call_total (?Q w2) (submit_ordered_linked env self (b, w2))"
        using go submit_room sub by simp
      then show ?thesis
        unfolding again using Ok submit [OF sub] by (auto simp: pushed_post_def elim!: call_total_mono)
    qed (use again submit [OF sub] in auto)
  qed (rule go)
qed

lemma submission_total:
  assumes "0 < submit_chunk_size self"
  shows "call_total (\<lambda>r s. events (snd s) \<le> events w \<and>
       (r = Ok () \<longrightarrow> pushed_post b w (fst s) (snd s) \<and> (flushed (snd s) \<or> s = (b, w))))
     (if keep_order b then submit_next_ordered env self (b, w) else submit_unordered env self (b, w))"
  using submit_unordered_total [of w b self] submit_ordered_total [OF assms, of b w]
  by (auto simp: submit_next_ordered_def pushed_post_def elim: call_total_mono)

section \<open>The stages of the loop return\<close>

definition live :: "'a ActiveTxBatch \<Rightarrow> 'w \<Rightarrow> bool" where
  "live b w \<longleftrightarrow> loop_inv b \<and> length (bufs b) \<le> 2 ^ 40 \<and> pending_tags b \<subseteq> set_mset (owes w) \<and>
     (pending_tags b \<noteq> {} \<longrightarrow> flushed w)"

text \<open>
  What is left to do: a buffer not yet submitted will cost a push and a completion, an entry in
  the ring a completion, and a cancellation at most one cancel entry per buffer.
\<close>

definition potential :: "'a ActiveTxBatch \<Rightarrow> 'w \<Rightarrow> nat" where
  "potential b w = 2 * (length (bufs b) - next_to_submit b) + size (owes w) + events w +
     (if cancel_requested b then 0 else length (bufs b) + 1)"

definition on_thread :: "nat \<Rightarrow> TxDriverThread \<Rightarrow> bool" where
  "on_thread c self \<longleftrightarrow> submit_chunk_size self = c \<and> tx_command_eventfd self = cmd_fd"

lemma on_thread_shared [simp]: "on_thread c (self\<lparr>tx_shared := sl\<rparr>) \<longleftrightarrow> on_thread c self"
  by (simp add: on_thread_def)

text \<open>A stage ends with the batch complete, or alive and with no more left to do.\<close>

definition live_post :: "'a ActiveTxBatch \<Rightarrow> 'w \<Rightarrow> nat \<Rightarrow> unit res \<Rightarrow> ('a, 'w) batch_sys \<Rightarrow> bool" where
  "live_post b w c r s \<longleftrightarrow>
     r = Ok () \<and> on_thread c (fst (snd s)) \<and>
     (is_complete (fst s) \<or>
      live (fst s) (snd (snd s)) \<and> potential (fst s) (snd (snd s)) \<le> potential b w \<and> 0 < in_flight (fst s))"

lemma submit_stage_total:
  assumes "live b w" "0 < submit_chunk_size self" "on_thread c self"
  shows "call_total (live_post b w c) (submit_stage env (b, self, w))"
proof (cases "cancel_requested b")
  case True
  have "loop_inv b" using assms(1) by (simp add: live_def)
  with True show ?thesis
    using assms settled_in_flight [of b]
    by (cases "is_complete b") (simp_all add: submit_stage_def live_post_def)
next
  case False
  let ?m = "if keep_order b then submit_next_ordered env self (b, w) else submit_unordered env self (b, w)"
  have inv: "loop_inv b" "pending_tags b \<noteq> {} \<longrightarrow> flushed w" "pending_tags b \<subseteq> set_mset (owes w)" "length (bufs b) \<le> 2 ^ 40"
    using assms(1) by (auto simp: live_def)
  have le: "next_to_submit b \<le> length (bufs b)" using inv(1) by (simp add: loop_inv_def batch_inv_def)
  obtain r b1 w1 where m: "?m = Some (r, b1, w1)" "r \<noteq> Panic" "events w1 \<le> events w"
      "r = Ok () \<Longrightarrow> pushed_post b w b1 w1 \<and> (flushed w1 \<or> b1 = b \<and> w1 = w)"
    using submission_total [OF assms(2), of w b] by (elim call_totalE) auto
  have "advances b ?m" using submit_ordered_advances [OF le] submit_unordered_advances [OF le assms(2)] by auto
  from advances_Ex [OF this m(1)] obtain n where n: "b1 = mark_chain n b" "next_to_submit b + n \<le> length (bufs b)"
    by blast
  have inv1: "loop_inv b1" "same_batch b b1" using n loop_inv_chain [OF inv(1) False] mark_chain_frame(1) by auto
  have stage: "submit_stage env (b, self, w) = on_err (on_batch ?m self) batch_error"
    using False by (simp add: submit_stage_def)
  have post: "stage_ok b (fst s) \<and> fst (snd s) = self \<and> (r' = Ok () \<longrightarrow> \<not> is_complete (fst s) \<longrightarrow> 0 < in_flight (fst s))"
    if "submit_stage env (b, self, w) = Some (r', s)" for r' s
    using submit_stage_ok [OF inv(1) assms(2), of env w r' "fst s" "snd s"] that by simp
  show ?thesis
  proof (cases r)
    case (Ok x)
    have post1: "pushed_post b w b1 w1" "flushed w1 \<or> b1 = b \<and> w1 = w" using m(4) Ok by auto
    have next1: "next_to_submit b1 = next_to_submit b + n" by (simp add: n(1) mark_chain_frame(3))
    have "set_mset (owes w1) = set_mset (owes w) \<union> write_user_data ` {next_to_submit b ..< next_to_submit b + n}"
      using post1(1) next1 by (simp add: pushed_post_def)
    then have "live b1 w1"
      using post1(2) inv inv1 pending_tags_chain [OF inv(1) n(2)] n(1) by (auto simp: live_def same_batch_def)
    moreover have "potential b1 w1 \<le> potential b w"
      using post1(1) next1 n inv1(2) m(3) mark_chain_frame(2) [of n b]
      by (simp add: potential_def pushed_post_def same_batch_def)
    ultimately show ?thesis
      using stage m Ok post [of "Ok ()" "(b1, self, w1)"] assms(3) by (auto simp: on_batch_def live_post_def stage_ok_def)
  next
    case (Err e)
    then have "submit_stage env (b, self, w) = Some (Ok (), mark_driver_error e b1, self, w1)"
      using stage m(1) by (simp add: on_batch_def batch_error_def)
    then show ?thesis
      using m(3) assms(3) mark_driver_complete [OF loop_inv_sound [OF inv1(1)], of e]
        stage_ok_error [OF inv1(2) loop_inv_batch [OF inv1(1)], of e]
      by (simp add: live_post_def stage_ok_def)
  qed (use m in simp)
qed

lemma push_cancels_total:
  "call_total (\<lambda>r w'. r = Ok () \<longrightarrow>
       owes w \<subseteq># owes w' \<and> size (owes w') + events w' \<le> size (owes w) + events w + length is) (push_cancels env is w)"
proof (induction "is" arbitrary: w)
  case (Cons i "is")
  let ?e = "AsyncCancel (write_user_data i) (cancel_user_data i)"
  show ?case
    unfolding push_cancels.simps tx_submit_entry_def
  proof (rule call_total_andthen [OF push_retry_total])
    fix x w1
    assume *: "events w1 \<le> events w \<and> (\<forall>y. Ok x = Ok y \<longrightarrow> owes w1 = owes w + {# entry_user_data ?e #})"
    then have "size (owes w1) + events w1 \<le> size (owes w) + events w + 1" "owes w \<subseteq># owes w1" by auto
    then show "call_total (\<lambda>r w'. r = Ok () \<longrightarrow> owes w \<subseteq># owes w' \<and>
        size (owes w') + events w' \<le> size (owes w) + events w + length (i # is)) (push_cancels env is w1)"
      using Cons.IH [of w1] by (elim call_total_mono) (auto intro: subset_mset.order_trans)
  qed auto
qed simp

lemma submit_cancels_total:
  "call_total (\<lambda>r w'. r = Ok () \<longrightarrow> owes w \<subseteq># owes w' \<and> flushed w' \<and>
       size (owes w') + events w' \<le> size (owes w) + events w + length (pending_indices b)) (submit_cancels env b w)"
  unfolding submit_cancels_def
proof (rule call_total_andthen [OF push_cancels_total])
  fix x w1
  assume *: "Ok x = Ok () \<longrightarrow> owes w \<subseteq># owes w1 \<and>
    size (owes w1) + events w1 \<le> size (owes w) + events w + length (pending_indices b)"
  obtain r w2 where "ring_submit env w1 = (r, w2)" by (cases "ring_submit env w1")
  then show "call_total (\<lambda>r w'. r = Ok () \<longrightarrow> owes w \<subseteq># owes w' \<and> flushed w' \<and>
       size (owes w') + events w' \<le> size (owes w) + events w + length (pending_indices b)) (Some (ring_submit env w1))"
    using * submit [of w1 r w2] by auto
qed auto

lemma cancel_keeps_tags:
  assumes "loop_inv b"
  shows "pending_tags (mark_unsubmitted_error e (b\<lparr>cancel_requested := True\<rparr>)) = pending_tags b"
    and "next_to_submit (mark_unsubmitted_error e (b\<lparr>cancel_requested := True\<rparr>)) = next_to_submit b"
    and "length (pending_indices (mark_unsubmitted_error e (b\<lparr>cancel_requested := True\<rparr>))) \<le> length (bufs b)"
proof -
  let ?c = "b\<lparr>cancel_requested := True\<rparr>"
  have c: "sound ?c" using assms by (simp add: loop_inv_def batch_inv_def sound_def)
  note f = mark_unsubmitted_spec(1) [OF c, of e]
  have "pending (mark_unsubmitted_error e ?c) ! i \<longleftrightarrow> pending b ! i" if "i < length (bufs b)" for i
    using f c that mark_unsubmitted_spec(2) [OF c, of i e]
    by (auto simp: finishes_def same_batch_def sound_def split: if_splits)
  then show "pending_tags (mark_unsubmitted_error e ?c) = pending_tags b"
    using f by (auto simp: pending_tags_def finishes_def same_batch_def)
  show "next_to_submit (mark_unsubmitted_error e ?c) = next_to_submit b" using f by (simp add: finishes_def)
  have "length (pending_indices (mark_unsubmitted_error e ?c)) \<le> length (pending (mark_unsubmitted_error e ?c))"
    unfolding pending_indices_def by (metis length_filter_le diff_zero length_upt)
  then show "length (pending_indices (mark_unsubmitted_error e ?c)) \<le> length (bufs b)"
    using f c by (simp add: finishes_def same_batch_def sound_def)
qed

lemma cancel_stage_total:
  assumes "live b w" "\<not> cancel_requested b" "mark = mark_unsubmitted_error e" "on_thread c self"
  shows "call_total (live_post b w c) (cancel_stage env mark (b, self, w))"
proof -
  let ?b = "mark_unsubmitted_error e (b\<lparr>cancel_requested := True\<rparr>)"
  let ?self = "self\<lparr>tx_shared := snd (request_cancel (tx_shared self))\<rparr>"
  have b: "loop_inv b" using assms(1) by (simp add: live_def)
  note inv = loop_inv_cancel [OF b, of e] cancel_keeps_tags [OF b, of e]
  obtain r w1 where c: "submit_cancels env ?b w = Some (r, w1)" "r \<noteq> Panic"
      "r = Ok () \<Longrightarrow> owes w \<subseteq># owes w1 \<and> flushed w1 \<and>
         size (owes w1) + events w1 \<le> size (owes w) + events w + length (pending_indices ?b)"
    using submit_cancels_total [of w ?b] by (elim call_totalE) auto
  show ?thesis
  proof (cases r)
    case (Ok x)
    note c3 = c(3) [unfolded Ok, simplified]
    have "live ?b w1"
      using c3 inv assms(1) set_mset_mono [of "owes w" "owes w1"] by (auto simp: live_def same_batch_def)
    moreover have "potential ?b w1 \<le> potential b w"
      using c3 inv assms(2) by (simp add: potential_def same_batch_def)
    ultimately show ?thesis
      using c Ok inv settled_in_flight [OF inv(1)] assms(4)
      by (cases "is_complete ?b") (auto simp: cancel_stage_def assms(3) Let_def on_batch_def live_post_def)
  next
    case (Err e')
    then show ?thesis
      using c assms(4) mark_driver_complete [OF loop_inv_sound [OF inv(1)], of e']
      by (simp add: cancel_stage_def assms(3) Let_def on_batch_def batch_error_def live_post_def)
  qed (use c in simp)
qed

lemma potential_keeps: "keeps w w' \<Longrightarrow> potential b w' \<le> potential b w"
  by (simp add: potential_def world_keeps_def)

lemma live_post_start: "keeps w w1 \<Longrightarrow> live_post b w1 c r s \<Longrightarrow> live_post b w c r s"
  using potential_keeps [of w w1 b] by (auto simp: live_post_def)

lemma live_keeps: "live b w \<Longrightarrow> keeps w w' \<Longrightarrow> live b w'"
  by (auto simp: live_def world_keeps_def)

lemma deadline_expired_keeps: "deadline_expired env b w = (x, w') \<Longrightarrow> keeps w w'"
  by (auto simp: deadline_expired_def split: option.splits prod.splits dest: now)

lemma check_stages_total:
  assumes "live b w" "0 < in_flight b" "on_thread c self"
  shows "call_total (live_post b w c) (check_external_cancel env (b, self, w))"
    and "call_total (live_post b w c) (check_deadline env (b, self, w))"
proof -
  have check: "call_total (live_post b w c) (if x \<and> \<not> cancel_requested b then cancel_stage env mark (b, self, w1)
      else Some (Ok (), b, self, w1))" if k: "keeps w w1" and mark: "mark = mark_unsubmitted_error e" for x w1 mark e
  proof -
    note l = live_keeps [OF assms(1) k]
    have "call_total (live_post b w c) (cancel_stage env mark (b, self, w1))" if "\<not> cancel_requested b"
      using cancel_stage_total [OF l that mark assms(3)] by (rule call_total_mono) (rule live_post_start [OF k])
    moreover have "live_post b w c (Ok ()) (b, self, w1)"
      using l assms(2,3) potential_keeps [OF k, of b] by (simp add: live_post_def)
    ultimately show ?thesis by simp
  qed
  obtain x1 w1 where 1: "external_cancel_requested env b w = (x1, w1)" by (cases "external_cancel_requested env b w")
  then have k1: "keeps w w1" by (simp add: external_cancel_requested_def flag)
  obtain x2 w2 where 2: "deadline_expired env b w = (x2, w2)" by (cases "deadline_expired env b w")
  show "call_total (live_post b w c) (check_external_cancel env (b, self, w))"
    using check [OF k1 ext [OF mark_unsubmitted_cancelled_def]] by (simp add: check_external_cancel_def 1)
  show "call_total (live_post b w c) (check_deadline env (b, self, w))"
    using check [OF deadline_expired_keeps [OF 2] ext [OF mark_unsubmitted_timed_out_def]]
    by (simp add: check_deadline_def 2)
qed

text \<open>The loops of a wait.\<close>

abbreviation stays_ready :: "'w \<Rightarrow> 'w \<Rightarrow> bool" where
  "stays_ready w w' \<equiv> keeps w w' \<and> (ready w \<longrightarrow> ready w')"

lemma stays_ready_trans: "stays_ready w w1 \<Longrightarrow> stays_ready w1 w2 \<Longrightarrow> stays_ready w w2"
  by (auto intro: world_keeps_trans)

abbreviation wakes_up :: "'w \<Rightarrow> 'w \<Rightarrow> bool" where
  "wakes_up w w' \<equiv> flushed w \<longrightarrow> owes w \<noteq> {#} \<longrightarrow> ready w' \<or> events w' < events w"

lemma drain_eventfd_total: "call_total (\<lambda>r w'. stays_ready w w') (drain_eventfd env fd w)"
proof (induction "ticks w" arbitrary: w rule: less_induct)
  case less
  obtain n w1 where rd: "fd_read_u64 env fd w = (n, w1)" by (cases "fd_read_u64 env fd w")
  show ?case
  proof (cases "n = Ok 8 \<or> (\<exists>e. n = Err e \<and> kind e = Interrupted)")
    case True
    then have "call_total (\<lambda>r w'. stays_ready w1 w') (drain_eventfd env fd w1)" using less read [OF rd] by blast
    then have "call_total (\<lambda>r w'. stays_ready w w') (drain_eventfd env fd w1)"
      by (rule call_total_mono) (use read [OF rd] stays_ready_trans in blast)
    moreover have "drain_eventfd env fd w = drain_eventfd env fd w1"
      using True rd by (subst drain_eventfd.simps) auto
    ultimately show ?thesis by simp
  next
    case False
    with read [OF rd] rd show ?thesis by (subst drain_eventfd.simps) (cases n; auto)
  qed
qed

text \<open>Draining the command eventfd uses up the signal.\<close>

lemma drain_command_total:
  "call_total (\<lambda>r w'. stays_ready w w' \<and> (signalled w \<longrightarrow> is_ok r \<longrightarrow> events w' < events w)) (drain_eventfd env cmd_fd w)"
proof (induction "ticks w" arbitrary: w rule: less_induct)
  case less
  obtain n w1 where rd: "fd_read_u64 env cmd_fd w = (n, w1)" by (cases "fd_read_u64 env cmd_fd w")
  note facts = read [OF rd]
  show ?case
  proof (cases "n = Ok 8 \<or> (\<exists>e. n = Err e \<and> kind e = Interrupted)")
    case True
    then have "call_total (\<lambda>r w'. stays_ready w1 w' \<and> (signalled w1 \<longrightarrow> is_ok r \<longrightarrow> events w' < events w1))
        (drain_eventfd env cmd_fd w1)" using less facts by blast
    then have "call_total (\<lambda>r w'. stays_ready w w' \<and> (signalled w \<longrightarrow> is_ok r \<longrightarrow> events w' < events w))
        (drain_eventfd env cmd_fd w1)"
      by (rule call_total_mono) (use facts True in \<open>auto simp: world_keeps_def\<close>)
    moreover have "drain_eventfd env cmd_fd w = drain_eventfd env cmd_fd w1"
      using True rd by (subst drain_eventfd.simps) auto
    ultimately show ?thesis by simp
  next
    case False
    with facts rd show ?thesis by (subst drain_eventfd.simps) (cases n; auto)
  qed
qed

abbreviation polled :: "'w \<Rightarrow> bool list \<Rightarrow> 'w \<Rightarrow> bool" where
  "polled w v w' \<equiv> flushed w \<longrightarrow> owes w \<noteq> {#} \<longrightarrow> ready w' \<or> events w' < events w \<or> v ! 0 \<and> signalled w'"

lemma poll_retry_total:
  "call_total (\<lambda>r w'. keeps w w' \<and> (\<forall>v. r = Ok v \<longrightarrow> polled w v w')) (poll_retry env fds timeout w)"
proof (induction "events w" arbitrary: w rule: less_induct)
  case less
  obtain r w1 where p: "poll_fds env fds timeout w = (r, w1)" by (cases "poll_fds env fds timeout w")
  note facts = poll [OF p]
  show ?case
  proof (cases "\<exists>e. r = Err e \<and> kind e = Interrupted")
    case True
    then have dec: "events w1 < events w" using facts by blast
    have "call_total (\<lambda>r w'. keeps w1 w' \<and> (\<forall>v. r = Ok v \<longrightarrow> polled w1 v w')) (poll_retry env fds timeout w1)"
      using less dec by blast
    then have "call_total (\<lambda>r w'. keeps w w' \<and> (\<forall>v. r = Ok v \<longrightarrow> polled w v w')) (poll_retry env fds timeout w1)"
      by (rule call_total_mono) (use facts dec in \<open>auto simp: world_keeps_def\<close>)
    moreover have "poll_retry env fds timeout w = poll_retry env fds timeout w1"
      using True p by (subst poll_retry.simps) auto
    ultimately show ?thesis by simp
  next
    case False
    with facts p show ?thesis by (subst poll_retry.simps) (cases r; auto)
  qed
qed

lemma drain_shutdown_total: "call_total (\<lambda>r s'. stays_ready (snd s) (snd s')) (drain_shutdown_commands env s)"
proof (induction "queued (snd s)" arbitrary: s rule: less_induct)
  case less
  obtain c w1 where rv: "tx_try_recv env (snd s) = (c, w1)" by (cases "tx_try_recv env (snd s)")
  note facts = recv [OF rv]
  show ?case
  proof (cases "\<exists>request. c = Received (RunBatch request)")
    case True
    then obtain request where c: "c = Received (RunBatch request)" by blast
    let ?b = "mark_unsubmitted_error (Custom Interrupted ''tx driver shutting down'') (batch_new request)"
    let ?w = "response_send env (response ?b) (into_response ?b) w1"
    have sr: "stays_ready (snd s) ?w" using facts send(1) [where w = w1] send(2) [where w = w1] by (meson stays_ready_trans)
    have "queued ?w < queued (snd s)" using facts c send(3) [of "response ?b" "into_response ?b" w1] by fastforce
    then have "call_total (\<lambda>r s'. stays_ready ?w (snd s')) (drain_shutdown_commands env (fst s, ?w))"
      using less [of "(fst s, ?w)"] by simp
    then have "call_total (\<lambda>r s'. stays_ready (snd s) (snd s')) (drain_shutdown_commands env (fst s, ?w))"
      by (rule call_total_mono) (use sr stays_ready_trans in blast)
    moreover have "drain_shutdown_commands env s = drain_shutdown_commands env (fst s, ?w)"
      using rv c by (subst drain_shutdown_commands.simps) (simp add: Let_def)
    ultimately show ?thesis by simp
  next
    case False
    with facts rv show ?thesis
      by (subst drain_shutdown_commands.simps) (auto split: try_recv_result.split TxDriverCommand.split)
  qed
qed

definition wait_ok :: "'w \<Rightarrow> 'x res \<Rightarrow> 'w \<Rightarrow> bool" where
  "wait_ok w r w' \<longleftrightarrow> keeps w w' \<and> (is_ok r \<longrightarrow> wakes_up w w')"

lemma wait_ok_step: "wait_ok w (Ok x) w1 \<Longrightarrow> stays_ready w1 w' \<Longrightarrow> wait_ok w r w'"
  by (auto simp: wait_ok_def world_keeps_def)

lemma wait_ok_result: "wait_ok w (Ok x) w' \<Longrightarrow> wait_ok w r w'"
  by (simp add: wait_ok_def)

lemma wait_ok_err: "wait_ok w (Err e) w' \<Longrightarrow> wait_ok w (Err e :: 'y res) w'" for w'
  by (simp add: wait_ok_def)

lemma wait_drain:
  "wait_ok w (Ok x) w1 \<Longrightarrow> call_total (\<lambda>r s. wait_ok w r (snd s)) (on_world (drain_eventfd env fd w1) t)"
  by (rule call_total_on_world, rule call_total_mono [OF drain_eventfd_total]) (simp add: wait_ok_step)

lemma wait_commands:
  "wait_ok w (Ok x) (snd s) \<Longrightarrow> call_total (\<lambda>r s. wait_ok w r (snd s)) (drain_shutdown_commands env s)"
  by (rule call_total_mono [OF drain_shutdown_total]) (rule wait_ok_step)

lemma tx_wait_total:
  assumes "tx_command_eventfd self = cmd_fd"
  shows "call_total (\<lambda>r s. wait_ok w r (snd s)) (tx_wait_for_activity env timeout (self, w))"
proof -
  let ?Q = "\<lambda>r s. wait_ok w r (snd s)"
  have poll: "call_total (\<lambda>r s. fst s = self \<and> keeps w (snd s) \<and> (\<forall>v. r = Ok v \<longrightarrow> polled w v (snd s)))
      (on_world (poll_retry env fds t w) self)" for fds t
    by (rule call_total_on_world, rule call_total_mono [OF poll_retry_total]) simp
  have commands: "call_total ?Q (if v ! 0 then andthen (on_world (drain_eventfd env cmd_fd w1) self)
      (\<lambda>_. drain_shutdown_commands env) else Some (Ok (), self, w1))"
    if p: "keeps w w1" "polled w v w1" for v w1
  proof (cases "v ! 0")
    case True
    have "call_total ?Q (on_world (drain_eventfd env cmd_fd w1) self)"
      by (rule call_total_on_world, rule call_total_mono [OF drain_command_total])
         (use p in \<open>auto simp: wait_ok_def world_keeps_def\<close>)
    then show ?thesis
      using True by (auto intro!: call_total_andthen [where P = ?Q] wait_commands intro: wait_ok_err)
  qed (use p in \<open>simp add: wait_ok_def\<close>)
  show ?thesis
    unfolding tx_wait_for_activity_def Let_def prod.case
  proof (rule call_total_andthen [OF poll])
    fix v :: "bool list" and s :: "TxDriverThread \<times> 'w"
    assume *: "fst s = self \<and> keeps w (snd s) \<and> (\<forall>u. Ok v = Ok u \<longrightarrow> polled w u (snd s))"
    obtain w1 where s: "s = (self, w1)" using * by (cases s) auto
    have p: "keeps w w1" "polled w v w1" using * s by auto
    show "call_total ?Q (case s of (self, w) \<Rightarrow>
        andthen (if v ! 0 then andthen (on_world (drain_eventfd env (tx_command_eventfd self) w) self)
                   (\<lambda>_. drain_shutdown_commands env) else Some (Ok (), self, w))
          (\<lambda>_ (self, w). if v ! 1 then on_world (drain_eventfd env (tx_cq_eventfd self) w) self
            else Some (Ok (), self, w)))"
      unfolding s prod.case assms
      by (rule call_total_andthen [OF commands [OF p]]) (auto intro!: wait_drain intro: wait_ok_err)
  qed (simp add: wait_ok_def)
qed

section \<open>The loop returns\<close>

definition progress_post :: "'a ActiveTxBatch \<Rightarrow> 'w \<Rightarrow> nat \<Rightarrow> bool res \<Rightarrow> ('a, 'w) batch_sys \<Rightarrow> bool" where
  "progress_post b w c r s \<longleftrightarrow>
     r = Ok True \<or>
     r = Ok False \<and> live (fst s) (snd (snd s)) \<and> on_thread c (fst (snd s)) \<and>
     potential (fst s) (snd (snd s)) < potential b w"

lemma collect_progress:
  assumes "live b w" "cq_collect env w = (es, w')"
  shows "live (fold tx_handle_cqe es b) w' \<and> potential (fold tx_handle_cqe es b) w' \<le> potential b w \<and>
    (ready w \<longrightarrow> potential (fold tx_handle_cqe es b) w' < potential b w)"
proof -
  let ?b = "fold tx_handle_cqe es b"
  have inv: "loop_inv b" "length (bufs b) \<le> 2 ^ 40" "pending_tags b \<subseteq> set_mset (owes w)" "pending_tags b \<noteq> {} \<longrightarrow> flushed w"
    using assms(1) by (auto simp: live_def)
  have b: "loop_inv ?b" "bufs ?b = bufs b" "next_to_submit ?b = next_to_submit b"
      "cancel_requested ?b = cancel_requested b"
    using handle_cqes_loop_inv [OF inv(1), of es] finishes_cqes [OF loop_inv_sound [OF inv(1)], of es]
    by (simp_all add: same_batch_def finishes_def)
  note c = collect [OF assms(2)]
  have "pending_tags ?b \<subseteq> set_mset (owes w')" "pending_tags ?b \<noteq> {} \<longrightarrow> flushed w'"
    using pending_tags_cqes [OF inv(1,2), of es] inv(3,4) c by auto
  moreover have "size (owes w) = size (owes w') + length es" "ready w \<longrightarrow> 1 \<le> length es"
    using c by (simp_all add: Suc_le_eq)
  ultimately show ?thesis using b c inv by (auto simp: live_def potential_def simp del: One_nat_def)
qed

lemma wait_stage_total:
  assumes "live b w" "0 < in_flight b" "on_thread c self"
  shows "call_total (progress_post b w c) (wait_stage env (b, self, w))"
proof -
  obtain timeout w1 where t: "wait_timeout env b w = (timeout, w1)" by (cases "wait_timeout env b w")
  then have k1: "keeps w w1"
    by (auto simp: wait_timeout_def split: if_splits option.splits prod.splits dest: now)
  note l1 = live_keeps [OF assms(1) k1]
  obtain r2 self2 w2 where wait: "tx_wait_for_activity env timeout (self, w1) = Some (r2, self2, w2)" "r2 \<noteq> Panic"
      "wait_ok w1 r2 w2"
    using tx_wait_total [of self w1 timeout] assms(3) by (auto simp: on_thread_def elim!: call_totalE)
  have self2: "on_thread c self2"
    using call_postD [OF tx_wait_frame wait(1)] assms(3) by (simp add: same_thread_def on_thread_def)
  obtain es w3 where es: "cq_collect env w2 = (es, w3)" by (cases "cq_collect env w2")
  show ?thesis
  proof (cases r2)
    case (Err e)
    then show ?thesis using t wait(1) by (simp add: wait_stage_def progress_post_def)
  next
    case (Ok x)
    have k2: "keeps w1 w2" "wakes_up w1 w2" using wait(3) Ok by (simp_all add: wait_ok_def)
    have tags: "owes w1 \<noteq> {#}" "flushed w1"
    proof -
      obtain i where "i < length (bufs b)" "pending b ! i"
        using assms(2) loop_inv_sound [of b] l1 by (auto simp: live_def sound_def count_if_pos_iff)
      then have "pending_tags b \<noteq> {}" by (auto simp: pending_tags_def)
      then show "owes w1 \<noteq> {#}" "flushed w1" using l1 by (auto simp: live_def mset_set_empty_iff)
    qed
    note prog = collect_progress [OF live_keeps [OF l1 k2(1)] es]
    have "wait_stage env (b, self, w) = Some (Ok False, fold tx_handle_cqe es b, self2, w3)"
      using t wait(1) Ok es by (simp add: wait_stage_def tx_process_cqes_def)
    moreover have "potential (fold tx_handle_cqe es b) w3 < potential b w"
    proof (cases "ready w2")
      case True
      then show ?thesis using prog k1 k2 by (auto simp: potential_def world_keeps_def)
    next
      case False
      then show ?thesis using prog k1 k2 tags by (auto simp: potential_def world_keeps_def)
    qed
    ultimately show ?thesis using prog self2 by (simp add: progress_post_def)
  qed (use wait in simp)
qed

lemma progress_post_start:
  "live_post b w c (Ok ()) s \<Longrightarrow> \<not> is_complete (fst s) \<Longrightarrow> progress_post (fst s) (snd (snd s)) c r s' \<Longrightarrow>
   progress_post b w c r s'"
  by (auto simp: progress_post_def live_post_def same_batch_def)

lemma live_post_trans:
  "live_post b w c (Ok ()) s \<Longrightarrow> \<not> is_complete (fst s) \<Longrightarrow> live_post (fst s) (snd (snd s)) c r s' \<Longrightarrow>
   live_post b w c r s'"
  by (auto simp: live_post_def intro: same_batch_trans)

lemma live_next:
  assumes "live_post b w c (Ok ()) s" "\<not> is_complete (fst s)"
    and "\<And>b w self. live b w \<Longrightarrow> 0 < in_flight b \<Longrightarrow> on_thread c self \<Longrightarrow>
      call_total (P b w c) (stage (b, self, w))"
  shows "call_total (P (fst s) (snd (snd s)) c) (stage s)"
  using assms(3) [of "fst s" "snd (snd s)" "fst (snd s)"] assms(1,2) by (simp add: live_post_def)

lemma batch_iteration_total:
  assumes "live b w" "0 < submit_chunk_size self" "on_thread c self"
  shows "call_total (progress_post b w c) (batch_iteration env (b, self, w))"
proof -
  have no_err: "\<not> live_post b w c (Err e) s" for e s by (simp add: live_post_def)
  have ret: "progress_post b w c (Ok True) s" for s by (simp add: progress_post_def)
  have 3: "call_total (progress_post b w c) (wait_stage env s)"
    if s: "live_post b w c (Ok ()) s" "\<not> is_complete (fst s)" for s
  proof -
    have "call_total (progress_post (fst s) (snd (snd s)) c) (wait_stage env s)"
      by (rule live_next [where P = progress_post, OF s wait_stage_total])
    then show ?thesis by (rule call_total_mono) (rule progress_post_start [OF s])
  qed
  have check: "call_total (live_post b w c) (f s)"
    if s: "live_post b w c (Ok ()) s" "\<not> is_complete (fst s)"
      and f: "\<And>b w self. live b w \<Longrightarrow> 0 < in_flight b \<Longrightarrow> on_thread c self \<Longrightarrow>
        call_total (live_post b w c) (f (b, self, w))"
    for s :: "('a, 'w) batch_sys" and f :: "('a, 'w) batch_sys \<Rightarrow> (unit, ('a, 'w) batch_sys) call"
  proof -
    have "call_total (live_post (fst s) (snd (snd s)) c) (f s)"
      by (rule live_next [where P = live_post, OF s f])
    then show ?thesis by (rule call_total_mono) (rule live_post_trans [OF s])
  qed
  note 1 = check [of _ "check_external_cancel env", OF _ _ check_stages_total(1)]
  note 2 = check [of _ "check_deadline env", OF _ _ check_stages_total(2)]
  show ?thesis
    unfolding batch_iteration_def
    by (rule call_total_andthen [OF submit_stage_total [OF assms]])
       (auto simp: no_err intro!: call_total_andthen [where P = "live_post b w c"] 1 2 3 ret)
qed

lemma run_batch_loop_returns:
  assumes "live b w" "0 < submit_chunk_size self" "tx_command_eventfd self = cmd_fd"
  shows "\<exists>s'. run_batch_loop env (b, self, w) = Some (Ok (), s')"
  using assms
proof (induction "potential b w" arbitrary: b self w rule: less_induct)
  case less
  obtain r b1 self1 w1 where it: "batch_iteration env (b, self, w) = Some (r, b1, self1, w1)"
      "progress_post b w (submit_chunk_size self) r (b1, self1, w1)"
    using batch_iteration_total [OF less.prems(1,2), of "submit_chunk_size self"] less.prems(3)
    by (auto simp: on_thread_def elim!: call_totalE)
  show ?case
  proof (cases "r = Ok True")
    case True
    then show ?thesis using it by (subst run_batch_loop.simps) simp
  next
    case False
    then have p: "r = Ok False" "live b1 w1" "on_thread (submit_chunk_size self) self1" "potential b1 w1 < potential b w"
      using it(2) by (auto simp: progress_post_def)
    have "0 < submit_chunk_size self1" "tx_command_eventfd self1 = cmd_fd"
      using p(3) less.prems(2) by (simp_all add: on_thread_def)
    then obtain s' where "run_batch_loop env (b1, self1, w1) = Some (Ok (), s')"
      using less.hyps [OF p(4) p(2)] by blast
    then show ?thesis using it(1) p(1) by (subst run_batch_loop.simps) (cases s'; simp)
  qed
qed

lemma run_batch_returns:
  assumes "length (req_bufs request) \<le> 2 ^ 40" "0 < submit_chunk_size self" "tx_command_eventfd self = cmd_fd"
  shows "\<exists>resp s'. run_batch env request (self, w) = Some (Ok (req_response request, resp), s')"
proof -
  obtain x w1 where d: "deadline_expired env (batch_new request) w = (x, w1)"
    by (cases "deadline_expired env (batch_new request) w")
  have "pending_tags (batch_new request) = {}" by (auto simp: pending_tags_def batch_new_def Let_def)
  then have "live (batch_new request) w1" using assms(1) loop_inv_new [of request] by (simp add: live_def)
  from run_batch_loop_returns [OF this assms(2,3)]
  show ?thesis using d by (auto simp: run_batch_def Let_def)
qed

end

section \<open>The concrete host\<close>

definition ts_owes :: "tsim \<Rightarrow> u64 multiset" where
  "ts_owes w = image_mset entry_user_data (mset (ts_sq w)) + mset (map fst (ts_held w)) +
     image_mset cqe_user_data (mset (ts_cq w))"

definition ts_events :: "tsim \<Rightarrow> nat" where
  "ts_events w = ts_slow w + (if ts_signal w then 1 else 0)"

lemma done_cqe_user_data [simp]: "cqe_user_data (done_cqe ud r) = ud" "cqe_user_data (written_cqe h) = fst h"
  by (simp_all add: done_cqe_def written_cqe_def)

lemma ts_accept_owes:
  "ts_owes (ts_accept e w) = add_mset (entry_user_data e) (ts_owes w)"
  "ts_sq (ts_accept e w) = ts_sq w" "ts_events (ts_accept e w) = ts_events w"
proof -
  have split: "mset hs = mset (filter (\<lambda>h. fst h \<noteq> t) hs) + mset (filter (\<lambda>h. fst h = t) hs)" for hs :: "(u64 \<times> u32) list" and t
    by (induction hs) auto
  show "ts_owes (ts_accept e w) = add_mset (entry_user_data e) (ts_owes w)"
  proof (cases e)
    case (AsyncCancel target ud)
    have "image_mset fst (mset (ts_held w)) =
        image_mset fst (mset (filter (\<lambda>h. fst h \<noteq> target) (ts_held w))) +
        image_mset fst (mset (filter (\<lambda>h. fst h = target) (ts_held w)))"
      using arg_cong [OF split [of "ts_held w" target], of "image_mset fst"] by (simp only: image_mset_union)
    then show ?thesis using AsyncCancel by (simp add: ts_owes_def multiset.map_comp comp_def)
  qed (simp_all add: ts_owes_def)
  show "ts_sq (ts_accept e w) = ts_sq w" "ts_events (ts_accept e w) = ts_events w"
    by (cases e; simp add: ts_events_def)+
qed

lemma ts_accepts_owes:
  "ts_owes (fold ts_accept es w) = image_mset entry_user_data (mset es) + ts_owes w \<and>
   ts_sq (fold ts_accept es w) = ts_sq w \<and> ts_events (fold ts_accept es w) = ts_events w"
  by (induction es arbitrary: w) (simp_all add: ts_accept_owes)

lemma ts_submit_owes:
  assumes "ts_submit w = (r, w')"
  shows "r = Ok () \<and> ts_owes w' = ts_owes w \<and> ts_events w' = ts_events w \<and> ts_sq w' = []"
proof -
  have "ts_owes w = image_mset entry_user_data (mset (ts_sq w)) + ts_owes (w\<lparr>ts_sq := []\<rparr>)"
    "ts_events (w\<lparr>ts_sq := []\<rparr>) = ts_events w"
    by (simp_all add: ts_owes_def ts_events_def)
  then show ?thesis
    using assms ts_accepts_owes [of "ts_sq w" "w\<lparr>ts_sq := []\<rparr>"] by (auto simp: ts_submit_def)
qed

lemma ts_push_owes:
  assumes "ts_push es w = (ok, w')"
  shows "ts_owes w' = ts_owes w + (if ok then image_mset entry_user_data (mset es) else {#}) \<and> ts_events w' = ts_events w"
  using assms by (auto simp: ts_push_def ts_owes_def ts_events_def split: if_splits)

lemma ts_poll_keeps:
  assumes "ts_poll timeout w = (r, w')"
  shows "r \<noteq> Panic \<and> (\<forall>e. r = Err e \<longrightarrow> kind e \<noteq> Interrupted) \<and>
    world_keeps ts_owes (\<lambda>w. ts_sq w = []) ts_events w w' \<and>
    (\<forall>v. r = Ok v \<longrightarrow> ts_sq w = [] \<longrightarrow> ts_owes w \<noteq> {#} \<longrightarrow>
       ts_cq w' \<noteq> [] \<or> ts_events w' < ts_events w \<or> v ! 0 \<and> ts_signal w')"
  using assms
  by (auto simp: ts_poll_def ts_owes_def ts_events_def world_keeps_def decode_error_kind_def errno_defs multiset.map_comp comp_def
      split: if_splits)

interpretation ts_kernel: tx_kernel ts_env 3 ts_owes "\<lambda>w. ts_sq w = []" "\<lambda>w. ts_cq w \<noteq> []" ts_signal ts_events
  "\<lambda>w. length (ts_cmds w)" "\<lambda>w. if ts_signal w then 1 else 0"
proof (unfold_locales, goal_cases)
  case (3 w w')
  then show ?case using ts_submit_owes [of w] by simp
next
  case (4 e w ok w')
  then show ?case using ts_push_owes [of "[e]" w] by simp
next
  case (5 es w ok w')
  then show ?case using ts_push_owes [of es w] by simp
next
  case (6 w r w')
  then show ?case using ts_submit_owes [of w] by simp
next
  case (7 fds timeout w r w')
  then show ?case using ts_poll_keeps [of timeout w r w'] by simp
qed (auto simp: ts_push_def ts_read_def world_keeps_def ts_owes_def ts_events_def decode_error_kind_def errno_defs
       split: if_splits list.splits)

section \<open>Every batch is answered\<close>

text \<open>
  C6.  A batch ends: on a kernel that completes every submitted write once, makes room in the
  submission queue when it is entered, and whose \<^verbatim>\<open>poll\<close> returns only for a completion or for one of
  finitely many other events, \<^verbatim>\<open>run_batch\<close> returns a response for the request, with links or without, with or
  without a deadline or a cancellation, and for any number of buffers the tag can index.  It
  neither loops for ever, nor panics, nor returns an error in place of the response.
\<close>

theorem run_batch_terminates:
  assumes "tx_kernel env cmd_fd owes flushed ready signalled events queued ticks"
    and "length (req_bufs request) \<le> 2 ^ 40" "0 < submit_chunk_size self" "tx_command_eventfd self = cmd_fd"
  shows "\<exists>resp s'. run_batch env request (self, w) = Some (Ok (req_response request, resp), s')"
  by (rule tx_kernel.run_batch_returns [OF assms])

theorem run_batch_terminates_witness:
  "\<exists>resp s'. run_batch ts_env (example_request True) (ts_thread, ts_empty\<lparr>ts_slow := 3, ts_signal := True\<rparr>) =
     Some (Ok (req_response (example_request True), resp), s')"
  by (rule run_batch_terminates [OF ts_kernel.tx_kernel_axioms])
     (simp_all add: ts_empty_def ts_thread_def example_request_def)

end
