(* ===== verification/Tx_Controller.thy ===== *)
theory Tx_Controller
  imports Tx_Live
begin

text \<open>
  The caller's side of TX (\<^verbatim>\<open>TxController\<close>, \<^verbatim>\<open>acquire_batch_slot\<close>, \<^verbatim>\<open>TxBatchDropGuard\<close> and \<^verbatim>\<open>TxRingContext\<close> of
  \<^verbatim>\<open>src/src/core/tx.rs\<close>).

  \<^verbatim>\<open>send_many\<close> is an \<^verbatim>\<open>async fn\<close>: a future that runs when it is polled, until it is ready or
  waits.  It waits at two places, for the batch slot and for the response of the driver.  The
  record \<open>send_future\<close> holds its variables, \<open>send_many_poll\<close> is one poll, and \<open>send_many_drop\<close> is
  what dropping the future does.  The state is the future, the slot shared with the driver thread
  and the world; \<open>results\<close>, which the caller lends to the call, is part of the future.
\<close>

section \<open>The environment of a caller\<close>

text \<open>
  What a caller uses beside \<open>tx_env\<close>: the ring's set-up, threads, the sending end of the command
  channel, a response channel and a cancel flag per call, and the timer of \<^verbatim>\<open>make_timer\<close>.
\<close>

record ('w, 'a) tx_call_env = "('w, 'a) tx_env" +
  tx_uring_new :: "u32 \<Rightarrow> 'w \<Rightarrow> unit res \<times> 'w"
  tx_fast_poll :: "'w \<Rightarrow> bool"
  tx_register_eventfd :: "i32 \<Rightarrow> 'w \<Rightarrow> unit res \<times> 'w"
  tx_unregister_eventfd :: "'w \<Rightarrow> unit res \<times> 'w"
  tx_spawn :: "string \<Rightarrow> 'w \<Rightarrow> unit res \<times> 'w"
  tx_join :: "'w \<Rightarrow> 'w"
  tx_command_send :: "'a TxDriverCommand \<Rightarrow> 'w \<Rightarrow> bool \<times> 'w"
  response_new :: "'w \<Rightarrow> 'a \<times> 'w"
  response_poll :: "'a \<Rightarrow> nat \<Rightarrow> 'w \<Rightarrow> TxBatchResponse option Poll \<times> 'w"
  flag_new :: "'w \<Rightarrow> nat \<times> 'w"
  flag_raise :: "nat \<Rightarrow> 'w \<Rightarrow> 'w"
  timer_new :: "nat \<Rightarrow> 'w \<Rightarrow> nat \<times> 'w"
  timer_poll :: "nat \<Rightarrow> nat \<Rightarrow> 'w \<Rightarrow> bool \<times> 'w"

section \<open>Ring and thread\<close>

definition tx_ring_new :: "('w, 'a, 'm) tx_call_env_scheme \<Rightarrow> u32 \<Rightarrow> 'w \<Rightarrow> i32 res \<times> 'w" where
  "tx_ring_new env entries w =
     then_try (tx_uring_new env entries w) (\<lambda>_ w.
     if \<not> tx_fast_poll env w then (Err (unsupported ''tx io_uring requires IORING_FEAT_FAST_POLL''), w)
     else
       then_try (new_eventfd env w) (\<lambda>cq_eventfd w.
       then_try (tx_register_eventfd env cq_eventfd w) (\<lambda>_ w. (Ok cq_eventfd, w))))"

definition tx_ring_drop :: "('w, 'a, 'm) tx_call_env_scheme \<Rightarrow> 'w \<Rightarrow> 'w" where
  "tx_ring_drop env w = snd (tx_unregister_eventfd env w)"

record TxController =
  ctl_eventfd :: i32
  ctl_thread_name :: string
  ctl_thread :: bool

text \<open>\<^verbatim>\<open>TxController::new\<close>: the controller, and the state its thread starts from.\<close>

definition tx_controller_new :: "('w, 'a, 'm) tx_call_env_scheme \<Rightarrow> i32 \<Rightarrow> u32 \<Rightarrow> usize \<Rightarrow> string \<Rightarrow> 'w \<Rightarrow>
    (TxController \<times> TxDriverThread) res \<times> 'w" where
  "tx_controller_new env fd ring_entries chunk_size thread_name w =
     then_try (tx_ring_new env ring_entries w) (\<lambda>cq_eventfd w.
     then_try (new_eventfd env w) (\<lambda>eventfd_read w.
     then_try (dup_fd env eventfd_read w) (\<lambda>eventfd_write w.
     then_try (tx_spawn env thread_name w) (\<lambda>_ w.
       (Ok (\<lparr> ctl_eventfd = eventfd_write, ctl_thread_name = thread_name, ctl_thread = True \<rparr>,
            \<lparr> tx_cq_eventfd = cq_eventfd, tx_device = fd, tx_command_eventfd = eventfd_read,
              tx_shared = slot_default, submit_chunk_size = chunk_size, tx_shutdown_requested = False \<rparr>), w)))))"

definition tx_phase :: "TxBatchSharedState \<Rightarrow> TxBatchPhase" where
  "tx_phase sl = phase sl"

text \<open>\<^verbatim>\<open>try_send_command\<close> returns the command that was not sent, \<^verbatim>\<open>Shutdown\<close> if only the signal failed.\<close>

definition try_send_command :: "('w, 'a, 'm) tx_call_env_scheme \<Rightarrow> TxController \<Rightarrow> 'a TxDriverCommand \<Rightarrow> 'w \<Rightarrow>
    ('a TxDriverCommand option, 'w) call" where
  "try_send_command env self command w =
     (let (sent, w) = tx_command_send env command w in
      if \<not> sent then Some (Ok (Some command), w)
      else Option.bind (signal_eventfd env (ctl_eventfd self) w) (\<lambda>(r, w). case r of
             Ok _ \<Rightarrow> Some (Ok None, w) | Err _ \<Rightarrow> Some (Ok (Some TxShutdown), w) | Panic \<Rightarrow> Some (Panic, w)))"

definition send_command :: "('w, 'a, 'm) tx_call_env_scheme \<Rightarrow> TxController \<Rightarrow> 'a TxDriverCommand \<Rightarrow> 'w \<Rightarrow>
    (unit, 'w) call" where
  "send_command env self command w =
     andthen (try_send_command env self command w) (\<lambda>unsent w.
       Some (if unsent = None then Ok () else Err rx_driver_closed, w))"

definition tx_controller_drop :: "('w, 'a, 'm) tx_call_env_scheme \<Rightarrow> TxController \<Rightarrow> 'w \<Rightarrow>
    (unit, TxController \<times> 'w) call" where
  "tx_controller_drop env self w =
     andthen (on_world (ignoring (send_command env self TxShutdown w)) self) (\<lambda>_ (self, w).
       if ctl_thread self then Some (Ok (), self\<lparr>ctl_thread := False\<rparr>, tx_join env w) else Some (Ok (), self, w))"

section \<open>Waiting for the slot\<close>

text \<open>
  The future of \<^verbatim>\<open>acquire_batch_slot\<close>, before its first poll and while it waits (with the timer it
  made, if there is a deadline).  \<^verbatim>\<open>d - now\<close> is \<^verbatim>\<open>saturating_duration_since\<close>.
\<close>

datatype acquire_future = AcquireStart | AcquireWait "nat option"

definition acquire_wait :: "('w, 'a, 'm) tx_call_env_scheme \<Rightarrow> nat \<Rightarrow> nat option \<Rightarrow> TxBatchSharedState \<times> 'w \<Rightarrow>
    bool Poll \<times> acquire_future \<times> TxBatchSharedState \<times> 'w" where
  "acquire_wait env cx timer s =
     (let (sl, w) = s; (acquired, sl) = try_acquire_or_register cx sl in
      if acquired then (Ready True, AcquireWait timer, sl, w)
      else case timer of
             None \<Rightarrow> (Pending, AcquireWait timer, sl, w)
           | Some t \<Rightarrow>
               (let (fired, w) = timer_poll env t cx w
                in (if fired then Ready False else Pending, AcquireWait timer, sl, w)))"

fun acquire_poll :: "('w, 'a, 'm) tx_call_env_scheme \<Rightarrow> nat option \<Rightarrow> nat \<Rightarrow> acquire_future \<Rightarrow>
    TxBatchSharedState \<times> 'w \<Rightarrow> bool Poll \<times> acquire_future \<times> TxBatchSharedState \<times> 'w" where
  "acquire_poll env due cx AcquireStart s =
     (let (sl, w) = s; (acquired, sl) = try_acquire sl in
      if acquired then (Ready True, AcquireStart, sl, w)
      else case due of
             None \<Rightarrow> acquire_wait env cx None (sl, w)
           | Some d \<Rightarrow>
               (let (now, w) = instant_now env w in
                if now \<ge> d then (Ready False, AcquireStart, sl, w)
                else (let (now, w) = instant_now env w; (timer, w) = timer_new env (d - now) w
                      in acquire_wait env cx (Some timer) (sl, w))))"
| "acquire_poll env due cx (AcquireWait timer) s = acquire_wait env cx timer s"

section \<open>The drop guard\<close>

record TxBatchDropGuard =
  guard_cancel_requested :: nat
  guard_eventfd :: i32
  guard_armed :: bool

definition drop_guard_new :: "nat \<Rightarrow> i32 \<Rightarrow> TxBatchDropGuard" where
  "drop_guard_new flag fd = \<lparr> guard_cancel_requested = flag, guard_eventfd = fd, guard_armed = True \<rparr>"

definition guard_disarm :: "TxBatchDropGuard \<Rightarrow> TxBatchDropGuard" where
  "guard_disarm self = self\<lparr>guard_armed := False\<rparr>"

definition drop_guard_drop :: "('w, 'a, 'm) tx_call_env_scheme \<Rightarrow> TxBatchDropGuard \<Rightarrow> 'w \<Rightarrow> (unit, 'w) call" where
  "drop_guard_drop env self w =
     (if \<not> guard_armed self then Some (Ok (), w)
      else ignoring (signal_eventfd env (guard_eventfd self) (flag_raise env (guard_cancel_requested self) w)))"

section \<open>Sending a batch\<close>

text \<open>The loop over \<^verbatim>\<open>results.iter_mut().take(len).zip(response.results)\<close>.\<close>

fun copy_results :: "nat \<Rightarrow> usize res option list \<Rightarrow> usize res option list \<Rightarrow> usize res option list" where
  "copy_results (Suc len) (_ # out) (r # rs) = r # copy_results len out rs"
| "copy_results _ out _ = out"

text \<open>
  \<^verbatim>\<open>Instant + Duration\<close>, in nanoseconds; an \<^verbatim>\<open>Instant\<close> counts its seconds in an \<^verbatim>\<open>i64\<close>, and the addition
  panics when the sum does not fit.
\<close>

definition instant_add :: "nat \<Rightarrow> nat \<Rightarrow> nat res" where
  "instant_add t d = (if t + d < 2 ^ 63 * 10 ^ 9 then Ok (t + d) else Panic)"

datatype 'a send_state =
    Unpolled
  | Acquiring "nat option" acquire_future
  | AwaitingResponse usize 'a TxBatchDropGuard
  | Finished

record 'a send_future =
  sf_bufs :: "Bytes list"
  sf_results :: "usize res option list"
  sf_timeout :: nat
  sf_keep_order :: bool
  sf_state :: "'a send_state"

definition send_future_new :: "Bytes list \<Rightarrow> usize res option list \<Rightarrow> nat \<Rightarrow> bool \<Rightarrow> 'a send_future" where
  "send_future_new buffers rs timeout keep = \<lparr> sf_bufs = buffers, sf_results = rs, sf_timeout = timeout,
     sf_keep_order = keep, sf_state = Unpolled \<rparr>"

type_synonym ('a, 'w) send_sys = "'a send_future \<times> TxBatchSharedState \<times> 'w"

definition short_results_error :: io_error where
  "short_results_error = invalid_input ''send_many results slice is shorter than input buffers''"

definition slot_timed_out :: io_error where
  "slot_timed_out = Custom TimedOut ''timed out waiting for tx batch slot''"

definition late_timed_out :: io_error where
  "late_timed_out = Custom TimedOut ''timed out before tx batch submission''"

definition release_shared :: "('w, 'a, 'm) tx_env_scheme \<Rightarrow> TxBatchSharedState \<times> 'w \<Rightarrow> TxBatchSharedState \<times> 'w" where
  "release_shared env s =
     (let (sl, w) = s; (_, sl, wakers) = release_to_idle sl in (sl, tx_wake env wakers w))"

text \<open>Returning from \<^verbatim>\<open>send_many\<close>.\<close>

definition send_ready :: "Bytes list \<Rightarrow> usize res option list \<Rightarrow> ('a, 'w) send_sys \<Rightarrow>
    (Bytes list Poll, ('a, 'w) send_sys) call" where
  "send_ready buffers rs s = Some (Ok (Ready buffers), (fst s)\<lparr>sf_results := rs, sf_state := Finished\<rparr>, snd s)"

text \<open>A call on the world inside a poll.\<close>

definition on_send :: "('x, 'w) call \<Rightarrow> 'a send_future \<Rightarrow> TxBatchSharedState \<Rightarrow> ('x, ('a, 'w) send_sys) call" where
  "on_send m fut sl = on_world (on_world m sl) fut"

text \<open>Waiting for the response; the guard is dropped when the function returns.\<close>

definition send_many_response :: "('w, 'a, 'm) tx_call_env_scheme \<Rightarrow> nat \<Rightarrow> usize \<Rightarrow> 'a \<Rightarrow> TxBatchDropGuard \<Rightarrow>
    ('a, 'w) send_sys \<Rightarrow> (Bytes list Poll, ('a, 'w) send_sys) call" where
  "send_many_response env cx len response_rx guard s =
     (let (fut, sl, w) = s in
      case response_poll env response_rx cx w of
        (Pending, w) \<Rightarrow> Some (Ok Pending, fut\<lparr>sf_state := AwaitingResponse len response_rx guard\<rparr>, sl, w)
      | (Ready (Some resp), w) \<Rightarrow>
          andthen (on_send (drop_guard_drop env (guard_disarm guard) w) fut sl)
            (\<lambda>_. send_ready (resp_bufs resp) (copy_results len (sf_results fut) (resp_results resp)))
      | (Ready None, w) \<Rightarrow>
          (let (sl, w) = release_shared env (sl, w)
           in andthen (on_send (drop_guard_drop env guard w) fut sl) (\<lambda>_. send_ready [] (sf_results fut))))"

text \<open>From the acquired slot to the request.\<close>

definition send_many_submit :: "('w, 'a, 'm) tx_call_env_scheme \<Rightarrow> TxController \<Rightarrow> nat \<Rightarrow> nat option \<Rightarrow>
    ('a, 'w) send_sys \<Rightarrow> (Bytes list Poll, ('a, 'w) send_sys) call" where
  "send_many_submit env self cx due s =
     (let (fut, sl, w) = s; len = length (sf_bufs fut);
          (late, w) = (case due of None \<Rightarrow> (False, w)
                       | Some d \<Rightarrow> (let (now, w) = instant_now env w in (now \<ge> d, w)))
      in if late then
           send_ready (sf_bufs fut) (fill_result_prefix (sf_results fut) len (Err late_timed_out))
             (fut, release_shared env (sl, w))
         else
           (let (response_rx, w) = response_new env w; (flag, w) = flag_new env w;
                guard = drop_guard_new flag (ctl_eventfd self);
                request = \<lparr> req_bufs = sf_bufs fut, req_deadline = due, req_keep_order = sf_keep_order fut,
                            req_cancel_requested = flag, req_response = response_rx \<rparr>;
                fut = fut\<lparr>sf_bufs := []\<rparr>
            in andthen (on_send (try_send_command env self (RunBatch request) w) fut sl) (\<lambda>unsent (fut, sl, w).
                 case unsent of
                   None \<Rightarrow> send_many_response env cx len response_rx guard (fut, sl, w)
                 | Some command \<Rightarrow>
                     (let (sl, w) = release_shared env (sl, w)
                      in andthen (on_send (drop_guard_drop env guard w) fut sl) (\<lambda>_.
                           case command of
                             RunBatch request \<Rightarrow> send_ready (req_bufs request)
                               (fill_result_prefix (sf_results fut) len (Err rx_driver_closed))
                           | TxShutdown \<Rightarrow> send_ready [] (sf_results fut))))))"

definition send_many_acquire :: "('w, 'a, 'm) tx_call_env_scheme \<Rightarrow> TxController \<Rightarrow> nat \<Rightarrow> nat option \<Rightarrow>
    acquire_future \<Rightarrow> ('a, 'w) send_sys \<Rightarrow> (Bytes list Poll, ('a, 'w) send_sys) call" where
  "send_many_acquire env self cx due acquire s =
     (let (fut, sl, w) = s; (acquired, acquire, sl, w) = acquire_poll env due cx acquire (sl, w) in
      case acquired of
        Pending \<Rightarrow> Some (Ok Pending, fut\<lparr>sf_state := Acquiring due acquire\<rparr>, sl, w)
      | Ready True \<Rightarrow> send_many_submit env self cx due (fut, sl, w)
      | Ready False \<Rightarrow> send_ready (sf_bufs fut)
          (fill_result_prefix (sf_results fut) (length (sf_bufs fut)) (Err slot_timed_out)) (fut, sl, w))"

definition send_many_start :: "('w, 'a, 'm) tx_call_env_scheme \<Rightarrow> TxController \<Rightarrow> nat \<Rightarrow>
    ('a, 'w) send_sys \<Rightarrow> (Bytes list Poll, ('a, 'w) send_sys) call" where
  "send_many_start env self cx s =
     (let (fut, sl, w) = s; len = length (sf_bufs fut); rs = sf_results fut in
      if len = 0 then send_ready (sf_bufs fut) rs s
      else if length rs < len then send_ready (sf_bufs fut) (map (\<lambda>_. Some (Err short_results_error)) rs) s
      else
        (let fut = fut\<lparr>sf_results := clear_result_prefix rs len\<rparr> in
         if sf_timeout fut = 0 then send_many_acquire env self cx None AcquireStart (fut, sl, w)
         else
           (let (now, w) = instant_now env w in
            case instant_add now (sf_timeout fut) of
              Ok d \<Rightarrow> send_many_acquire env self cx (Some d) AcquireStart (fut, sl, w)
            | _ \<Rightarrow> Some (Panic, fut, sl, w))))"

fun send_many_poll :: "('w, 'a, 'm) tx_call_env_scheme \<Rightarrow> TxController \<Rightarrow> nat \<Rightarrow> ('a, 'w) send_sys \<Rightarrow>
    (Bytes list Poll, ('a, 'w) send_sys) call" where
  "send_many_poll env self cx (fut, s) =
     (case sf_state fut of
        Unpolled \<Rightarrow> send_many_start env self cx (fut, s)
      | Acquiring due acquire \<Rightarrow> send_many_acquire env self cx due acquire (fut, s)
      | AwaitingResponse len response_rx guard \<Rightarrow> send_many_response env cx len response_rx guard (fut, s)
      | Finished \<Rightarrow> Some (Panic, fut, s))"

text \<open>Dropping the future drops the guard, if it has been created.\<close>

definition send_many_drop :: "('w, 'a, 'm) tx_call_env_scheme \<Rightarrow> ('a, 'w) send_sys \<Rightarrow>
    (unit, ('a, 'w) send_sys) call" where
  "send_many_drop env s =
     (let (fut, sl, w) = s in
      case sf_state fut of
        AwaitingResponse len response_rx guard \<Rightarrow>
          andthen (on_send (drop_guard_drop env guard w) fut sl) (\<lambda>_ (fut, s). Some (Ok (), fut\<lparr>sf_state := Finished\<rparr>, s))
      | _ \<Rightarrow> Some (Ok (), fut\<lparr>sf_state := Finished\<rparr>, sl, w))"

section \<open>Polls are steps of the slot protocol\<close>

text \<open>Runs of one task in the system of \<open>Tx_Slot\<close>.\<close>

definition slot_run :: "nat \<Rightarrow> acquire_pc \<Rightarrow> TxBatchSharedState \<Rightarrow> acquire_pc \<Rightarrow> TxBatchSharedState \<Rightarrow> bool" where
  "slot_run i pc sl pc' sl' \<longleftrightarrow>
     (\<forall>ts woken. i < length ts \<longrightarrow> ts ! i = pc \<longrightarrow>
        (\<exists>woken'. slot_step\<^sup>*\<^sup>* \<lparr> slot = sl, tasks = ts, woken_tasks = woken \<rparr>
           \<lparr> slot = sl', tasks = ts[i := pc'], woken_tasks = woken' \<rparr>))"

lemma slot_run_refl [simp]: "slot_run i pc sl pc sl"
  by (auto simp: slot_run_def list_update_same_conv [THEN iffD2])

lemma slot_run_trans: "slot_run i pc sl pc1 sl1 \<Longrightarrow> slot_run i pc1 sl1 pc2 sl2 \<Longrightarrow> slot_run i pc sl pc2 sl2"
proof -
  assume 1: "slot_run i pc sl pc1 sl1" and 2: "slot_run i pc1 sl1 pc2 sl2"
  show ?thesis
    unfolding slot_run_def
  proof (intro allI impI)
    fix ts :: "acquire_pc list" and woken
    assume i: "i < length ts" "ts ! i = pc"
    from 1 i obtain u where "slot_step\<^sup>*\<^sup>* \<lparr> slot = sl, tasks = ts, woken_tasks = woken \<rparr>
        \<lparr> slot = sl1, tasks = ts[i := pc1], woken_tasks = u \<rparr>" unfolding slot_run_def by blast
    moreover from 2 i obtain v where "slot_step\<^sup>*\<^sup>* \<lparr> slot = sl1, tasks = ts[i := pc1], woken_tasks = u \<rparr>
        \<lparr> slot = sl2, tasks = ts[i := pc1, i := pc2], woken_tasks = v \<rparr>"
      unfolding slot_run_def by (metis length_list_update nth_list_update_eq)
    ultimately show "\<exists>v. slot_step\<^sup>*\<^sup>* \<lparr> slot = sl, tasks = ts, woken_tasks = woken \<rparr>
        \<lparr> slot = sl2, tasks = ts[i := pc2], woken_tasks = v \<rparr>"
      by (metis list_update_overwrite rtranclp_trans)
  qed
qed

lemma slot_run_acquire:
  assumes "acquire_step e t i pc sl = (pc', sl')"
  shows "slot_run i pc sl pc' sl'"
  unfolding slot_run_def
proof (intro allI impI)
  fix ts :: "acquire_pc list" and woken
  assume "i < length ts" "ts ! i = pc"
  then have "slot_step \<lparr> slot = sl, tasks = ts, woken_tasks = woken \<rparr>
      \<lparr> slot = sl', tasks = ts[i := pc'], woken_tasks = woken - {i} \<rparr>"
    using slot_step.acquire [of i "\<lparr> slot = sl, tasks = ts, woken_tasks = woken \<rparr>" e t pc' sl'] assms by simp
  then show "\<exists>woken'. slot_step\<^sup>*\<^sup>* \<lparr> slot = sl, tasks = ts, woken_tasks = woken \<rparr>
      \<lparr> slot = sl', tasks = ts[i := pc'], woken_tasks = woken' \<rparr>" by blast
qed

lemma slot_run_release:
  assumes "release_to_idle sl = (b, sl', ws)"
  shows "slot_run i (AcqDone True) sl AcqReleased sl'"
  unfolding slot_run_def
proof (intro allI impI)
  fix ts :: "acquire_pc list" and woken
  assume "i < length ts" "ts ! i = AcqDone True"
  then have "slot_step \<lparr> slot = sl, tasks = ts, woken_tasks = woken \<rparr>
      \<lparr> slot = sl', tasks = ts[i := AcqReleased], woken_tasks = woken \<union> set ws \<rparr>"
    using slot_step.release [of i "\<lparr> slot = sl, tasks = ts, woken_tasks = woken \<rparr>" b sl' ws] assms by simp
  then show "\<exists>woken'. slot_step\<^sup>*\<^sup>* \<lparr> slot = sl, tasks = ts, woken_tasks = woken \<rparr>
      \<lparr> slot = sl', tasks = ts[i := AcqReleased], woken_tasks = woken' \<rparr>" by blast
qed

lemma slot_run_released: "release_shared env (sl, w) = (sl', w') \<Longrightarrow> slot_run i (AcqDone True) sl AcqReleased sl'"
  by (auto simp: release_shared_def split: prod.splits intro: slot_run_release)

text \<open>The state of the acquiring future as a program point of \<open>Tx_Slot\<close>.\<close>

fun acquire_pc_of :: "acquire_future \<Rightarrow> acquire_pc" where
  "acquire_pc_of AcquireStart = AcqTry"
| "acquire_pc_of (AcquireWait timer) = AcqPending"

fun acquired_pc :: "bool Poll \<Rightarrow> acquire_pc" where
  "acquired_pc (Ready b) = AcqDone b"
| "acquired_pc Pending = AcqPending"

lemma acquire_wait_run:
  assumes "acquire_wait env i timer (sl, w) = (p, af, sl', w')" "pc = AcqPoll \<or> pc = AcqPending"
  shows "slot_run i pc sl (acquired_pc p) sl' \<and> af = AcquireWait timer"
proof -
  obtain ok sl1 where r: "try_acquire_or_register i sl = (ok, sl1)" by (cases "try_acquire_or_register i sl")
  have "\<exists>e t. acquire_step e t i pc sl = (acquired_pc p, sl')"
  proof (cases ok)
    case False
    show ?thesis
    proof (cases timer)
      case None
      then show ?thesis using assms r False by (auto simp: acquire_wait_def intro!: exI [of _ None])
    next
      case (Some t)
      obtain fired w1 where "timer_poll env t i w = (fired, w1)" by (cases "timer_poll env t i w")
      then show ?thesis
        using assms r False Some by (auto simp: acquire_wait_def intro!: exI [of _ "Some False"] exI [of _ fired])
    qed
  qed (use assms r in \<open>auto simp: acquire_wait_def\<close>)
  moreover have "af = AcquireWait timer"
    using assms(1) r by (auto simp: acquire_wait_def split: if_splits option.splits prod.splits)
  ultimately show ?thesis using slot_run_acquire by blast
qed

lemma acquire_poll_run:
  assumes "acquire_poll env due i af (sl, w) = (p, af', sl', w')"
  shows "slot_run i (acquire_pc_of af) sl (acquired_pc p) sl'" "p = Pending \<Longrightarrow> acquire_pc_of af' = AcqPending"
proof -
  have "slot_run i (acquire_pc_of af) sl (acquired_pc p) sl' \<and> (p = Pending \<longrightarrow> acquire_pc_of af' = AcqPending)"
  proof (cases af)
    case (AcquireWait timer)
    then show ?thesis using assms acquire_wait_run [of env i timer sl w p af' sl' w' AcqPending] by simp
  next
    case AcquireStart
    obtain ok sl1 where t: "try_acquire sl = (ok, sl1)" by (cases "try_acquire sl")
    show ?thesis
    proof (cases ok)
      case True
      then have "slot_run i AcqTry sl (AcqDone True) sl1"
        using t by (intro slot_run_acquire [of None False]) simp
      then show ?thesis using assms AcquireStart t True by auto
    next
      case False
      have sl1: "sl1 = sl" using t False by (auto simp: try_acquire_def split: if_splits)
      have go: "slot_run i AcqTry sl AcqPoll sl"
        using t False sl1 by (intro slot_run_acquire [of None False]) simp
      have expire: "slot_run i AcqTry sl (AcqDone False) sl"
        using t False sl1 by (intro slot_run_acquire [of "Some True" False]) simp
      have wait: "?thesis" if "acquire_wait env i timer (sl, v) = (p, af', sl', w')" for timer v
        using acquire_wait_run [OF that, of AcqPoll] slot_run_trans [OF go] AcquireStart by auto
      show ?thesis
        using assms AcquireStart t False sl1 wait expire
        by (auto simp: Let_def split: option.splits prod.splits if_splits)
    qed
  qed
  then show "slot_run i (acquire_pc_of af) sl (acquired_pc p) sl'" "p = Pending \<Longrightarrow> acquire_pc_of af' = AcqPending"
    by auto
qed

fun send_pc :: "'a send_state \<Rightarrow> acquire_pc" where
  "send_pc Unpolled = AcqTry"
| "send_pc (Acquiring due acquire) = acquire_pc_of acquire"
| "send_pc (AwaitingResponse len response_rx guard) = AcqDone True"
| "send_pc Finished = AcqReleased"

text \<open>
  What a poll that starts at \<open>pc\<close> may do to the slot: a run of that task, which ends at the program
  point of the new state if the future still waits.
\<close>

definition poll_runs :: "nat \<Rightarrow> acquire_pc \<Rightarrow> TxBatchSharedState \<Rightarrow> Bytes list Poll res \<Rightarrow> ('a, 'w) send_sys \<Rightarrow> bool" where
  "poll_runs i pc sl r s \<longleftrightarrow>
     (\<forall>p. r = Ok p \<longrightarrow> (\<exists>pc'. slot_run i pc sl pc' (fst (snd s)) \<and>
        (p = Pending \<longrightarrow> pc' = send_pc (sf_state (fst s))) \<and> (p \<noteq> Pending \<longrightarrow> sf_state (fst s) = Finished)))"

lemma poll_runs_trans: "slot_run i pc sl pc1 sl1 \<Longrightarrow> poll_runs i pc1 sl1 r s \<Longrightarrow> poll_runs i pc sl r s"
  unfolding poll_runs_def by (metis slot_run_trans)

lemma poll_runs_after:
  "slot_run i pc sl pc1 sl1 \<Longrightarrow> call_post (poll_runs i pc1 sl1) m \<Longrightarrow> call_post (poll_runs i pc sl) m"
  by (erule call_post_mono) (rule poll_runs_trans)

lemma poll_runs_errors [simp]: "poll_runs i pc sl Panic s" "poll_runs i pc sl (Err e) s"
  by (simp_all add: poll_runs_def)

lemma send_ready_runs: "slot_run i pc sl pc' (fst (snd s)) \<Longrightarrow> call_post (poll_runs i pc sl) (send_ready buffers rs s)"
  by (auto simp: send_ready_def poll_runs_def)

lemma on_send_post:
  assumes "\<And>r w'. m = Some (r, w') \<Longrightarrow> call_post Q (case r of Ok x \<Rightarrow> f x (fut, sl, w') | Err e \<Rightarrow> Some (Err e, fut, sl, w') | Panic \<Rightarrow> Some (Panic, fut, sl, w'))"
  shows "call_post Q (andthen (on_send m fut sl) f)"
proof (cases m)
  case (Some a)
  then show ?thesis using assms [of "fst a" "snd a"] by (cases a; cases "fst a") (simp_all add: on_send_def)
qed (simp add: on_send_def)

lemma guard_then_ready_runs:
  "slot_run i pc sl pc' sl1 \<Longrightarrow>
   call_post (poll_runs i pc sl) (andthen (on_send (drop_guard_drop env guard w) fut sl1) (\<lambda>_. send_ready buffers rs))"
  by (rule on_send_post) (auto split: res.split intro: send_ready_runs)

lemma send_many_response_runs:
  "call_post (poll_runs i (AcqDone True) sl) (send_many_response env cx len response_rx guard (fut, sl, w))"
proof -
  obtain p w1 where p: "response_poll env response_rx cx w = (p, w1)" by (cases "response_poll env response_rx cx w")
  obtain sl2 w2 where rel: "release_shared env (sl, w1) = (sl2, w2)" by (cases "release_shared env (sl, w1)")
  show ?thesis
    using p rel slot_run_released [OF rel, of i]
    by (auto simp: send_many_response_def poll_runs_def [of _ _ _ "Ok Pending"]
        intro: guard_then_ready_runs guard_then_ready_runs [OF slot_run_refl] split: Poll.split option.split
        intro!: exI [of _ "AcqDone True"])
qed

lemma send_many_submit_runs:
  fixes fut :: "'a send_future"
  shows "call_post (poll_runs i (AcqDone True) sl) (send_many_submit env self cx due (fut, sl, w))"
proof -
  have rel: "slot_run i (AcqDone True) sl AcqReleased (fst (release_shared env (sl, v)))" for v
    by (rule slot_run_released [of env sl v _ "snd (release_shared env (sl, v))"]) simp
  have late: "call_post (poll_runs i (AcqDone True) sl) (send_ready buffers rs (fut, release_shared env (sl, v)))"
    for buffers rs v and fut :: "'a send_future"
    using rel by (intro send_ready_runs) simp
  show ?thesis
    unfolding send_many_submit_def Let_def
    by (auto simp: split_beta intro!: late on_send_post send_many_response_runs
        guard_then_ready_runs [OF rel] split: option.split res.split TxDriverCommand.split)
qed

lemma send_many_acquire_runs:
  "call_post (poll_runs i (acquire_pc_of af) sl) (send_many_acquire env self i due af (fut, sl, w))"
proof -
  obtain p af' sl' w' where a: "acquire_poll env due i af (sl, w) = (p, af', sl', w')"
    by (cases "acquire_poll env due i af (sl, w)")
  note run = acquire_poll_run [OF a]
  show ?thesis
  proof (cases p)
    case (Ready b)
    then have run: "slot_run i (acquire_pc_of af) sl (AcqDone b) sl'" using run(1) by simp
    show ?thesis
    proof (cases b)
      case True
      then show ?thesis
        using a Ready run poll_runs_after [OF _ send_many_submit_runs] by (simp add: send_many_acquire_def)
    next
      case False
      then show ?thesis
        using a Ready run by (auto simp: send_many_acquire_def intro: send_ready_runs)
    qed
  next
    case Pending
    then show ?thesis using a run by (auto simp: send_many_acquire_def poll_runs_def)
  qed
qed

lemma send_many_poll_runs:
  "call_post (poll_runs i (send_pc (sf_state fut)) sl) (send_many_poll env self i (fut, sl, w))"
proof (cases "sf_state fut")
  case Unpolled
  have start: "call_post (poll_runs i AcqTry sl) (send_many_acquire env self i due AcquireStart (fut, sl, w))"
    for due fut w
    using send_many_acquire_runs [of i AcquireStart sl env self due fut w] by simp
  show ?thesis
    using Unpolled
    by (auto simp: send_many_start_def Let_def split_beta intro!: start send_ready_runs [where pc' = AcqTry]
        split: res.split)
qed (simp_all add: send_many_acquire_runs send_many_response_runs)

section \<open>What a caller gets back\<close>

text \<open>
  The future between two polls, for a call \<^verbatim>\<open>send_many(buffers, rs, _, keep)\<close>: once it waits for
  the response, a request with the caller's buffers has been accepted by the command channel, and the
  guard is armed with the request's cancel flag.
\<close>

definition sent_request :: "('w, 'a, 'm) tx_call_env_scheme \<Rightarrow> Bytes list \<Rightarrow> bool \<Rightarrow> 'a \<Rightarrow> TxBatchDropGuard \<Rightarrow> 'a TxBatchRequest \<Rightarrow> bool" where
  "sent_request env buffers keep response_rx guard request \<longleftrightarrow>
     (\<exists>w w'. tx_command_send env (RunBatch request) w = (True, w')) \<and>
     req_bufs request = buffers \<and> req_response request = response_rx \<and> req_keep_order request = keep \<and>
     req_cancel_requested request = guard_cancel_requested guard"

definition waiting_inv :: "('w, 'a, 'm) tx_call_env_scheme \<Rightarrow> TxController \<Rightarrow> Bytes list \<Rightarrow> usize res option list \<Rightarrow>
    bool \<Rightarrow> 'a send_future \<Rightarrow> bool" where
  "waiting_inv env self buffers rs keep fut \<longleftrightarrow>
     (case sf_state fut of
        Unpolled \<Rightarrow> sf_bufs fut = buffers \<and> sf_results fut = rs \<and> sf_keep_order fut = keep
      | Acquiring due acquire \<Rightarrow>
          sf_bufs fut = buffers \<and> length buffers \<le> length rs \<and> sf_keep_order fut = keep \<and>
          sf_results fut = clear_result_prefix rs (length buffers)
      | AwaitingResponse len response_rx guard \<Rightarrow>
          len = length buffers \<and> length buffers \<le> length rs \<and>
          sf_results fut = clear_result_prefix rs (length buffers) \<and>
          guard_armed guard \<and> guard_eventfd guard = ctl_eventfd self \<and>
          (\<exists>request. sent_request env buffers keep response_rx guard request)
      | Finished \<Rightarrow> False)"

text \<open>The three ways to return: refused before the batch was sent, answered, or cut off.\<close>

definition refused :: "Bytes list \<Rightarrow> usize res option list \<Rightarrow> usize res option list \<Rightarrow> bool" where
  "refused buffers rs rs' \<longleftrightarrow>
     buffers = [] \<and> rs' = rs \<or>
     length rs < length buffers \<and> rs' = map (\<lambda>_. Some (Err short_results_error)) rs \<or>
     length buffers \<le> length rs \<and>
       (\<exists>e \<in> {slot_timed_out, late_timed_out, rx_driver_closed}. rs' = fill_result_prefix rs (length buffers) (Err e))"

definition answered :: "('w, 'a, 'm) tx_call_env_scheme \<Rightarrow> nat \<Rightarrow> Bytes list \<Rightarrow> usize res option list \<Rightarrow> Bytes list \<Rightarrow>
    usize res option list \<Rightarrow> bool" where
  "answered env cx buffers rs buffers' rs' \<longleftrightarrow>
     (\<exists>a resp w w'. response_poll env a cx w = (Ready (Some resp), w') \<and> buffers' = resp_bufs resp \<and>
        rs' = copy_results (length buffers) (clear_result_prefix rs (length buffers)) (resp_results resp))"

definition cut_off :: "('w, 'a, 'm) tx_call_env_scheme \<Rightarrow> TxController \<Rightarrow> nat \<Rightarrow> bool" where
  "cut_off env self cx \<longleftrightarrow>
     (\<exists>a w w'. response_poll env a cx w = (Ready None, w')) \<or>
     (\<exists>e w w'. signal_eventfd env (ctl_eventfd self) w = Some (Err e, w'))"

definition send_outcome :: "('w, 'a, 'm) tx_call_env_scheme \<Rightarrow> TxController \<Rightarrow> nat \<Rightarrow> Bytes list \<Rightarrow> usize res option list \<Rightarrow>
    bool \<Rightarrow> Bytes list Poll \<Rightarrow> 'a send_future \<Rightarrow> bool" where
  "send_outcome env self cx buffers rs keep p fut \<longleftrightarrow>
     (case p of
        Pending \<Rightarrow> waiting_inv env self buffers rs keep fut
      | Ready buffers' \<Rightarrow>
          sf_state fut = Finished \<and>
          (buffers' = buffers \<and> refused buffers rs (sf_results fut) \<or>
           answered env cx buffers rs buffers' (sf_results fut) \<or>
           cut_off env self cx \<and> buffers' = [] \<and> sf_results fut = clear_result_prefix rs (length buffers)))"

definition outcome_post :: "('w, 'a, 'm) tx_call_env_scheme \<Rightarrow> TxController \<Rightarrow> nat \<Rightarrow> Bytes list \<Rightarrow> usize res option list \<Rightarrow>
    bool \<Rightarrow> Bytes list Poll res \<Rightarrow> ('a, 'w) send_sys \<Rightarrow> bool" where
  "outcome_post env self cx buffers rs keep r s \<longleftrightarrow>
     (\<forall>p. r = Ok p \<longrightarrow> send_outcome env self cx buffers rs keep p (fst s))"

lemma outcome_post_errors [simp]:
  "outcome_post env self cx buffers rs keep Panic s" "outcome_post env self cx buffers rs keep (Err e) s"
  by (simp_all add: outcome_post_def)

lemma fill_after_clear [simp]: "fill_result_prefix (clear_result_prefix rs len) len r = fill_result_prefix rs len r"
  by (cases "len \<le> length rs") (simp_all add: fill_result_prefix_def clear_result_prefix_def)

lemma guard_then_ready_outcome:
  assumes "send_outcome env self cx buffers rs keep (Ready buffers') (fut\<lparr>sf_results := rs', sf_state := Finished\<rparr>)"
  shows "call_post (outcome_post env self cx buffers rs keep)
    (andthen (on_send (drop_guard_drop env' guard w) fut sl) (\<lambda>_. send_ready buffers' rs'))"
  using assms by (intro on_send_post) (auto simp: send_ready_def outcome_post_def split: res.split)

lemma send_many_response_outcome:
  assumes "waiting_inv env self buffers rs keep (fut\<lparr>sf_state := AwaitingResponse len response_rx guard\<rparr>)"
  shows "call_post (outcome_post env self cx buffers rs keep)
    (send_many_response env cx len response_rx guard (fut, sl, w))"
proof -
  obtain p w1 where p: "response_poll env response_rx cx w = (p, w1)" by (cases "response_poll env response_rx cx w")
  obtain sl2 w2 where rel: "release_shared env (sl, w1) = (sl2, w2)" by (cases "release_shared env (sl, w1)")
  consider "p = Pending" | resp where "p = Ready (Some resp)" | "p = Ready None" by (metis Poll.exhaust option.exhaust)
  then show ?thesis
  proof cases
    case 1
    then show ?thesis using p assms by (simp add: send_many_response_def outcome_post_def send_outcome_def)
  next
    case 2
    then have "answered env cx buffers rs (resp_bufs resp)
        (copy_results (length buffers) (clear_result_prefix rs (length buffers)) (resp_results resp))"
      using p by (auto simp: answered_def)
    with 2 show ?thesis
      using p assms unfolding send_many_response_def
      by (auto simp: send_outcome_def waiting_inv_def intro!: guard_then_ready_outcome)
  next
    case 3
    then have "cut_off env self cx" using p by (auto simp: cut_off_def)
    with 3 show ?thesis
      using p rel assms unfolding send_many_response_def
      by (auto simp: send_outcome_def waiting_inv_def intro!: guard_then_ready_outcome)
  qed
qed

text \<open>A future that holds the slot and is about to send its request, or waits for the slot.\<close>

definition acquiring_inv :: "Bytes list \<Rightarrow> usize res option list \<Rightarrow> bool \<Rightarrow> 'a send_future \<Rightarrow> bool" where
  "acquiring_inv buffers rs keep fut \<longleftrightarrow>
     sf_bufs fut = buffers \<and> length buffers \<le> length rs \<and> sf_keep_order fut = keep \<and>
     sf_results fut = clear_result_prefix rs (length buffers)"

lemma refused_outcome:
  assumes "length buffers \<le> length rs" "e \<in> {slot_timed_out, late_timed_out, rx_driver_closed}"
  shows "send_outcome env self cx buffers rs keep (Ready buffers)
    (fut\<lparr>sf_results := fill_result_prefix rs (length buffers) (Err e), sf_state := Finished\<rparr>)"
  using assms by (auto simp: send_outcome_def refused_def)

lemma try_send_cases:
  assumes "try_send_command env self command w = Some (r, w')" "r = Ok unsent"
  shows "unsent = None \<and> (\<exists>w1 w2. tx_command_send env command w1 = (True, w2)) \<or> unsent = Some command \<or>
    unsent = Some TxShutdown \<and> (\<exists>e w1 w2. signal_eventfd env (ctl_eventfd self) w1 = Some (Err e, w2))"
proof -
  obtain sent w1 where s: "tx_command_send env command w = (sent, w1)" by (cases "tx_command_send env command w")
  then show ?thesis
    using assms by (cases sent) (fastforce simp: try_send_command_def split: Option.bind_splits res.splits)+
qed

lemma send_many_submit_outcome:
  fixes env :: "('w, 'a, 'm) tx_call_env_scheme"
  assumes inv: "acquiring_inv buffers rs keep fut"
  shows "call_post (outcome_post env self cx buffers rs keep) (send_many_submit env self cx due (fut, sl, w))"
proof -
  obtain late w1 where late: "(case due of None \<Rightarrow> (False, w)
      | Some d \<Rightarrow> (let (now, w) = instant_now env w in (now \<ge> d, w))) = (late, w1)"
    by (cases "case due of None \<Rightarrow> (False, w) | Some d \<Rightarrow> (let (now, w) = instant_now env w in (now \<ge> d, w))")
  obtain a w2 where a: "response_new env w1 = (a, w2)" by (cases "response_new env w1")
  obtain flag w3 where flag: "flag_new env w2 = (flag, w3)" by (cases "flag_new env w2")
  define guard where "guard = drop_guard_new flag (ctl_eventfd self)"
  define request where "request = \<lparr> req_bufs = sf_bufs fut, req_deadline = due, req_keep_order = sf_keep_order fut,
    req_cancel_requested = flag, req_response = a \<rparr>"
  define fut1 where "fut1 = fut\<lparr>sf_bufs := []\<rparr>"
  note facts = inv [unfolded acquiring_inv_def]
  let ?rest = "\<lambda>unsent (fut, sl, w). case unsent of
      None \<Rightarrow> send_many_response env cx (length buffers) a guard (fut, sl, w)
    | Some command \<Rightarrow>
        (let (sl, w) = release_shared env (sl, w)
         in andthen (on_send (drop_guard_drop env guard w) fut sl) (\<lambda>_.
              case command of
                RunBatch request \<Rightarrow> send_ready (req_bufs request)
                  (fill_result_prefix (sf_results fut) (length buffers) (Err rx_driver_closed))
              | TxShutdown \<Rightarrow> send_ready [] (sf_results fut)))"
  have rest: "call_post (outcome_post env self cx buffers rs keep) (?rest unsent (fut1, sl, w5))"
    if sent: "try_send_command env self (RunBatch request) w3 = Some (Ok unsent, w5)" for unsent w5
  proof -
    obtain sl2 w6 where rel: "release_shared env (sl, w5) = (sl2, w6)" by (cases "release_shared env (sl, w5)")
    consider "unsent = None" "\<exists>w1 w2. tx_command_send env (RunBatch request) w1 = (True, w2)"
      | "unsent = Some (RunBatch request)"
      | "unsent = Some TxShutdown" "cut_off env self cx"
      using try_send_cases [OF sent refl] unfolding cut_off_def by blast
    then show ?thesis
    proof cases
      case 1
      then have "sent_request env buffers keep a guard request"
        using facts by (simp add: sent_request_def request_def guard_def drop_guard_new_def)
      then show ?thesis
        using 1 facts by (auto simp: waiting_inv_def fut1_def guard_def drop_guard_new_def
            intro!: send_many_response_outcome)
    next
      case 2
      then show ?thesis
        using rel facts by (auto simp: fut1_def request_def intro!: guard_then_ready_outcome refused_outcome)
    next
      case 3
      then show ?thesis
        using rel facts by (auto simp: fut1_def send_outcome_def intro!: guard_then_ready_outcome)
    qed
  qed
  have "send_many_submit env self cx due (fut, sl, w) =
      (if late then send_ready (sf_bufs fut) (fill_result_prefix (sf_results fut) (length (sf_bufs fut)) (Err late_timed_out))
         (fut, release_shared env (sl, w1))
       else andthen (on_send (try_send_command env self (RunBatch request) w3) fut1 sl) ?rest)"
    using late a flag facts
    by (simp add: send_many_submit_def Let_def guard_def request_def fut1_def
        cong: option.case_cong TxDriverCommand.case_cong)
  also have "call_post (outcome_post env self cx buffers rs keep) \<dots>"
    using facts rest
    by (auto simp: send_ready_def outcome_post_def [of _ _ _ _ _ _ "Ok _"] intro!: refused_outcome on_send_post split: res.split)
  finally show ?thesis .
qed

lemma send_many_acquire_outcome:
  assumes "acquiring_inv buffers rs keep fut"
  shows "call_post (outcome_post env self cx buffers rs keep) (send_many_acquire env self cx due af (fut, sl, w))"
proof -
  obtain p af' sl' w' where a: "acquire_poll env due cx af (sl, w) = (p, af', sl', w')"
    by (cases "acquire_poll env due cx af (sl, w)")
  consider "p = Pending" | "p = Ready True" | "p = Ready False" by (metis Poll.exhaust)
  then show ?thesis
  proof cases
    case 1
    then show ?thesis
      using a assms
      by (simp add: send_many_acquire_def outcome_post_def send_outcome_def waiting_inv_def acquiring_inv_def)
  next
    case 2
    then show ?thesis using a send_many_submit_outcome [OF assms] by (simp add: send_many_acquire_def)
  next
    case 3
    then show ?thesis
      using a assms by (auto simp: send_many_acquire_def send_ready_def outcome_post_def acquiring_inv_def
          intro!: refused_outcome)
  qed
qed

lemma send_many_poll_outcome:
  assumes "waiting_inv env self buffers rs keep fut"
  shows "call_post (outcome_post env self cx buffers rs keep) (send_many_poll env self cx (fut, sl, w))"
proof (cases "sf_state fut")
  case Unpolled
  then have f: "sf_bufs fut = buffers" "sf_results fut = rs" "sf_keep_order fut = keep"
    using assms by (simp_all add: waiting_inv_def)
  consider "buffers = []" | "buffers \<noteq> []" "length rs < length buffers" | "buffers \<noteq> []" "length buffers \<le> length rs"
    by linarith
  then show ?thesis
  proof cases
    case 3
    then show ?thesis
      using Unpolled f
      by (auto simp: send_many_start_def Let_def split_beta acquiring_inv_def intro!: send_many_acquire_outcome
          split: res.split)
  qed (use Unpolled f in \<open>auto simp: send_many_start_def send_ready_def outcome_post_def send_outcome_def refused_def\<close>)
next
  case (Acquiring due af)
  then show ?thesis
    using assms send_many_acquire_outcome [of buffers rs keep fut]
    by (simp add: waiting_inv_def acquiring_inv_def)
next
  case (AwaitingResponse len a guard)
  then have "fut\<lparr>sf_state := AwaitingResponse len a guard\<rparr> = fut" by simp
  with assms have "waiting_inv env self buffers rs keep (fut\<lparr>sf_state := AwaitingResponse len a guard\<rparr>)" by simp
  from send_many_response_outcome [OF this] AwaitingResponse show ?thesis by simp
qed simp

text \<open>The states a call of \<^verbatim>\<open>send_many\<close> waits in, whatever happens to slot and world between its polls.\<close>

inductive send_reach :: "('w, 'a, 'm) tx_call_env_scheme \<Rightarrow> TxController \<Rightarrow> Bytes list \<Rightarrow> usize res option list \<Rightarrow>
    nat \<Rightarrow> bool \<Rightarrow> 'a send_future \<Rightarrow> bool"
  for env self buffers rs timeout keep where
  called: "send_reach env self buffers rs timeout keep (send_future_new buffers rs timeout keep)"
| polled: "send_reach env self buffers rs timeout keep fut \<Longrightarrow>
    send_many_poll env self cx (fut, sl, w) = Some (Ok Pending, fut', sl', w') \<Longrightarrow>
    send_reach env self buffers rs timeout keep fut'"

lemma send_reach_waiting: "send_reach env self buffers rs timeout keep fut \<Longrightarrow> waiting_inv env self buffers rs keep fut"
proof (induction rule: send_reach.induct)
  case called
  show ?case by (simp add: waiting_inv_def send_future_new_def)
next
  case (polled fut cx sl w fut' sl' w')
  then show ?case
    using call_postD [OF send_many_poll_outcome] by (fastforce simp: outcome_post_def send_outcome_def)
qed

end
