(* ===== verification/Tx_Service.thy ===== *)
theory Tx_Service
  imports Tx_Controller
begin

text \<open>
  The two sides of TX together: the caller's future of \<open>Tx_Controller\<close> and the driver thread of
  \<open>Tx_Driver\<close>, joined by the command channel, the response channel and the cancel flag.
\<close>

section \<open>A caller's host\<close>

text \<open>
  The environment of \<open>Tx_Host\<close> with the caller's side added.  A call's response channel is named by
  a number; the timer is a point in time.
\<close>

definition tc_env :: "(tsim, nat) tx_call_env" where
  "tc_env =
     \<lparr> sq_push = sq_push ts_env, sq_push_multiple = sq_push_multiple ts_env, sq_capacity = sq_capacity ts_env,
       sq_len = sq_len ts_env, ring_submit = ring_submit ts_env, cq_collect = cq_collect ts_env,
       cq_is_empty = cq_is_empty ts_env, cq_overflow = cq_overflow ts_env, buffer_select = buffer_select ts_env,
       cqe_more = cqe_more ts_env, poll_fds = poll_fds ts_env, fd_read_u64 = fd_read_u64 ts_env,
       fd_write_u64 = fd_write_u64 ts_env, sys_eventfd = sys_eventfd ts_env, sys_dup = sys_dup ts_env,
       instant_now = instant_now ts_env, tx_try_recv = tx_try_recv ts_env,
       tx_recv_blocking = tx_recv_blocking ts_env, response_send = response_send ts_env,
       flag_load = flag_load ts_env, tx_wake = tx_wake ts_env,
       tx_uring_new = (\<lambda>entries w. (Ok (), w)), tx_fast_poll = (\<lambda>w. True),
       tx_register_eventfd = (\<lambda>fd w. (Ok (), w)), tx_unregister_eventfd = (\<lambda>w. (Ok (), w)),
       tx_spawn = (\<lambda>name w. (Ok (), w)), tx_join = (\<lambda>w. w),
       tx_command_send = (\<lambda>c w. (True, w\<lparr>ts_cmds := ts_cmds w @ [c]\<rparr>)),
       response_new = (\<lambda>w. (ts_next w, w\<lparr>ts_next := ts_next w + 1\<rparr>)),
       response_poll = (\<lambda>a cx w. (case filter (\<lambda>x. fst x = a) (ts_responses w) of
            [] \<Rightarrow> Pending | r # rs \<Rightarrow> Ready (Some (snd (last (r # rs)))), w)),
       flag_new = (\<lambda>w. (0, w\<lparr>ts_flag := False\<rparr>)), flag_raise = (\<lambda>f w. w\<lparr>ts_flag := True\<rparr>),
       timer_new = (\<lambda>d w. (ts_now w + d, w)), timer_poll = (\<lambda>t cx w. (ts_now w \<ge> t, w)) \<rparr>"

definition tc_controller :: TxController where
  "tc_controller = \<lparr> ctl_eventfd = 3, ctl_thread_name = ''uring-tx'', ctl_thread = True \<rparr>"

definition example_buffers :: "Bytes list" where
  "example_buffers = [\<lparr> bytes_ptr = 100, bytes_len = 20 \<rparr>, \<lparr> bytes_ptr = 150, bytes_len = 21 \<rparr>]"

definition example_results :: "usize res option list" where
  "example_results = [Some (Ok 1), None, Some (Ok 7)]"

definition example_call :: "nat send_future" where
  "example_call = send_future_new example_buffers example_results 0 True"

section \<open>The contract between caller and driver\<close>

text \<open>
  The driver, in the state \<open>(thread, w)\<close>, handles the request, frees the slot, and the next poll of the
  caller's future returns the caller's buffers, with a result for each of them in front of the
  part of \<open>rs\<close> that belongs to no buffer.
\<close>

definition answers_call :: "('w, 'a, 'm) tx_call_env_scheme \<Rightarrow> TxController \<Rightarrow> 'a TxBatchRequest \<Rightarrow> 'a send_future \<Rightarrow>
    Bytes list \<Rightarrow> usize res option list \<Rightarrow> nat \<Rightarrow> TxDriverThread \<times> 'w \<Rightarrow> bool" where
  "answers_call env self request fut buffers rs cx s \<longleftrightarrow>
     (\<exists>thread' w1 answers fut' w2.
        tx_handle_command env (RunBatch request) s = Some (Ok (), thread', w1) \<and>
        phase (tx_shared thread') = Idle \<and>
        send_many_poll env self cx (fut, tx_shared thread', w1) =
          Some (Ok (Ready buffers), fut', tx_shared thread', w2) \<and>
        sf_results fut' = answers @ drop (length buffers) rs \<and> length answers = length buffers \<and>
        (\<forall>r \<in> set answers. \<exists>n e. r = Some (Ok n) \<or> r = Some (Err e)))"

text \<open>
  Beside what the driver needs of the kernel: a response that was sent is there when the caller
  polls, and a cancel flag that was raised is read as raised, also after the eventfd was signalled.
\<close>

locale tx_service = tx_kernel env cmd_fd owes flushed ready signalled events queued ticks
  for env :: "('w, 'a, 'm) tx_call_env_scheme" and cmd_fd owes flushed ready signalled events queued ticks +
  assumes response_arrives: "\<exists>w'. response_poll env a cx (tx_wake env ws (response_send env a resp w)) = (Ready (Some resp), w')"
    and flag_raised: "fst (flag_load env f (flag_raise env f w))"
    and flag_stays: "fst (flag_load env f w) \<Longrightarrow> fst (flag_load env f (snd (fd_write_u64 env fd v w)))"
begin

lemma handled:
  assumes "length (req_bufs request) \<le> 2 ^ 40" "0 < submit_chunk_size thread" "tx_command_eventfd thread = cmd_fd"
  shows "\<exists>thread' w1 resp ws. tx_handle_command env (RunBatch request) (thread, w) =
      Some (Ok (), thread', tx_wake env ws (response_send env (req_response request) resp w1)) \<and> phase (tx_shared thread') = Idle \<and>
    resp_bufs resp = req_bufs request \<and> length (resp_results resp) = length (req_bufs request) \<and>
    (\<forall>r \<in> set (resp_results resp). \<exists>n e. r = Some (Ok n) \<or> r = Some (Err e))"
proof -
  obtain resp thread1 w1 where run: "run_batch env request (thread, w) = Some (Ok (req_response request, resp), thread1, w1)"
    using run_batch_returns [OF assms] by force
  from run_batch_final [OF run assms(2)] obtain b where b: "resp = into_response b" "same_batch (batch_new request) b"
    "sound b" "is_complete b" by blast
  obtain ok sl ws where rel: "release_to_idle (tx_shared thread1) = (ok, sl, ws)" by (cases "release_to_idle (tx_shared thread1)")
  then have "phase sl = Idle" by (auto simp: release_to_idle_def split: if_splits)
  moreover have "tx_handle_command env (RunBatch request) (thread, w) =
      Some (Ok (), thread1\<lparr>tx_shared := sl\<rparr>, tx_wake env ws (response_send env (req_response request) resp w1))"
    using run rel by (simp add: release_slot_def)
  moreover have "resp_bufs resp = req_bufs request \<and> length (resp_results resp) = length (req_bufs request) \<and>
      (\<forall>r \<in> set (resp_results resp). \<exists>n e. r = Some (Ok n) \<or> r = Some (Err e))"
    using b complete_answered [OF b(3,4)] by (simp add: into_response_def same_batch_def sound_def)
  ultimately show ?thesis by fastforce
qed

text \<open>Polling a future whose batch the driver has handled.\<close>

lemma poll_answered:
  assumes "sf_state fut = AwaitingResponse len a guard" "length (resp_results resp) = len" "len \<le> length (sf_results fut)"
  shows "\<exists>w2. send_many_poll env self cx (fut, sl, tx_wake env ws (response_send env a resp w)) =
    Some (Ok (Ready (resp_bufs resp)),
      fut\<lparr>sf_results := resp_results resp @ drop len (sf_results fut), sf_state := Finished\<rparr>, sl, w2)"
proof -
  have copy: "length rs = n \<Longrightarrow> n \<le> length out \<Longrightarrow> copy_results n out rs = rs @ drop n out" for n rs out
    by (induction n out rs rule: copy_results.induct) auto
  obtain w2 where "response_poll env a cx (tx_wake env ws (response_send env a resp w)) = (Ready (Some resp), w2)"
    using response_arrives by blast
  then show ?thesis
    using assms by (auto simp: send_many_response_def guard_disarm_def drop_guard_drop_def on_send_def send_ready_def copy)
qed

lemma round_trip:
  assumes reach: "send_reach env self buffers rs timeout keep fut" "sf_state fut = AwaitingResponse len a guard"
    and "length buffers \<le> 2 ^ 40"
  shows "\<exists>request. sent_request env buffers keep a guard request \<and>
    (\<forall>thread w cx. 0 < submit_chunk_size thread \<longrightarrow> tx_command_eventfd thread = cmd_fd \<longrightarrow>
      answers_call env self request fut buffers rs cx (thread, w))"
proof -
  have inv: "len = length buffers" "length buffers \<le> length rs" "sf_results fut = clear_result_prefix rs (length buffers)"
    using send_reach_waiting [OF reach(1)] reach(2) by (simp_all add: waiting_inv_def)
  obtain request where request: "sent_request env buffers keep a guard request"
    using send_reach_waiting [OF reach(1)] reach(2) by (auto simp: waiting_inv_def)
  have req: "req_bufs request = buffers" "req_response request = a" using request by (simp_all add: sent_request_def)
  have "answers_call env self request fut buffers rs cx (thread, w)"
    if t: "0 < submit_chunk_size thread" "tx_command_eventfd thread = cmd_fd" for thread w cx
  proof -
    obtain thread' w1 resp ws where h: "tx_handle_command env (RunBatch request) (thread, w) =
        Some (Ok (), thread', tx_wake env ws (response_send env a resp w1))" "phase (tx_shared thread') = Idle"
      and resp: "resp_bufs resp = buffers" "length (resp_results resp) = length buffers"
        "\<forall>r \<in> set (resp_results resp). \<exists>n e. r = Some (Ok n) \<or> r = Some (Err e)"
      using handled [of request thread w] t assms(3) req by auto
    have "length (resp_results resp) = len" "len \<le> length (sf_results fut)"
      using inv resp by (simp_all add: clear_result_prefix_def)
    from poll_answered [OF reach(2) this, of self cx "tx_shared thread'" ws w1]
    obtain w2 where p: "send_many_poll env self cx (fut, tx_shared thread', tx_wake env ws (response_send env a resp w1)) =
        Some (Ok (Ready buffers), fut\<lparr>sf_results := resp_results resp @ drop len (sf_results fut), sf_state := Finished\<rparr>,
          tx_shared thread', w2)" using resp(1) by auto
    have "sf_results (fut\<lparr>sf_results := resp_results resp @ drop len (sf_results fut), sf_state := Finished\<rparr>) =
        resp_results resp @ drop (length buffers) rs" using inv by (simp add: clear_result_prefix_def)
    with h p resp(2,3) show ?thesis unfolding answers_call_def by blast
  qed
  with request show ?thesis by blast
qed

text \<open>Dropping a future that waits for its response tells the driver to cancel the batch.\<close>

lemma drop_tells_driver:
  assumes reach: "send_reach env self buffers rs timeout keep fut" "sf_state fut = AwaitingResponse len a guard"
    and drop: "send_many_drop env (fut, sl, w) = Some (r, fut', sl', w')"
  shows "\<exists>request. sent_request env buffers keep a guard request \<and> fst (external_cancel_requested env (batch_new request) w')"
    and "sl' = sl"
proof -
  obtain request where request: "sent_request env buffers keep a guard request" and armed: "guard_armed guard"
    using send_reach_waiting [OF reach(1)] reach(2) by (auto simp: waiting_inv_def)
  let ?f = "guard_cancel_requested guard"
  obtain r1 where sig: "signal_eventfd env (guard_eventfd guard) (flag_raise env ?f w) = Some (r1, w')" and sl: "sl' = sl"
    using drop reach(2) armed
    by (auto simp: send_many_drop_def drop_guard_drop_def ignoring_def on_send_def andthen_Some_iff on_world_Some_iff on_err_Some_iff)
  have "fst (flag_load env ?f w')"
    by (rule signal_eventfd_keeps [where I = "\<lambda>w. fst (flag_load env ?f w)", OF _ sig flag_raised]) (metis flag_stays snd_conv)
  then have "fst (external_cancel_requested env (batch_new request) w')"
    using request by (simp add: external_cancel_requested_def sent_request_def batch_new_def Let_def)
  with request show "\<exists>request. sent_request env buffers keep a guard request \<and>
      fst (external_cancel_requested env (batch_new request) w')" by blast
  show "sl' = sl" by (fact sl)
qed

lemma drop_cases:
  assumes "send_reach env self buffers rs timeout keep fut" "send_many_drop env (fut, sl, w) = Some (Ok (), fut', sl', w')"
  shows "sl' = sl \<and> (case sf_state fut of
      AwaitingResponse len a guard \<Rightarrow>
        \<exists>request. sent_request env buffers keep a guard request \<and> fst (external_cancel_requested env (batch_new request) w')
    | _ \<Rightarrow> w' = w)"
proof (cases "sf_state fut")
  case (AwaitingResponse len a guard)
  then show ?thesis using drop_tells_driver [OF assms(1) AwaitingResponse assms(2)] by simp
qed (use assms in \<open>auto simp: send_many_drop_def\<close>)

end

section \<open>The contract on the concrete host\<close>

lemma tc_env_simps [simp]:
  "sq_push tc_env = sq_push ts_env" "sq_push_multiple tc_env = sq_push_multiple ts_env"
  "sq_capacity tc_env = sq_capacity ts_env" "sq_len tc_env = sq_len ts_env" "ring_submit tc_env = ring_submit ts_env"
  "cq_collect tc_env = cq_collect ts_env" "poll_fds tc_env = poll_fds ts_env" "fd_read_u64 tc_env = fd_read_u64 ts_env"
  "instant_now tc_env = instant_now ts_env" "tx_try_recv tc_env = tx_try_recv ts_env"
  "response_send tc_env = response_send ts_env" "flag_load tc_env = flag_load ts_env"
  "fd_write_u64 tc_env = fd_write_u64 ts_env"
  by (simp_all add: tc_env_def)

interpretation tc_service: tx_service tc_env 3 ts_owes "\<lambda>w. ts_sq w = []" "\<lambda>w. ts_cq w \<noteq> []" ts_signal ts_events
  "\<lambda>w. length (ts_cmds w)" "\<lambda>w. if ts_signal w then 1 else 0"
proof (intro tx_service.intro tx_service_axioms.intro)
  show "tx_kernel tc_env 3 ts_owes (\<lambda>w. ts_sq w = []) (\<lambda>w. ts_cq w \<noteq> []) ts_signal ts_events (\<lambda>w. length (ts_cmds w))
      (\<lambda>w. if ts_signal w then 1 else 0)"
    using ts_kernel.tx_kernel_axioms unfolding tx_kernel_def tc_env_simps .
  fix a cx ws resp w
  have "(case rs @ [(a, resp)] of [] \<Rightarrow> Pending | r # rs \<Rightarrow> Ready (Some (snd (last (r # rs))))) = Ready (Some resp)"
    for rs :: "(nat \<times> TxBatchResponse) list" by (cases rs) auto
  then show "\<exists>w'. response_poll tc_env a cx (tx_wake tc_env ws (response_send tc_env a resp w)) = (Ready (Some resp), w')"
    by (simp add: tc_env_def ts_env_def del: last.simps)
qed (simp_all add: tc_env_def ts_env_def)

section \<open>What a caller can rely on\<close>

text \<open>A call that has sent its request and waits for the response.\<close>

definition example_waiting :: "nat send_future \<times> TxBatchSharedState \<times> tsim" where
  "example_waiting = (case send_many_poll tc_env tc_controller 1 (example_call, slot_default, ts_empty) of
     Some (_, s) \<Rightarrow> s | None \<Rightarrow> (example_call, slot_default, ts_empty))"

lemma example_poll:
  "send_many_poll tc_env tc_controller 1 (example_call, slot_default, ts_empty) = Some (Ok Pending, example_waiting)"
  "sf_state (fst example_waiting) = AwaitingResponse 2 0 (drop_guard_new 0 3)"
  by code_simp+

lemma example_reach: "send_reach tc_env tc_controller example_buffers example_results 0 True (fst example_waiting)"
proof (rule send_reach.polled [OF send_reach.called])
  show "send_many_poll tc_env tc_controller 1
      (send_future_new example_buffers example_results 0 True, slot_default, ts_empty) =
    Some (Ok Pending, fst example_waiting, fst (snd example_waiting), snd (snd example_waiting))"
    using example_poll(1) by (simp add: example_call_def)
qed

text \<open>
  C5.  The caller gets its buffers and a result for each.  Once a \<^verbatim>\<open>send_many\<close> call waits for its
  response (after any number of polls, with any timing of the slot), a request with its buffers, in
  their order, is with the driver; whenever the driver handles that request it returns, frees the
  slot, and the next poll of the call returns the same buffers, each with a result, and leaves
  the rest of \<^verbatim>\<open>results\<close> as the caller passed it.
\<close>

theorem send_many_round_trip:
  assumes "tx_service env cmd_fd owes flushed ready signalled events queued ticks"
    and "send_reach env self buffers rs timeout keep fut" "sf_state fut = AwaitingResponse len a guard"
    and "length buffers \<le> 2 ^ 40"
  shows "\<exists>request. sent_request env buffers keep a guard request \<and>
    (\<forall>thread w cx. 0 < submit_chunk_size thread \<longrightarrow> tx_command_eventfd thread = cmd_fd \<longrightarrow>
      answers_call env self request fut buffers rs cx (thread, w))"
  by (rule tx_service.round_trip [OF assms])

theorem send_many_round_trip_witness:
  "\<exists>request. sent_request tc_env example_buffers True 0 (drop_guard_new 0 3) request \<and>
     answers_call tc_env tc_controller request (fst example_waiting) example_buffers example_results 1
       (ts_thread, snd (snd example_waiting))"
proof -
  have "tx_command_eventfd ts_thread = 3" "0 < submit_chunk_size ts_thread"
    by code_simp+
  moreover have "length example_buffers \<le> 2 ^ 40" by (simp add: example_buffers_def)
  ultimately show ?thesis
    using send_many_round_trip [OF tc_service.tx_service_axioms example_reach example_poll(2)] by blast
qed



text \<open>
  C23.  Callers follow the slot protocol.  Every poll of a \<^verbatim>\<open>send_many\<close> future acts on the slot like a
  run of the steps of its task in the slot protocol (so mutual exclusion and the wake-ups proved
  there are those of the real calls), and a future that is still pending is at the matching
  point of the protocol: it owns the slot exactly if its request has been sent.
\<close>

theorem send_many_slot_protocol:
  assumes "send_many_poll env self i (fut, sl, w) = Some (Ok p, fut', sl', w')"
  shows "\<exists>pc. slot_run i (send_pc (sf_state fut)) sl pc sl' \<and>
    (p = Pending \<longrightarrow> pc = send_pc (sf_state fut')) \<and> (p \<noteq> Pending \<longrightarrow> sf_state fut' = Finished)"
  using call_postD [OF send_many_poll_runs assms] by (simp add: poll_runs_def)

theorem send_many_slot_protocol_witness:
  "slot_run 1 AcqTry slot_default (AcqDone True) (fst (snd example_waiting))"
  using send_many_slot_protocol [of tc_env tc_controller 1 example_call slot_default ts_empty Pending
      "fst example_waiting" "fst (snd example_waiting)" "snd (snd example_waiting)"] example_poll
  by (simp add: example_call_def send_future_new_def)

text \<open>
  C28.  Dropping a \<^verbatim>\<open>send_many\<close> future never touches the slot (only the driver or the call itself frees
  it).  If the batch was already sent, the driver, when it next looks at the cancel flag of that
  very batch, finds it raised; if it was not, nothing happens at all.
\<close>

theorem send_many_drop_cancels:
  assumes "tx_service env cmd_fd owes flushed ready signalled events queued ticks"
    and "send_reach env self buffers rs timeout keep fut"
    and "send_many_drop env (fut, sl, w) = Some (Ok (), fut', sl', w')"
  shows "sl' = sl \<and> (case sf_state fut of
      AwaitingResponse len a guard \<Rightarrow>
        \<exists>request. sent_request env buffers keep a guard request \<and> fst (external_cancel_requested env (batch_new request) w')
    | _ \<Rightarrow> w' = w)"
  by (rule tx_service.drop_cases [OF assms])

theorem send_many_drop_cancels_witness:
  "case send_many_drop tc_env example_waiting of
     Some (Ok _, fut', sl', w') \<Rightarrow>
       sl' = fst (snd example_waiting) \<and>
       (\<exists>request. sent_request tc_env example_buffers True 0 (drop_guard_new 0 3) request \<and>
          fst (external_cancel_requested tc_env (batch_new request) w'))
   | _ \<Rightarrow> False"
proof -
  have "case send_many_drop tc_env example_waiting of Some (Ok _, _) \<Rightarrow> True | _ \<Rightarrow> False" by code_simp
  then obtain fut' sl' w' where d: "send_many_drop tc_env example_waiting = Some (Ok (), fut', sl', w')"
    by (auto split: option.splits res.splits)
  then have "send_many_drop tc_env (fst example_waiting, fst (snd example_waiting), snd (snd example_waiting)) =
      Some (Ok (), fut', sl', w')" by simp
  from send_many_drop_cancels [OF tc_service.tx_service_axioms example_reach this]
  show ?thesis by (simp add: d example_poll(2))
qed

section \<open>Where a call does not end well\<close>

text \<open>
  \<^verbatim>\<open>Instant::now() + timeout\<close> panics when the sum is out of range: a call with the timeout
  \<^verbatim>\<open>Duration::MAX\<close> panics on its first poll, whatever the time is.
\<close>

theorem send_many_max_timeout_panics:
  assumes "buffers \<noteq> []" "length buffers \<le> length rs" "timeout = (2 ^ 64 - 1) * 10 ^ 9 + 999999999"
  shows "\<exists>s'. send_many_poll env self cx (send_future_new buffers rs timeout keep, sl, w) = Some (Panic, s')"
  using assms by (auto simp: send_future_new_def send_many_start_def Let_def instant_add_def split: prod.split)

text \<open>
  A response channel that closes without a response (the driver thread is gone) makes \<^verbatim>\<open>send_many\<close>
  return no buffers and leave every result unset.
\<close>

theorem closed_response_loses_buffers:
  assumes "sf_state fut = AwaitingResponse len a guard" "send_reach env self buffers rs timeout keep fut"
    and "response_poll env a cx w = (Ready None, w1)"
    and "send_many_poll env self cx (fut, sl, w) = Some (Ok p, fut', sl', w')"
  shows "p = Ready [] \<and> sf_results fut' = clear_result_prefix rs (length buffers)"
proof -
  obtain sl1 w2 where rel: "release_shared env (sl, w1) = (sl1, w2)" by (cases "release_shared env (sl, w1)")
  have "andthen (on_send (drop_guard_drop env guard w2) fut sl1) (\<lambda>_. send_ready [] (sf_results fut)) =
      Some (Ok p, fut', sl', w')"
    using assms(1,3,4) rel by (simp add: send_many_response_def)
  then show ?thesis
    using send_reach_waiting [OF assms(2)] assms(1)
    by (auto simp: andthen_Ok_iff send_ready_def waiting_inv_def on_send_def on_world_Some_iff)
qed

end
