(* ===== verification/Tx_Quiet.thy ===== *)
theory Tx_Quiet
  imports Tx_Correct
begin

text \<open>
  What a batch of the TX driver (\<open>Tx_Driver\<close>) leaves alone: a property of the world that each of the outside calls
  keeps is kept by every stage of \<^verbatim>\<open>run_batch\<close> and by \<^verbatim>\<open>run_batch\<close> itself.
\<close>

section \<open>A batch leaves alone what its calls leave alone\<close>

text \<open>
  A property of the world that every call a batch makes keeps; the requests the driver refuses while it
  looks for a shutdown are answered at once.
\<close>

locale tx_quiet =
  fixes env :: "('w, 'a, 'm) tx_env_scheme" and calm :: "'w \<Rightarrow> bool"
  assumes push: "calm w \<Longrightarrow> sq_push env e w = (ok, w') \<Longrightarrow> calm w'"
    and push_chain: "calm w \<Longrightarrow> sq_push_multiple env es w = (ok, w') \<Longrightarrow> calm w'"
    and submit: "calm w \<Longrightarrow> ring_submit env w = (r, w') \<Longrightarrow> calm w'"
    and collect: "calm w \<Longrightarrow> cq_collect env w = (entries, w') \<Longrightarrow> calm w'"
    and poll: "calm w \<Longrightarrow> poll_fds env fds timeout w = (revents, w') \<Longrightarrow> calm w'"
    and read: "calm w \<Longrightarrow> fd_read_u64 env fd w = (n, w') \<Longrightarrow> calm w'"
    and flag: "calm w \<Longrightarrow> flag_load env f w = (raised, w') \<Longrightarrow> calm w'"
    and now: "calm w \<Longrightarrow> instant_now env w = (t, w') \<Longrightarrow> calm w'"
    and command: "calm w \<Longrightarrow> tx_try_recv env w = (c, w') \<Longrightarrow> calm w'"
    and refuse: "calm w \<Longrightarrow> tx_try_recv env w = (Received (RunBatch request), w') \<Longrightarrow>
      calm (response_send env a resp w')"
begin

lemma retries_calm: "retries env w w' \<Longrightarrow> calm w \<Longrightarrow> calm w'"
proof (induction rule: rtranclp_induct)
  case (step y z)
  then have "calm y" by simp
  with step(2) show ?case by cases (auto dest: push push_chain submit)
qed

lemma push_retry_calm: "push_retry env e w = Some (r, w') \<Longrightarrow> calm w \<Longrightarrow> calm w'"
  using push_retry_cases [of env e w r w'] by (auto dest: retries_calm push)

lemma submit_round_calm: "submit_round env self budget (b, w) = Some (r, b', w') \<Longrightarrow> calm w \<Longrightarrow> calm w'"
proof (induction budget arbitrary: b w r)
  case (Suc budget)
  then show ?case
    by (auto simp: submit_write_def tx_submit_entry_def andthen_Some_iff on_world_Some_iff split: if_splits
        dest!: push_retry_calm)
qed simp

lemma submission_calm:
  assumes "calm w"
  shows "submit_unordered env self (b, w) = Some (r, b', w') \<Longrightarrow> calm w'"
    and "submit_next_ordered env self (b, w) = Some (r, b', w') \<Longrightarrow> calm w'"
    and "submit_cancels env b w = Some (r, w') \<Longrightarrow> calm w'"
proof -
  show "calm w'" if "submit_unordered env self (b, w) = Some (r, b', w')"
    using that by (rule submit_unordered_round) (use assms in \<open>auto dest: submit_round_calm submit\<close>)
  show "calm w'" if "submit_next_ordered env self (b, w) = Some (r, b', w')"
  proof (cases "in_flight b \<noteq> 0 \<or> next_to_submit b \<ge> length (bufs b)")
    case False
    with that have "submit_ordered_linked env self (b, w) = Some (r, b', w')" by (simp add: submit_next_ordered_def)
    from submit_ordered_cases [OF this] show ?thesis
      using assms by (auto simp: chain_pushed_def dest!: retries_calm dest: push_chain submit)
  qed (use that assms in \<open>auto simp: submit_next_ordered_def\<close>)
  have cancels: "calm w'" if "push_cancels env is w = Some (r, w')" "calm w" for "is" w r w'
    using that by (induction "is" arbitrary: w) (auto simp: tx_submit_entry_def andthen_Some_iff dest!: push_retry_calm)
  show "calm w'" if "submit_cancels env b w = Some (r, w')"
    using that assms by (auto simp: submit_cancels_def andthen_Some_iff dest: cancels intro: submit [OF cancels])
qed

text \<open>The stages: the world stays calm and the slot taken or idle.\<close>

definition calm_post :: "TxDriverThread \<Rightarrow> ('a, 'w) batch_sys \<Rightarrow> bool" where
  "calm_post self s \<longleftrightarrow>
     calm (snd (snd s)) \<and> (phase (tx_shared (fst (snd s))) = Idle \<longleftrightarrow> phase (tx_shared self) = Idle) \<and>
     submit_chunk_size (fst (snd s)) = submit_chunk_size self \<and>
     tx_command_eventfd (fst (snd s)) = tx_command_eventfd self"

lemma submit_stage_calm: "calm w \<Longrightarrow> call_post (\<lambda>_. calm_post self) (submit_stage env (b, self, w))"
  by (auto simp: submit_stage_def calm_post_def call_post_def on_err_Some_iff on_batch_Some_iff batch_error_def
      split: if_splits dest: submission_calm)

lemma cancel_stage_calm: "calm w \<Longrightarrow> call_post (\<lambda>_. calm_post self) (cancel_stage env mark (b, self, w))"
  by (auto simp: cancel_stage_def Let_def calm_post_def call_post_def on_err_Some_iff on_batch_Some_iff on_world_Some_iff
      batch_error_def request_cancel_def dest: submission_calm)

lemma deadline_calm: "deadline_expired env b w = (x, w') \<Longrightarrow> calm w \<Longrightarrow> calm w'"
  by (auto simp: deadline_expired_def split: option.splits prod.splits dest: now)

lemma check_stages_calm:
  assumes "calm w"
  shows "call_post (\<lambda>_. calm_post self) (check_external_cancel env (b, self, w))"
    and "call_post (\<lambda>_. calm_post self) (check_deadline env (b, self, w))"
proof -
  obtain x1 w1 where 1: "external_cancel_requested env b w = (x1, w1)" by (cases "external_cancel_requested env b w")
  then have "calm w1" using assms by (auto simp: external_cancel_requested_def dest: flag)
  then show "call_post (\<lambda>_. calm_post self) (check_external_cancel env (b, self, w))"
    using cancel_stage_calm by (auto simp: check_external_cancel_def 1 calm_post_def)
  obtain x2 w2 where 2: "deadline_expired env b w = (x2, w2)" by (cases "deadline_expired env b w")
  then have "calm w2" using assms deadline_calm by blast
  then show "call_post (\<lambda>_. calm_post self) (check_deadline env (b, self, w))"
    using cancel_stage_calm by (auto simp: check_deadline_def 2 calm_post_def)
qed

lemma drain_shutdown_calm:
  assumes "calm (snd s)"
  shows "call_post (\<lambda>r s. calm (snd s)) (drain_shutdown_commands env s)"
proof (rule call_postI)
  fix r s'
  assume drain: "drain_shutdown_commands env s = Some (r, s')"
  let ?P = "\<lambda>e s (y :: unit res \<times> TxDriverThread \<times> 'w). e = env \<longrightarrow> calm (snd s) \<longrightarrow> calm (snd (snd y))"
  have "?P env s (r, s')"
  proof (rule drain_shutdown_commands.raw_induct [where P = ?P, OF _ drain], intro impI)
    fix cont :: "('w, 'a, 'm) tx_env_scheme \<Rightarrow> TxDriverThread \<times> 'w \<Rightarrow> (unit, TxDriverThread \<times> 'w) call"
    fix e s y
    assume IH: "\<And>e s y. cont e s = Some y \<Longrightarrow> ?P e s y" and eq: "e = env" "calm (snd s)"
      and y: "(case tx_try_recv e (snd s) of
        (Received command, w) \<Rightarrow>
          (case command of
             RunBatch request \<Rightarrow>
               (let batch = mark_unsubmitted_error (Custom Interrupted ''tx driver shutting down'')
                              (batch_new request)
                in cont e (fst s, response_send e (response batch) (into_response batch) w))
           | TxShutdown \<Rightarrow> Some (Ok (), (fst s)\<lparr>tx_shutdown_requested := True\<rparr>, w))
      | (Empty, w) \<Rightarrow> Some (Ok (), fst s, w)
      | (Closed, w) \<Rightarrow> Some (Ok (), (fst s)\<lparr>tx_shutdown_requested := True\<rparr>, w)) = Some y"
    obtain c w1 where c: "tx_try_recv env (snd s) = (c, w1)" by (cases "tx_try_recv env (snd s)")
    show "calm (snd (snd y))"
    proof (cases "\<exists>request. c = Received (RunBatch request)")
      case True
      then obtain request where "c = Received (RunBatch request)" by blast
      with y c eq IH refuse [OF eq(2)] show ?thesis by (fastforce simp: Let_def)
    next
      case False
      with y c eq command [OF eq(2) c] show ?thesis
        by (auto split: try_recv_result.splits TxDriverCommand.splits)
    qed
  qed
  with assms show "calm (snd s')" by simp
qed

lemma tx_wait_calm:
  assumes "calm w"
  shows "call_post (\<lambda>r s. calm (snd s)) (tx_wait_for_activity env timeout (self, w))"
proof -
  let ?Q = "\<lambda>r s. calm (snd s)"
  have drain: "call_post ?Q (on_world (drain_eventfd env fd w) s1)" if "calm w" for fd w s1
    by (rule call_post_on_world) (use drain_eventfd_keeps [where I = calm, OF read _ that] in simp)
  have cmds: "call_post ?Q (drain_shutdown_commands env s1)" if "calm (snd s1)" for s1
    using drain_shutdown_calm [OF that] .
  have poll: "call_post ?Q (on_world (poll_retry env fds t w) self)" for fds t
    by (rule call_post_on_world) (use poll_retry_keeps [where I = calm, OF poll _ assms] in simp)
  show ?thesis
    unfolding tx_wait_for_activity_def Let_def prod.case
    by (rule call_post_andthen [where P = ?Q, OF poll];
        (auto intro!: call_post_andthen [where P = ?Q] drain cmds)?)
qed

lemma wait_stage_calm: "calm w \<Longrightarrow> call_post (\<lambda>_. calm_post self) (wait_stage env (b, self, w))"
proof -
  assume "calm w"
  obtain timeout w1 where t: "wait_timeout env b w = (timeout, w1)" by (cases "wait_timeout env b w")
  with \<open>calm w\<close> have c1: "calm w1" by (auto simp: wait_timeout_def split: if_splits option.splits prod.splits dest: now)
  show ?thesis
  proof (cases "tx_wait_for_activity env timeout (self, w1)")
    case None
    then show ?thesis using t by (simp add: wait_stage_def)
  next
    case (Some y)
    obtain r2 self2 w2 where y: "y = (r2, self2, w2)" by (cases y)
    have w2: "same_thread self self2" "calm w2"
      using call_postD [OF tx_wait_frame] call_postD [OF tx_wait_calm [OF c1]] Some y by fastforce+
    obtain es w3 where es: "cq_collect env w2 = (es, w3)" by (cases "cq_collect env w2")
    show ?thesis
      using Some y t es w2 collect [OF w2(2) es]
      by (cases r2) (auto simp: wait_stage_def tx_process_cqes_def calm_post_def same_thread_def)
  qed
qed

lemma calm_next:
  assumes "calm_post self s" "\<And>b self w. calm w \<Longrightarrow> call_post (\<lambda>_. calm_post self) (stage (b, self, w))"
  shows "call_post (\<lambda>_. calm_post self) (stage s)"
proof -
  have "call_post (\<lambda>_. calm_post (fst (snd s))) (stage s)"
    using assms(2) [of "snd (snd s)" "fst (snd s)" "fst s"] assms(1) by (simp add: calm_post_def)
  then show ?thesis by (rule call_post_mono) (use assms(1) in \<open>simp add: calm_post_def\<close>)
qed

lemma batch_iteration_calm:
  assumes "calm w"
  shows "call_post (\<lambda>_. calm_post self) (batch_iteration env (b, self, w))"
proof -
  note stages = calm_next [where stage = "check_external_cancel env", OF _ check_stages_calm(1)]
    calm_next [where stage = "check_deadline env", OF _ check_stages_calm(2)]
    calm_next [where stage = "wait_stage env", OF _ wait_stage_calm]
  show ?thesis
    unfolding batch_iteration_def
    by (intro call_post_andthen [where P = "\<lambda>_. calm_post self"] submit_stage_calm assms)
       (auto intro!: call_post_andthen [where P = "\<lambda>_. calm_post self"] stages)
qed

lemma run_batch_loop_calm:
  assumes "run_batch_loop env s = Some (r, s')" "calm (snd (snd s))"
  shows "calm_post (fst (snd s)) s'"
proof -
  let ?P = "\<lambda>e s (y :: unit res \<times> ('a, 'w) batch_sys). e = env \<longrightarrow> calm (snd (snd s)) \<longrightarrow> calm_post (fst (snd s)) (snd y)"
  have "?P env s (r, s')"
  proof (rule run_batch_loop.raw_induct [where P = ?P, OF _ assms(1)], intro impI)
    fix cont :: "('w, 'a, 'm) tx_env_scheme \<Rightarrow> ('a, 'w) batch_sys \<Rightarrow> (unit, ('a, 'w) batch_sys) call"
    fix e s y
    assume IH: "\<And>e s y. cont e s = Some y \<Longrightarrow> ?P e s y" and eq: "e = env" "calm (snd (snd s))"
      and y: "andthen (batch_iteration e s) (\<lambda>return s. if return then Some (Ok (), s) else cont e s) = Some y"
    have it: "call_post (\<lambda>_. calm_post (fst (snd s))) (batch_iteration env s)"
      using batch_iteration_calm [OF eq(2), of "fst (snd s)" "fst s"] by simp
    obtain r1 s1 where 1: "batch_iteration env s = Some (r1, s1)" using y eq by (cases "batch_iteration env s") auto
    note c1 = call_postD [OF it 1]
    show "calm_post (fst (snd s)) (snd y)"
    proof (cases "r1 = Ok False")
      case True
      then have "cont env s1 = Some y" using y 1 eq by simp
      then have "calm_post (fst (snd s1)) (snd y)" using IH [of env s1 y] c1 by (simp add: calm_post_def)
      then show ?thesis using c1 by (simp add: calm_post_def)
    next
      case False
      then show ?thesis using y 1 eq c1 by (cases r1) auto
    qed
  qed
  with assms(2) show ?thesis by simp
qed

lemma run_batch_calm:
  assumes "run_batch env request (self, w) = Some (r, self', w')" "calm w"
  shows "calm w'" "submit_chunk_size self' = submit_chunk_size self" "tx_command_eventfd self' = tx_command_eventfd self"
proof -
  obtain x w1 where d: "deadline_expired env (batch_new request) w = (x, w1)"
    by (cases "deadline_expired env (batch_new request) w")
  have "calm w1" by (rule deadline_calm [OF d assms(2)])
  then show "calm w'" "submit_chunk_size self' = submit_chunk_size self" "tx_command_eventfd self' = tx_command_eventfd self"
    using assms(1) d by (auto simp: run_batch_def Let_def calm_post_def split: if_splits Option.bind_splits
        dest!: run_batch_loop_calm)
qed

end

end
