(* ===== verification/Tx_System.thy ===== *)
theory Tx_System
  imports Tx_Service Tx_Quiet
begin

text \<open>
  TX as a whole: any number of \<^verbatim>\<open>send_many\<close> calls, the batch slot, the command channel, the
  response channels and the driver thread of \<^verbatim>\<open>src/src/core/tx.rs\<close>, interleaved in any order.  The driver
  works in the steps of its thread: it takes a command, does one iteration of the loop of \<^verbatim>\<open>run_batch\<close>
  at a time, sends the response, and frees the slot.
\<close>

section \<open>The system\<close>

text \<open>A call of \<^verbatim>\<open>send_many\<close>: what it was called with, its future, and the buffers it returned.\<close>

record 'a tx_call =
  call_bufs :: "Bytes list"
  call_results :: "usize res option list"
  call_keep :: bool
  call_future :: "'a send_future"
  call_returned :: "Bytes list option"

text \<open>Where the thread is between two of its steps.\<close>

datatype 'a driver_pc =
    DriverWaits
  | DriverRuns "'a TxBatchRequest" "'a ActiveTxBatch"
  | DriverAnswers "'a TxBatchRequest" TxBatchResponse
  | DriverReleases

record ('a, 'w) tx_system =
  tx_calls :: "'a tx_call list"
  tx_driver :: "'a driver_pc"
  tx_self :: TxDriverThread
  tx_world :: 'w

fun driver_step :: "('w, 'a, 'm) tx_env_scheme \<Rightarrow> 'a driver_pc \<Rightarrow> TxDriverThread \<times> 'w \<Rightarrow>
    ('a driver_pc \<times> TxDriverThread \<times> 'w) option" where
  "driver_step env DriverWaits s =
     (if tx_shutdown_requested (fst s) then None
      else case tx_recv_blocking env (snd s) of
             (None, _) \<Rightarrow> None
           | (Some command, w) \<Rightarrow>
               (case ignoring (drain_eventfd env (tx_command_eventfd (fst s)) w) of
                  Some (Ok _, w) \<Rightarrow>
                    (case command of
                       RunBatch request \<Rightarrow>
                         (let batch = batch_new request; (expired, w) = deadline_expired env batch w
                          in Some (if expired then DriverAnswers request (into_response (mark_unsubmitted_timed_out batch))
                                   else DriverRuns request batch, fst s, w))
                     | TxShutdown \<Rightarrow> Some (DriverWaits, (fst s)\<lparr>tx_shutdown_requested := True\<rparr>, w))
                | _ \<Rightarrow> None))"
| "driver_step env (DriverRuns request batch) s =
     (case batch_iteration env (batch, s) of
        Some (Ok return, batch, s) \<Rightarrow>
          Some (if return then DriverAnswers request (into_response batch) else DriverRuns request batch, s)
      | _ \<Rightarrow> None)"
| "driver_step env (DriverAnswers request resp) s =
     Some (DriverReleases, fst s, response_send env (req_response request) resp (snd s))"
| "driver_step env DriverReleases s = Some (DriverWaits, release_slot env s)"

inductive driver_steps :: "('w, 'a, 'm) tx_env_scheme \<Rightarrow> 'a driver_pc \<Rightarrow> TxDriverThread \<times> 'w \<Rightarrow>
    'a driver_pc \<Rightarrow> TxDriverThread \<times> 'w \<Rightarrow> bool" for env where
  here: "driver_steps env pc s pc s"
| go: "driver_step env pc s = Some (pc1, s1) \<Longrightarrow> driver_steps env pc1 s1 pc' s' \<Longrightarrow> driver_steps env pc s pc' s'"

lemma driver_steps_trans:
  "driver_steps env pc s pc1 s1 \<Longrightarrow> driver_steps env pc1 s1 pc2 s2 \<Longrightarrow> driver_steps env pc s pc2 s2"
proof (induction rule: driver_steps.induct)
  case (go pc s pc1 s1 pc' s')
  from go(1) go(3) [OF go(4)] show ?case by (rule driver_steps.go)
qed

text \<open>The steps add up to \<^verbatim>\<open>run_batch\<close> and to the handling of a command.\<close>

lemma run_batch_loop_steps:
  fixes env :: "('w, 'a, 'm) tx_env_scheme"
  assumes "run_batch_loop env s = Some (Ok (), s')"
  shows "driver_steps env (DriverRuns request (fst s)) (snd s) (DriverAnswers request (into_response (fst s'))) (snd s')"
proof -
  let ?P = "\<lambda>e s y. e = env \<longrightarrow> fst y = Ok () \<longrightarrow>
    driver_steps env (DriverRuns request (fst s)) (snd s) (DriverAnswers request (into_response (fst (snd y)))) (snd (snd y))"
  have "?P env s (Ok (), s')"
  proof (rule run_batch_loop.raw_induct [where P = ?P, OF _ assms], intro impI)
    fix cont :: "('w, 'a, 'm) tx_env_scheme \<Rightarrow> ('a, 'w) batch_sys \<Rightarrow> (unit, ('a, 'w) batch_sys) call"
    fix e s y
    assume IH: "\<And>e s y. cont e s = Some y \<Longrightarrow> ?P e s y"
      and y: "andthen (batch_iteration e s) (\<lambda>return s. if return then Some (Ok (), s) else cont e s) = Some y"
      and eq: "e = env" "fst y = Ok ()"
    obtain return s1 where 1: "batch_iteration env (fst s, snd s) = Some (Ok return, s1)"
      "(if return then Some (Ok (), s1) else cont e s1) = Some y"
      using y eq by (cases y) (auto simp: andthen_Ok_iff)
    let ?pc = "if return then DriverAnswers request (into_response (fst s1)) else DriverRuns request (fst s1)"
    have "driver_steps env ?pc (snd s1) (DriverAnswers request (into_response (fst (snd y)))) (snd (snd y))"
    proof (cases return)
      case True
      then show ?thesis using 1(2) by (auto intro: driver_steps.here)
    next
      case False
      then show ?thesis using 1(2) IH [of e s1 y] eq by simp
    qed
    moreover have "driver_step env (DriverRuns request (fst s)) (snd s) = Some (?pc, snd s1)"
      using 1(1) by (cases s1) simp
    ultimately show "driver_steps env (DriverRuns request (fst s)) (snd s) (DriverAnswers request (into_response (fst (snd y)))) (snd (snd y))"
      by (rule driver_steps.go [rotated])
  qed
  then show ?thesis by simp
qed

lemma handle_command_steps:
  assumes "tx_handle_command env (RunBatch request) (self, w) = Some (Ok (), s')"
    and "deadline_expired env (batch_new request) w = (expired, w1)"
  shows "driver_steps env
    (if expired then DriverAnswers request (into_response (mark_unsubmitted_timed_out (batch_new request)))
     else DriverRuns request (batch_new request)) (self, w1) DriverWaits s'"
proof -
  obtain sender resp self2 w2 where run: "run_batch env request (self, w) = Some (Ok (sender, resp), self2, w2)"
    and s': "s' = release_slot env (self2, response_send env sender resp w2)"
    using assms(1) by (auto simp: andthen_Ok_iff)
  have last: "driver_steps env (DriverAnswers request resp) (self2, w2) DriverWaits s'" if "sender = req_response request"
    using driver_steps.go [OF driver_step.simps(3) driver_steps.go [OF driver_step.simps(4) driver_steps.here], of env request resp "(self2, w2)"]
    by (simp add: that s')
  from run show ?thesis
  proof (cases rule: run_batch_cases)
    case (expired w3)
    then show ?thesis using assms(2) last by simp
  next
    case (ran w3 b)
    then show ?thesis
      using assms(2) last driver_steps_trans [OF run_batch_loop_steps [OF ran(2)]] by auto
  qed
qed

datatype tx_event =
    SendMany "Bytes list" "usize res option list" nat bool
  | PollCall nat nat
  | DropCall nat
  | DriverStep

definition update_call :: "nat \<Rightarrow> 'a send_future \<Rightarrow> Bytes list option \<Rightarrow> TxBatchSharedState \<Rightarrow> 'w \<Rightarrow> ('a, 'w) tx_system \<Rightarrow>
    ('a, 'w) tx_system" where
  "update_call i fut returned sl w s =
     s\<lparr>tx_calls := (tx_calls s)[i := (tx_calls s ! i)\<lparr>call_future := fut, call_returned := returned\<rparr>],
       tx_self := (tx_self s)\<lparr>tx_shared := sl\<rparr>, tx_world := w\<rparr>"

text \<open>A call that has returned or was dropped is gone; a panic ends the run.\<close>

definition call_open :: "nat \<Rightarrow> ('a, 'w) tx_system \<Rightarrow> bool" where
  "call_open i s \<longleftrightarrow> i < length (tx_calls s) \<and> sf_state (call_future (tx_calls s ! i)) \<noteq> Finished"

fun tx_step :: "('w, 'a, 'm) tx_call_env_scheme \<Rightarrow> TxController \<Rightarrow> tx_event \<Rightarrow> ('a, 'w) tx_system \<Rightarrow>
    ('a, 'w) tx_system option" where
  "tx_step env self (SendMany buffers rs timeout keep) s =
     Some (s\<lparr>tx_calls := tx_calls s @ [\<lparr> call_bufs = buffers, call_results = rs, call_keep = keep,
       call_future = send_future_new buffers rs timeout keep, call_returned = None \<rparr>]\<rparr>)"
| "tx_step env self (PollCall i cx) s =
     (if \<not> call_open i s then None
      else case send_many_poll env self cx (call_future (tx_calls s ! i), tx_shared (tx_self s), tx_world s) of
             Some (Ok p, fut, sl, w) \<Rightarrow>
               Some (update_call i fut (case p of Pending \<Rightarrow> None | Ready buffers \<Rightarrow> Some buffers) sl w s)
           | _ \<Rightarrow> None)"
| "tx_step env self (DropCall i) s =
     (if \<not> call_open i s then None
      else case send_many_drop env (call_future (tx_calls s ! i), tx_shared (tx_self s), tx_world s) of
             Some (Ok _, fut, sl, w) \<Rightarrow> Some (update_call i fut None sl w s)
           | _ \<Rightarrow> None)"
| "tx_step env self DriverStep s =
     map_option (\<lambda>(pc, thread, w). s\<lparr>tx_driver := pc, tx_self := thread, tx_world := w\<rparr>)
       (driver_step env (tx_driver s) (tx_self s, tx_world s))"

fun tx_run_events :: "('w, 'a, 'm) tx_call_env_scheme \<Rightarrow> TxController \<Rightarrow> tx_event list \<Rightarrow> ('a, 'w) tx_system \<Rightarrow>
    ('a, 'w) tx_system option" where
  "tx_run_events env self [] s = Some s"
| "tx_run_events env self (ev # evs) s = Option.bind (tx_step env self ev s) (tx_run_events env self evs)"


section \<open>The channels\<close>

text \<open>
  What the channels hold: the commands under way to the driver, the responses under way to the
  callers, and the response channels that have been made.
\<close>

record 'a tx_mail =
  queued :: "'a TxDriverCommand list"
  box :: "'a \<Rightarrow> TxBatchResponse option"
  names :: "'a set"

text \<open>
  What the system relies on: the command channel is a queue, a response channel is new and delivers
  what is sent to it, nothing else touches them; a write to the eventfd fails only when it is
  interrupted, and a response channel does not close before the response (the driver thread lives).
\<close>

lemma signal_eventfd_never_fails:
  fixes env :: "('w, 'm) uring_env_scheme"
  assumes "\<And>w r w'. I w \<Longrightarrow> fd_write_u64 env fd 1 w = (r, w') \<Longrightarrow> I w' \<and> (\<forall>err. r = Err err \<longrightarrow> kind err = Interrupted)"
    and "signal_eventfd env fd w = Some (r, w')" "I w"
  shows "I w' \<and> (\<forall>err. r \<noteq> Err err)"
proof -
  let ?P = "\<lambda>(e :: ('w, 'm) uring_env_scheme) f w y. e = env \<longrightarrow> f = fd \<longrightarrow> I w \<longrightarrow> I (snd y) \<and> (\<forall>err. fst y \<noteq> Err err)"
  have "?P env fd w (r, w')"
  proof (rule signal_eventfd.raw_induct [where P = ?P, OF _ assms(2)], intro impI)
    fix cont :: "('w, 'm) uring_env_scheme \<Rightarrow> i32 \<Rightarrow> 'w \<Rightarrow> (unit, 'w) call"
    fix e f w y
    assume IH: "\<And>e f w y. cont e f w = Some y \<Longrightarrow> ?P e f w y"
      and y: "(case fd_write_u64 e f 1 w of
          (Ok n, w) \<Rightarrow> if n = 8 then Some (Ok (), w) else cont e f w
        | (Err err, w) \<Rightarrow> if kind err = Interrupted then cont e f w else Some (Err err, w)
        | (Panic, w) \<Rightarrow> Some (Panic, w)) = Some y"
      and eq: "e = env" "f = fd" "I w"
    obtain r w1 where wr: "fd_write_u64 env fd 1 w = (r, w1)" by (cases "fd_write_u64 env fd 1 w")
    note w1 = assms(1) [OF eq(3) wr]
    with y wr eq IH [of env fd w1 y] show "I (snd y) \<and> (\<forall>err. fst y \<noteq> Err err)" by (cases r) (auto split: if_splits)
  qed
  with assms(3) show ?thesis by simp
qed

locale tx_post =
  fixes env :: "('w, 'a, 'm) tx_call_env_scheme" and mail :: "'w \<Rightarrow> 'a tx_mail"
  assumes push: "sq_push env e w = (ok, w') \<Longrightarrow> mail w' = mail w"
    and push_chain: "sq_push_multiple env es w = (ok, w') \<Longrightarrow> mail w' = mail w"
    and submit: "ring_submit env w = (r, w') \<Longrightarrow> mail w' = mail w"
    and collect: "cq_collect env w = (entries, w') \<Longrightarrow> mail w' = mail w"
    and poll: "poll_fds env fds timeout w = (revents, w') \<Longrightarrow> mail w' = mail w"
    and read: "fd_read_u64 env fd w = (n, w') \<Longrightarrow> mail w' = mail w"
    and signal: "fd_write_u64 env fd v w = (wr, w') \<Longrightarrow> mail w' = mail w \<and> (\<forall>err. wr = Err err \<longrightarrow> kind err = Interrupted)"
    and flag: "flag_load env f w = (raised, w') \<Longrightarrow> mail w' = mail w"
    and flag_made: "flag_new env w = (f, w') \<Longrightarrow> mail w' = mail w"
    and flag_up: "mail (flag_raise env f w) = mail w"
    and now: "instant_now env w = (t, w') \<Longrightarrow> mail w' = mail w"
    and timer_made: "timer_new env d w = (timer, w') \<Longrightarrow> mail w' = mail w"
    and timer: "timer_poll env tm cx w = (fired, w') \<Longrightarrow> mail w' = mail w"
    and wake: "mail (tx_wake env ws w) = mail w"
    and command: "tx_command_send env c w = (ok, w') \<Longrightarrow>
      mail w' = (mail w)\<lparr>queued := queued (mail w) @ (if ok then [c] else [])\<rparr>"
    and try_recv: "tx_try_recv env w = (Received c, w') \<Longrightarrow> \<exists>cs. queued (mail w) = c # cs \<and> mail w' = (mail w)\<lparr>queued := cs\<rparr>"
    and try_recv_none: "tx_try_recv env w = (got, w') \<Longrightarrow> got = Empty \<or> got = Closed \<Longrightarrow> mail w' = mail w"
    and recv: "tx_recv_blocking env w = (Some c, w') \<Longrightarrow> \<exists>cs. queued (mail w) = c # cs \<and> mail w' = (mail w)\<lparr>queued := cs\<rparr>"
    and respond: "mail (response_send env a resp w) = (mail w)\<lparr>box := (box (mail w))(a := Some resp)\<rparr>"
    and channel: "response_new env w = (a, w') \<Longrightarrow> a \<notin> names (mail w) \<and> mail w' = (mail w)\<lparr>names := insert a (names (mail w))\<rparr>"
    and response: "response_poll env a cx w = (Ready m, w') \<Longrightarrow>
      (\<exists>resp. m = Some resp \<and> box (mail w) a = Some resp) \<and>
      (mail w' = mail w \<or> mail w' = (mail w)\<lparr>box := (box (mail w))(a := None)\<rparr>)"
    and no_response: "response_poll env a cx w = (Pending, w') \<Longrightarrow> mail w' = mail w"
begin

lemma signal_mail:
  assumes "signal_eventfd env fd w = Some (r, w')"
  shows "mail w' = mail w" "r \<noteq> Err e"
  using signal_eventfd_never_fails [where I = "\<lambda>v. mail v = mail w", OF _ assms] signal by fastforce+

lemma drain_mail: "drain_eventfd env fd w = Some (r, w') \<Longrightarrow> mail w' = mail w"
  using drain_eventfd_keeps [where I = "\<lambda>v. mail v = mail w"] read by fastforce

lemma guard_mail: "drop_guard_drop env guard w = Some (r, w') \<Longrightarrow> mail w' = mail w"
  by (auto simp: drop_guard_drop_def ignoring_def on_err_Some_iff flag_up dest!: signal_mail(1) split: if_splits)

text \<open>While no command is queued the driver's batch leaves the channels alone.\<close>

lemma no_command:
  "tx_try_recv env w = (got, w') \<Longrightarrow> queued (mail w) = [] \<Longrightarrow> mail w' = mail w \<and> (got = Empty \<or> got = Closed)"
  by (cases got) (auto dest: try_recv try_recv_none)

lemma quiet: "queued (mail w) = [] \<Longrightarrow> tx_quiet env (\<lambda>v. mail v = mail w)"
  by unfold_locales (auto dest: push push_chain submit collect poll read flag now no_command)

end


section \<open>What a poll does to slot and channels\<close>

text \<open>
  A poll leaves slot and channels alone, or it takes the idle slot and posts a request with a new
  response channel.
\<close>

definition left_alone :: "('w \<Rightarrow> 'a tx_mail) \<Rightarrow> TxBatchSharedState \<times> 'w \<Rightarrow> TxBatchSharedState \<times> 'w \<Rightarrow> bool" where
  "left_alone mail s s' \<longleftrightarrow>
     (phase (fst s') = Idle \<longleftrightarrow> phase (fst s) = Idle) \<and> queued (mail (snd s')) = queued (mail (snd s)) \<and>
     box (mail (snd s')) = box (mail (snd s)) \<and> names (mail (snd s)) \<subseteq> names (mail (snd s'))"

definition posted :: "('w \<Rightarrow> 'a tx_mail) \<Rightarrow> Bytes list \<Rightarrow> 'a \<Rightarrow> TxBatchSharedState \<times> 'w \<Rightarrow> TxBatchSharedState \<times> 'w \<Rightarrow> bool" where
  "posted mail buffers a s s' \<longleftrightarrow>
     phase (fst s) = Idle \<and> phase (fst s') \<noteq> Idle \<and> a \<notin> names (mail (snd s)) \<and>
     names (mail (snd s')) = insert a (names (mail (snd s))) \<and> box (mail (snd s')) = box (mail (snd s)) \<and>
     (\<exists>request. queued (mail (snd s')) = queued (mail (snd s)) @ [RunBatch request] \<and> req_bufs request = buffers \<and>
        req_response request = a)"

definition poll_effect :: "('w \<Rightarrow> 'a tx_mail) \<Rightarrow> Bytes list \<Rightarrow> usize res option list \<Rightarrow> TxBatchSharedState \<times> 'w \<Rightarrow>
    Bytes list Poll res \<Rightarrow> ('a, 'w) send_sys \<Rightarrow> bool" where
  "poll_effect mail buffers rs s r y \<longleftrightarrow>
     (\<forall>p. r = Ok p \<longrightarrow>
        (case p of
           Ready buffers' \<Rightarrow> buffers' = buffers \<and> sf_state (fst y) = Finished \<and> refused buffers rs (sf_results (fst y)) \<and>
             left_alone mail s (snd y)
         | Pending \<Rightarrow>
             (\<exists>due af. sf_state (fst y) = Acquiring due af) \<and> left_alone mail s (snd y) \<or>
             (\<exists>len a guard. sf_state (fst y) = AwaitingResponse len a guard \<and> posted mail buffers a s (snd y))))"

lemma poll_effect_errors [simp]: "poll_effect mail buffers rs s Panic y" "poll_effect mail buffers rs s (Err e) y"
  by (simp_all add: poll_effect_def)

lemma left_alone_refl [simp]: "left_alone mail s s"
  by (simp add: left_alone_def)

context tx_post
begin

lemma acquire_wait_effect:
  assumes "acquire_wait env cx timer (sl, w) = (p, af', sl', w')"
  shows "mail w' = mail w \<and> (if p = Ready True then phase sl = Idle \<and> phase sl' \<noteq> Idle else phase sl' = Idle \<longleftrightarrow> phase sl = Idle)"
proof -
  obtain ok sl1 where "try_acquire_or_register cx sl = (ok, sl1)" by (cases "try_acquire_or_register cx sl")
  then show ?thesis
    using assms by (auto simp: acquire_wait_def try_acquire_or_register_def split: if_splits option.splits prod.splits dest: timer)
qed

lemma acquire_poll_effect:
  assumes "acquire_poll env due cx af (sl, w) = (p, af', sl', w')"
  shows "mail w' = mail w \<and> (if p = Ready True then phase sl = Idle \<and> phase sl' \<noteq> Idle else phase sl' = Idle \<longleftrightarrow> phase sl = Idle)"
proof (cases af)
  case (AcquireWait timer)
  then show ?thesis using assms acquire_wait_effect by simp
next
  case AcquireStart
  show ?thesis
  proof (cases "phase sl = Idle")
    case True
    then show ?thesis using assms AcquireStart by (auto simp: try_acquire_def)
  next
    case False
    consider "acquire_wait env cx None (sl, w) = (p, af', sl', w')"
      | t w1 where "instant_now env w = (t, w1)" "p = Ready False" "sl' = sl" "w' = w1"
      | t w1 t2 w2 timer w3 where "instant_now env w = (t, w1)" "instant_now env w1 = (t2, w2)" "timer_new env (the due - t2) w2 = (timer, w3)"
          "acquire_wait env cx (Some timer) (sl, w3) = (p, af', sl', w')"
      using assms AcquireStart False
      by (auto simp: try_acquire_def Let_def split: option.splits prod.splits if_splits)
    then show ?thesis by cases (auto dest!: acquire_wait_effect now timer_made)
  qed
qed

lemma release_mail: "release_shared env (sl, w) = (sl', w') \<Longrightarrow> mail w' = mail w \<and> phase sl' = Idle"
  by (auto simp: release_shared_def release_to_idle_def wake split: if_splits)

lemma try_send_mail:
  assumes "try_send_command env self c w = Some (r, w')"
  shows "r = Panic \<or> r = Ok None \<and> mail w' = (mail w)\<lparr>queued := queued (mail w) @ [c]\<rparr> \<or> r = Ok (Some c) \<and> mail w' = mail w"
proof -
  obtain sent w1 where s: "tx_command_send env c w = (sent, w1)" by (cases "tx_command_send env c w")
  note c = command [OF s]
  show ?thesis
  proof (cases sent)
    case False
    then show ?thesis using assms s c by (simp add: try_send_command_def)
  next
    case True
    obtain r1 where sg: "signal_eventfd env (ctl_eventfd self) w1 = Some (r1, w')"
      using assms s True by (auto simp: try_send_command_def split: Option.bind_splits res.splits)
    with assms s True c signal_mail [OF sg] show ?thesis
      by (cases r1) (auto simp: try_send_command_def)
  qed
qed

lemma guard_then_ready_effect:
  assumes "refused buffers rs rs'" "phase sl = phase (fst s)" "queued (mail w) = queued (mail (snd s))"
    "box (mail w) = box (mail (snd s))" "names (mail (snd s)) \<subseteq> names (mail w)"
  shows "call_post (poll_effect mail buffers rs s)
    (andthen (on_send (drop_guard_drop env guard w) fut sl) (\<lambda>_. send_ready buffers rs'))"
  using assms
  by (intro on_send_post)
     (auto simp: send_ready_def poll_effect_def left_alone_def dest!: guard_mail split: res.split)

lemma response_pending:
  assumes "response_poll env a cx w = (p, w')" "box (mail w) a = None"
  shows "p = Pending \<and> mail w' = mail w"
  using assms response [of a cx w] no_response [of a cx w] by (cases p) auto

lemma send_many_submit_effect:
  assumes inv: "acquiring_inv buffers rs keep fut" and start: "mail w = mail w0" "phase sl0 = Idle" "phase sl \<noteq> Idle"
    and dom: "dom (box (mail w)) \<subseteq> names (mail w)"
  shows "call_post (poll_effect mail buffers rs (sl0, w0)) (send_many_submit env self cx due (fut, sl, w))"
proof -
  obtain late w1 where late: "(case due of None \<Rightarrow> (False, w)
      | Some d \<Rightarrow> (let (now, w) = instant_now env w in (now \<ge> d, w))) = (late, w1)"
    by (cases "case due of None \<Rightarrow> (False, w) | Some d \<Rightarrow> (let (now, w) = instant_now env w in (now \<ge> d, w))")
  then have m1: "mail w1 = mail w0" using start(1) by (auto split: option.splits prod.splits dest: now)
  obtain a w2 where a: "response_new env w1 = (a, w2)" by (cases "response_new env w1")
  note m2 = channel [OF a]
  obtain flag w3 where flag: "flag_new env w2 = (flag, w3)" by (cases "flag_new env w2")
  note m3 = flag_made [OF flag]
  have fresh: "box (mail w3) a = None" using m1 m2 m3 dom start(1) by (auto simp: domIff)
  define guard where "guard = drop_guard_new flag (ctl_eventfd self)"
  define request where "request = \<lparr> req_bufs = sf_bufs fut, req_deadline = due, req_keep_order = sf_keep_order fut,
    req_cancel_requested = flag, req_response = a \<rparr>"
  define fut1 where "fut1 = fut\<lparr>sf_bufs := []\<rparr>"
  note facts = inv [unfolded acquiring_inv_def]
  have refuse: "refused buffers rs (fill_result_prefix (sf_results fut) (length buffers) (Err e))"
    if "e \<in> {slot_timed_out, late_timed_out, rx_driver_closed}" for e
    using facts that by (auto simp: refused_def)
  let ?rest = "\<lambda>unsent (fut, sl, w). case unsent of
      None \<Rightarrow> send_many_response env cx (length buffers) a guard (fut, sl, w)
    | Some command \<Rightarrow>
        (let (sl, w) = release_shared env (sl, w)
         in andthen (on_send (drop_guard_drop env guard w) fut sl) (\<lambda>_.
              case command of
                RunBatch request \<Rightarrow> send_ready (req_bufs request)
                  (fill_result_prefix (sf_results fut) (length buffers) (Err rx_driver_closed))
              | TxShutdown \<Rightarrow> send_ready [] (sf_results fut)))"
  have rest: "call_post (poll_effect mail buffers rs (sl0, w0)) (?rest unsent (fut1, sl, w5))"
    if sent: "try_send_command env self (RunBatch request) w3 = Some (Ok unsent, w5)" for unsent w5
  proof -
    obtain sl2 w6 where rel: "release_shared env (sl, w5) = (sl2, w6)" by (cases "release_shared env (sl, w5)")
    from try_send_mail [OF sent] consider "unsent = None" "mail w5 = (mail w3)\<lparr>queued := queued (mail w3) @ [RunBatch request]\<rparr>"
      | "unsent = Some (RunBatch request)" "mail w5 = mail w3" by auto
    then show ?thesis
    proof cases
      case 1
      obtain p w7 where p: "response_poll env a cx w5 = (p, w7)" by (cases "response_poll env a cx w5")
      have p7: "p = Pending" "mail w7 = mail w5" using response_pending [OF p] 1(2) fresh by auto
      have "posted mail buffers a (sl0, w0) (sl, w7)"
        using p7 1 m1 m2 m3 start facts by (auto simp: posted_def request_def)
      then show ?thesis using p p7(1) 1(1) by (simp add: send_many_response_def poll_effect_def)
    next
      case 2
      then show ?thesis
        using rel release_mail [OF rel] facts m1 m2 m3 start refuse [of rx_driver_closed]
        by (auto simp: fut1_def request_def intro!: guard_then_ready_effect)
    qed
  qed
  have "send_many_submit env self cx due (fut, sl, w) =
      (if late then send_ready (sf_bufs fut) (fill_result_prefix (sf_results fut) (length (sf_bufs fut)) (Err late_timed_out))
         (fut, release_shared env (sl, w1))
       else andthen (on_send (try_send_command env self (RunBatch request) w3) fut1 sl) ?rest)"
    using late a flag facts
    by (simp add: send_many_submit_def Let_def guard_def request_def fut1_def
        cong: option.case_cong TxDriverCommand.case_cong)
  also have "call_post (poll_effect mail buffers rs (sl0, w0)) \<dots>"
  proof (cases late)
    case True
    obtain sl2 w6 where "release_shared env (sl, w1) = (sl2, w6)" by (cases "release_shared env (sl, w1)")
    then show ?thesis
      using True facts m1 start refuse [of late_timed_out]
      by (auto simp: send_ready_def poll_effect_def left_alone_def dest!: release_mail)
  next
    case False
    then show ?thesis using rest by (auto intro!: on_send_post split: res.split)
  qed
  finally show ?thesis .
qed

lemma send_many_acquire_effect:
  assumes inv: "acquiring_inv buffers rs keep fut" and start: "mail w = mail w0" and dom: "dom (box (mail w)) \<subseteq> names (mail w)"
  shows "call_post (poll_effect mail buffers rs (sl, w0)) (send_many_acquire env self cx due af (fut, sl, w))"
proof -
  obtain p af' sl' w' where a: "acquire_poll env due cx af (sl, w) = (p, af', sl', w')"
    by (cases "acquire_poll env due cx af (sl, w)")
  note e = acquire_poll_effect [OF a]
  consider "p = Pending" | "p = Ready True" | "p = Ready False" by (metis Poll.exhaust)
  then show ?thesis
  proof cases
    case 1
    then show ?thesis using a e start by (simp add: send_many_acquire_def poll_effect_def left_alone_def)
  next
    case 2
    then have "mail w' = mail w0" "phase sl = Idle" "phase sl' \<noteq> Idle" "dom (box (mail w')) \<subseteq> names (mail w')"
      using e start dom by simp_all
    from send_many_submit_effect [OF inv this] a 2 show ?thesis by (simp add: send_many_acquire_def)
  next
    case 3
    then show ?thesis
      using a e start inv by (auto simp: send_many_acquire_def send_ready_def poll_effect_def left_alone_def acquiring_inv_def refused_def)
  qed
qed

text \<open>A poll of a call that has not sent its request.\<close>

lemma poll_before_effect:
  assumes inv: "waiting_inv env self buffers rs keep fut" and early: "\<nexists>len a guard. sf_state fut = AwaitingResponse len a guard"
    and dom: "dom (box (mail w)) \<subseteq> names (mail w)"
  shows "call_post (poll_effect mail buffers rs (sl, w)) (send_many_poll env self cx (fut, sl, w))"
proof (cases "sf_state fut")
  case Unpolled
  then have f: "sf_bufs fut = buffers" "sf_results fut = rs" "sf_keep_order fut = keep"
    using inv by (simp_all add: waiting_inv_def)
  consider "buffers = []" | "buffers \<noteq> []" "length rs < length buffers" | "buffers \<noteq> []" "length buffers \<le> length rs"
    by linarith
  then show ?thesis
  proof cases
    case 3
    let ?fut = "fut\<lparr>sf_results := clear_result_prefix rs (length buffers)\<rparr>"
    have acq: "acquiring_inv buffers rs keep ?fut" using 3 f by (simp add: acquiring_inv_def)
    obtain t w1 where t: "instant_now env w = (t, w1)" by (cases "instant_now env w")
    have "call_post (poll_effect mail buffers rs (sl, w)) (send_many_acquire env self cx due AcquireStart (?fut, sl, w'))"
      if "mail w' = mail w" for due w'
      using send_many_acquire_effect [OF acq that] dom that by simp
    then show ?thesis
      using Unpolled f 3 t now [OF t] by (auto simp: send_many_start_def Let_def split: res.split)
  qed (use Unpolled f in \<open>auto simp: send_many_start_def send_ready_def poll_effect_def refused_def\<close>)
next
  case (Acquiring due af)
  then have "acquiring_inv buffers rs keep fut" using inv by (simp add: waiting_inv_def acquiring_inv_def)
  from send_many_acquire_effect [OF this refl dom] Acquiring show ?thesis by simp
next
  case (AwaitingResponse len a guard)
  with early show ?thesis by blast
qed simp

text \<open>A poll of a call that waits for its response.\<close>

lemma poll_waiting_effect:
  assumes "sf_state fut = AwaitingResponse len a guard" "send_many_poll env self cx (fut, sl, w) = Some (Ok p, fut', sl', w')"
  shows "sl' = sl \<and> (p = Pending \<and> fut' = fut \<and> mail w' = mail w \<or>
    (\<exists>resp. box (mail w) a = Some resp \<and> p = Ready (resp_bufs resp) \<and> sf_state fut' = Finished \<and>
       sf_results fut' = copy_results len (sf_results fut) (resp_results resp) \<and>
       (mail w' = mail w \<or> mail w' = (mail w)\<lparr>box := (box (mail w))(a := None)\<rparr>)))"
proof -
  obtain q w1 where q: "response_poll env a cx w = (q, w1)" by (cases "response_poll env a cx w")
  show ?thesis
  proof (cases q)
    case Pending
    then show ?thesis using assms q no_response by (auto simp: send_many_response_def)
  next
    case (Ready m)
    with q response [of a cx w m w1] obtain resp where "m = Some resp" "box (mail w) a = Some resp"
      and m: "mail w1 = mail w \<or> mail w1 = (mail w)\<lparr>box := (box (mail w))(a := None)\<rparr>" by auto
    moreover from this have "andthen (on_send (drop_guard_drop env (guard_disarm guard) w1) fut sl)
        (\<lambda>_. send_ready (resp_bufs resp) (copy_results len (sf_results fut) (resp_results resp))) = Some (Ok p, fut', sl', w')"
      using assms q Ready by (simp add: send_many_response_def)
    ultimately show ?thesis
      by (auto simp: drop_guard_drop_def guard_disarm_def on_send_def send_ready_def)
  qed
qed

lemma drop_effect:
  assumes "send_many_drop env (fut, sl, w) = Some (Ok x, fut', sl', w')"
  shows "sl' = sl \<and> mail w' = mail w \<and> sf_state fut' = Finished"
  using assms
  by (auto simp: send_many_drop_def on_send_def andthen_Ok_iff on_world_Some_iff dest!: guard_mail split: send_state.splits)

end


section \<open>The invariant\<close>

definition requests :: "'a TxDriverCommand list \<Rightarrow> 'a TxBatchRequest list" where
  "requests cs = List.map_filter (\<lambda>c. case c of RunBatch request \<Rightarrow> Some request | TxShutdown \<Rightarrow> None) cs"

fun driver_request :: "'a driver_pc \<Rightarrow> 'a TxBatchRequest list" where
  "driver_request (DriverRuns request batch) = [request]"
| "driver_request (DriverAnswers request resp) = [request]"
| "driver_request _ = []"

text \<open>The requests that are queued or at the driver and not answered yet.\<close>

definition outstanding :: "('w \<Rightarrow> 'a tx_mail) \<Rightarrow> ('a, 'w) tx_system \<Rightarrow> 'a TxBatchRequest list" where
  "outstanding mail s = requests (queued (mail (tx_world s))) @ driver_request (tx_driver s)"

text \<open>How many batches are under way: queued, or at the driver until it has freed the slot.\<close>

definition batches :: "('w \<Rightarrow> 'a tx_mail) \<Rightarrow> ('a, 'w) tx_system \<Rightarrow> nat" where
  "batches mail s = length (queued (mail (tx_world s))) + (case tx_driver s of DriverWaits \<Rightarrow> 0 | _ \<Rightarrow> 1)"

definition all_answered :: "usize res option list \<Rightarrow> bool" where
  "all_answered answers \<longleftrightarrow> (\<forall>r \<in> set answers. \<exists>n e. r = Some (Ok n) \<or> r = Some (Err e))"

definition full_answer :: "Bytes list \<Rightarrow> TxBatchResponse \<Rightarrow> bool" where
  "full_answer buffers resp \<longleftrightarrow>
     resp_bufs resp = buffers \<and> length (resp_results resp) = length buffers \<and> all_answered (resp_results resp)"

text \<open>A call that has returned gave its own buffers back, refused or with a result per buffer.\<close>

definition returned_ok :: "'a tx_call \<Rightarrow> bool" where
  "returned_ok c \<longleftrightarrow>
     (\<forall>buffers. call_returned c = Some buffers \<longrightarrow>
        buffers = call_bufs c \<and>
        (refused (call_bufs c) (call_results c) (sf_results (call_future c)) \<or>
         (\<exists>answers. length answers = length (call_bufs c) \<and> all_answered answers \<and>
            sf_results (call_future c) = answers @ drop (length (call_bufs c)) (call_results c))))"

text \<open>A call that waits for its response will get its own: its request is outstanding, or answered.\<close>

definition response_due :: "'a TxBatchRequest list \<Rightarrow> ('a \<Rightarrow> TxBatchResponse option) \<Rightarrow> Bytes list \<Rightarrow> 'a \<Rightarrow> bool" where
  "response_due outs bx buffers a \<longleftrightarrow>
     (\<forall>request \<in> set outs. req_response request = a \<longrightarrow> req_bufs request = buffers) \<and>
     (\<forall>resp. bx a = Some resp \<longrightarrow> full_answer buffers resp) \<and>
     ((\<exists>request \<in> set outs. req_response request = a) \<or> bx a \<noteq> None)"

definition waits_for :: "'a tx_call \<Rightarrow> 'a option" where
  "waits_for c = (case sf_state (call_future c) of AwaitingResponse len a guard \<Rightarrow> Some a | _ \<Rightarrow> None)"

definition call_ok :: "('w, 'a, 'm) tx_call_env_scheme \<Rightarrow> TxController \<Rightarrow> 'a TxBatchRequest list \<Rightarrow> 'a tx_mail \<Rightarrow> 'a tx_call \<Rightarrow> bool" where
  "call_ok env self outs m c \<longleftrightarrow>
     (if sf_state (call_future c) = Finished then returned_ok c
      else call_returned c = None \<and> waiting_inv env self (call_bufs c) (call_results c) (call_keep c) (call_future c)) \<and>
     (\<forall>a. waits_for c = Some a \<longrightarrow> a \<in> names m \<and> response_due outs (box m) (call_bufs c) a)"

fun driver_ok :: "'a driver_pc \<Rightarrow> bool" where
  "driver_ok (DriverRuns request batch) \<longleftrightarrow> same_batch (batch_new request) batch \<and> loop_inv batch"
| "driver_ok (DriverAnswers request resp) \<longleftrightarrow> full_answer (req_bufs request) resp"
| "driver_ok _ \<longleftrightarrow> True"

definition tx_sys_inv :: "('w, 'a, 'm) tx_call_env_scheme \<Rightarrow> TxController \<Rightarrow> ('w \<Rightarrow> 'a tx_mail) \<Rightarrow> ('a, 'w) tx_system \<Rightarrow> bool" where
  "tx_sys_inv env self mail s \<longleftrightarrow>
     0 < submit_chunk_size (tx_self s) \<and> TxShutdown \<notin> set (queued (mail (tx_world s))) \<and>
     batches mail s = (if phase (tx_shared (tx_self s)) = Idle then 0 else 1) \<and>
     dom (box (mail (tx_world s))) \<subseteq> names (mail (tx_world s)) \<and>
     (\<forall>request \<in> set (outstanding mail s). req_response request \<in> names (mail (tx_world s))) \<and>
     driver_ok (tx_driver s) \<and>
     (\<forall>c \<in> set (tx_calls s). call_ok env self (outstanding mail s) (mail (tx_world s)) c) \<and>
     distinct (List.map_filter waits_for (tx_calls s))"

lemma requests_simps [simp]:
  "requests [] = []" "requests (RunBatch request # cs) = request # requests cs"
  "requests (cs @ [RunBatch request]) = requests cs @ [request]"
  by (induction cs) (auto simp: requests_def map_filter_simps split: option.split)

lemma copy_results_full: "length rs = n \<Longrightarrow> n \<le> length out \<Longrightarrow> copy_results n out rs = rs @ drop n out"
  by (induction n out rs rule: copy_results.induct) auto

lemma call_ok_frame:
  assumes "call_ok env self outs m c" "set outs' = set outs" "box m' = box m" "names m \<subseteq> names m'"
  shows "call_ok env self outs' m' c"
  using assms by (auto simp: call_ok_def response_due_def)


text \<open>A call changed, with what it did to slot and world.\<close>

lemma update_call_inv:
  fixes s :: "('a, 'w) tx_system" and fut :: "'a send_future" and returned :: "Bytes list option" and w :: 'w
  assumes inv: "tx_sys_inv env self mail s" and i: "i < length (tx_calls s)"
  defines "c \<equiv> (tx_calls s ! i)\<lparr>call_future := fut, call_returned := returned\<rparr>"
    and "outs \<equiv> requests (queued (mail w)) @ driver_request (tx_driver s)"
  assumes queue: "TxShutdown \<notin> set (queued (mail w))"
    and batches: "length (queued (mail w)) + (case tx_driver s of DriverWaits \<Rightarrow> 0 | _ \<Rightarrow> 1) = (if phase sl = Idle then 0 else 1)"
    and names: "dom (box (mail w)) \<subseteq> names (mail w)" "\<forall>request \<in> set outs. req_response request \<in> names (mail w)"
    and this_call: "call_ok env self outs (mail w) c"
      "\<And>a. waits_for c = Some a \<Longrightarrow> waits_for (tx_calls s ! i) = Some a \<or> a \<notin> set (List.map_filter waits_for (tx_calls s))"
    and others: "\<And>j. j < length (tx_calls s) \<Longrightarrow> j \<noteq> i \<Longrightarrow> call_ok env self outs (mail w) (tx_calls s ! j)"
  shows "tx_sys_inv env self mail (update_call i fut returned sl w s)"
proof -
  let ?s = "update_call i fut returned sl w s"
  have "distinct (List.map_filter waits_for ((tx_calls s)[i := c]))"
    using inv i this_call(2) by (intro distinct_map_filter_update) (simp_all add: tx_sys_inv_def)
  moreover have "call_ok env self outs (mail w) c'" if "c' \<in> set ((tx_calls s)[i := c])" for c'
    using that this_call(1) others i by (auto simp: in_set_conv_nth nth_list_update split: if_splits)
  ultimately show ?thesis
    using inv queue batches names
    by (auto simp: tx_sys_inv_def update_call_def batches_def outstanding_def outs_def c_def)
qed

lemma tx_sys_inv_call:
  "tx_sys_inv env self mail s \<Longrightarrow> j < length (tx_calls s) \<Longrightarrow>
   call_ok env self (outstanding mail s) (mail (tx_world s)) (tx_calls s ! j)"
  by (auto simp: tx_sys_inv_def)

lemma tx_sys_inv_waits:
  assumes "tx_sys_inv env self mail s" "i < length (tx_calls s)" "j < length (tx_calls s)"
    and "waits_for (tx_calls s ! i) = Some a" "waits_for (tx_calls s ! j) = Some a"
  shows "i = j"
proof (rule ccontr)
  assume "i \<noteq> j"
  then obtain k l where kl: "k < l" "l < length (tx_calls s)" "waits_for (tx_calls s ! k) = Some a" "waits_for (tx_calls s ! l) = Some a"
    using assms(2-) by (metis nat_neq_iff)
  have "List.map_filter waits_for (tx_calls s) =
      List.map_filter waits_for (take l (tx_calls s)) @ a # List.map_filter waits_for (drop (Suc l) (tx_calls s))"
    by (simp add: map_filter_split(1) [OF kl(2)] kl(4))
  moreover have "take l (tx_calls s) ! k \<in> set (take l (tx_calls s))" using kl(1,2) by (intro nth_mem) simp
  then have "a \<in> set (List.map_filter waits_for (take l (tx_calls s)))" using kl(1,3) by (auto simp: set_map_filter)
  ultimately show False using assms(1) by (auto simp: tx_sys_inv_def)
qed

context tx_post
begin

lemma poll_before_inv:
  assumes inv: "tx_sys_inv env self mail s" and i: "i < length (tx_calls s)"
    and poll: "send_many_poll env self cx (call_future (tx_calls s ! i), tx_shared (tx_self s), tx_world s) = Some (Ok p, fut, sl, w)"
    and early: "sf_state (call_future (tx_calls s ! i)) \<noteq> Finished" "waits_for (tx_calls s ! i) = None"
  shows "tx_sys_inv env self mail (update_call i fut (case p of Pending \<Rightarrow> None | Ready buffers \<Rightarrow> Some buffers) sl w s)"
proof -
  let ?c = "tx_calls s ! i" and ?m = "mail (tx_world s)" and ?sl = "tx_shared (tx_self s)"
  let ?s = "(?sl, tx_world s)"
  have ok: "call_ok env self (outstanding mail s) ?m ?c" using tx_sys_inv_call [OF inv i] .
  then have wait: "waiting_inv env self (call_bufs ?c) (call_results ?c) (call_keep ?c) (call_future ?c)"
    using early by (simp add: call_ok_def)
  have not_waiting: "\<nexists>len a guard. sf_state (call_future ?c) = AwaitingResponse len a guard"
    using early(2) by (auto simp: waits_for_def)
  have dom: "dom (box ?m) \<subseteq> names ?m" using inv by (simp add: tx_sys_inv_def)
  have eff: "poll_effect mail (call_bufs ?c) (call_results ?c) ?s (Ok p) (fut, sl, w)"
    using call_postD [OF poll_before_effect [OF wait not_waiting dom] poll] .
  have wait': "waiting_inv env self (call_bufs ?c) (call_results ?c) (call_keep ?c) fut" if "p = Pending"
    using call_postD [OF send_many_poll_outcome [OF wait] poll] that by (simp add: outcome_post_def send_outcome_def)
  have alone: "?thesis" if l: "left_alone mail ?s (sl, w)" and st: "p = Pending \<Longrightarrow> \<exists>due af. sf_state fut = Acquiring due af"
  proof (rule update_call_inv [OF inv i])
    let ?outs = "requests (queued (mail w)) @ driver_request (tx_driver s)"
    have outs: "?outs = outstanding mail s" using l by (simp add: left_alone_def outstanding_def)
    have m: "box (mail w) = box ?m" "names ?m \<subseteq> names (mail w)" "queued (mail w) = queued ?m"
      and ph: "phase sl = Idle \<longleftrightarrow> phase ?sl = Idle" using l by (simp_all add: left_alone_def)
    show "TxShutdown \<notin> set (queued (mail w))" "dom (box (mail w)) \<subseteq> names (mail w)"
      "\<forall>request \<in> set ?outs. req_response request \<in> names (mail w)"
      "length (queued (mail w)) + (case tx_driver s of DriverWaits \<Rightarrow> 0 | _ \<Rightarrow> 1) = (if phase sl = Idle then 0 else 1)"
      using inv m ph unfolding outs by (auto simp: tx_sys_inv_def batches_def)
    show "call_ok env self ?outs (mail w) (tx_calls s ! j)" if "j < length (tx_calls s)" for j
      unfolding outs by (rule call_ok_frame [OF tx_sys_inv_call [OF inv that] refl m(1,2)])
    let ?c' = "?c\<lparr>call_future := fut, call_returned := case p of Pending \<Rightarrow> None | Ready buffers \<Rightarrow> Some buffers\<rparr>"
    have none: "waits_for ?c' = None"
      using eff st by (cases p) (auto simp: waits_for_def poll_effect_def)
    then show "waits_for ?c = Some a \<or> a \<notin> set (List.map_filter waits_for (tx_calls s))" if "waits_for ?c' = Some a" for a
      using that by simp
    show "call_ok env self ?outs (mail w) ?c'"
    proof (cases p)
      case Pending
      then show ?thesis using wait' st none by (auto simp: call_ok_def)
    next
      case (Ready buffers)
      then show ?thesis using eff none by (auto simp: call_ok_def poll_effect_def returned_ok_def)
    qed
  qed
  show ?thesis
  proof (cases "left_alone mail ?s (sl, w) \<and> (p = Pending \<longrightarrow> (\<exists>due af. sf_state fut = Acquiring due af))")
    case True
    then show ?thesis using alone by blast
  next
    case False
    then obtain len a guard where p: "p = Pending" and st: "sf_state fut = AwaitingResponse len a guard"
      and post: "posted mail (call_bufs ?c) a ?s (sl, w)"
      using eff by (cases p) (auto simp: poll_effect_def)
    then obtain request where q: "queued (mail w) = queued ?m @ [RunBatch request]" "req_bufs request = call_bufs ?c" "req_response request = a"
      and ph: "phase ?sl = Idle" "phase sl \<noteq> Idle" and a: "a \<notin> names ?m" "names (mail w) = insert a (names ?m)" "box (mail w) = box ?m"
      by (auto simp: posted_def)
    have idle: "queued ?m = []" "tx_driver s = DriverWaits"
      using inv ph(1) by (auto simp: tx_sys_inv_def batches_def split: driver_pc.splits)
    have none: "box ?m a = None" using dom a(1) by (auto simp: domIff)
    show ?thesis
    proof (rule update_call_inv [OF inv i])
      let ?outs = "requests (queued (mail w)) @ driver_request (tx_driver s)"
      have outs: "?outs = [request]" "outstanding mail s = []" using q idle by (simp_all add: outstanding_def)
      show "TxShutdown \<notin> set (queued (mail w))" "dom (box (mail w)) \<subseteq> names (mail w)"
        "\<forall>request \<in> set ?outs. req_response request \<in> names (mail w)"
        "length (queued (mail w)) + (case tx_driver s of DriverWaits \<Rightarrow> 0 | _ \<Rightarrow> 1) = (if phase sl = Idle then 0 else 1)"
        using q idle a dom ph unfolding outs by auto
      show "call_ok env self ?outs (mail w) (tx_calls s ! j)" if "j < length (tx_calls s)" "j \<noteq> i" for j
        using tx_sys_inv_call [OF inv that(1)] a q(3) unfolding outs by (auto simp: call_ok_def response_due_def)
      show "call_ok env self ?outs (mail w)
          (?c\<lparr>call_future := fut, call_returned := case p of Pending \<Rightarrow> None | Ready buffers \<Rightarrow> Some buffers\<rparr>)"
        using wait' p st a q none unfolding outs by (auto simp: call_ok_def waits_for_def response_due_def)
      have "b \<in> names ?m" if "b \<in> set (List.map_filter waits_for (tx_calls s))" for b
        using that tx_sys_inv_call [OF inv] by (auto simp: set_map_filter call_ok_def in_set_conv_nth)
      then show "waits_for ?c = Some b \<or> b \<notin> set (List.map_filter waits_for (tx_calls s))"
        if "waits_for (?c\<lparr>call_future := fut, call_returned := case p of Pending \<Rightarrow> None | Ready buffers \<Rightarrow> Some buffers\<rparr>) = Some b" for b
        using that st a(1) by (auto simp: waits_for_def)
    qed
  qed
qed

end


context tx_post
begin

lemma poll_waiting_inv:
  assumes inv: "tx_sys_inv env self mail s" and i: "i < length (tx_calls s)"
    and poll: "send_many_poll env self cx (call_future (tx_calls s ! i), tx_shared (tx_self s), tx_world s) = Some (Ok p, fut, sl, w)"
    and st: "sf_state (call_future (tx_calls s ! i)) = AwaitingResponse len a guard"
  shows "tx_sys_inv env self mail (update_call i fut (case p of Pending \<Rightarrow> None | Ready buffers \<Rightarrow> Some buffers) sl w s)"
proof (rule update_call_inv [OF inv i])
  let ?c = "tx_calls s ! i" and ?m = "mail (tx_world s)"
  let ?c' = "?c\<lparr>call_future := fut, call_returned := case p of Pending \<Rightarrow> None | Ready buffers \<Rightarrow> Some buffers\<rparr>"
  let ?outs = "requests (queued (mail w)) @ driver_request (tx_driver s)"
  have ok: "call_ok env self (outstanding mail s) ?m ?c" using tx_sys_inv_call [OF inv i] .
  have wf: "waits_for ?c = Some a" using st by (simp add: waits_for_def)
  note eff = poll_waiting_effect [OF st poll]
  have sl: "sl = tx_shared (tx_self s)" using eff by simp
  have m: "queued (mail w) = queued ?m" "names (mail w) = names ?m" "box (mail w) = box ?m \<or> box (mail w) = (box ?m)(a := None)"
    using eff by auto
  have outs: "?outs = outstanding mail s" using m by (simp add: outstanding_def)
  show "TxShutdown \<notin> set (queued (mail w))" "dom (box (mail w)) \<subseteq> names (mail w)"
    "\<forall>request \<in> set ?outs. req_response request \<in> names (mail w)"
    "length (queued (mail w)) + (case tx_driver s of DriverWaits \<Rightarrow> 0 | _ \<Rightarrow> 1) = (if phase sl = Idle then 0 else 1)"
    using inv m unfolding outs sl by (auto simp: tx_sys_inv_def batches_def split: if_splits)
  show "call_ok env self ?outs (mail w) (tx_calls s ! j)" if "j < length (tx_calls s)" "j \<noteq> i" for j
  proof -
    have "waits_for (tx_calls s ! j) \<noteq> Some a" using tx_sys_inv_waits [OF inv i that(1) wf] that(2) by blast
    then show ?thesis
      using tx_sys_inv_call [OF inv that(1)] m unfolding outs by (auto simp: call_ok_def response_due_def)
  qed
  have waiting: "waiting_inv env self (call_bufs ?c) (call_results ?c) (call_keep ?c) (call_future ?c)"
    using ok st by (simp add: call_ok_def)
  show "call_ok env self ?outs (mail w) ?c'"
  proof (cases p)
    case Pending
    then have "fut = call_future ?c" "mail w = ?m" "call_returned ?c = None" using eff ok st by (auto simp: call_ok_def)
    then have "?c' = ?c" using Pending by simp
    then show ?thesis using ok outs \<open>mail w = ?m\<close> by simp
  next
    case (Ready buffers)
    then obtain resp where r: "box ?m a = Some resp" "buffers = resp_bufs resp" "sf_state fut = Finished"
      "sf_results fut = copy_results len (sf_results (call_future ?c)) (resp_results resp)" using eff by auto
    have full: "full_answer (call_bufs ?c) resp" using ok wf r(1) by (auto simp: call_ok_def response_due_def)
    have "len = length (call_bufs ?c)" "length (call_bufs ?c) \<le> length (call_results ?c)"
      "sf_results (call_future ?c) = clear_result_prefix (call_results ?c) (length (call_bufs ?c))"
      using waiting st by (simp_all add: waiting_inv_def)
    then have "sf_results fut = resp_results resp @ drop (length (call_bufs ?c)) (call_results ?c)"
      using r(4) full copy_results_full [of "resp_results resp" len "sf_results (call_future ?c)"]
      by (simp add: full_answer_def clear_result_prefix_def)
    then show ?thesis
      using Ready r full by (auto simp: call_ok_def returned_ok_def waits_for_def full_answer_def intro!: exI [of _ "resp_results resp"])
  qed
  show "waits_for ?c = Some b \<or> b \<notin> set (List.map_filter waits_for (tx_calls s))" if "waits_for ?c' = Some b" for b
    using that wf eff by (auto simp: waits_for_def st)
qed

lemma drop_inv:
  assumes inv: "tx_sys_inv env self mail s" and i: "i < length (tx_calls s)"
    and drop: "send_many_drop env (call_future (tx_calls s ! i), tx_shared (tx_self s), tx_world s) = Some (Ok x, fut, sl, w)"
  shows "tx_sys_inv env self mail (update_call i fut None sl w s)"
proof (rule update_call_inv [OF inv i])
  let ?outs = "requests (queued (mail w)) @ driver_request (tx_driver s)"
  have eff: "sl = tx_shared (tx_self s)" "mail w = mail (tx_world s)" "sf_state fut = Finished"
    using drop_effect [OF drop] by simp_all
  have outs: "?outs = outstanding mail s" using eff by (simp add: outstanding_def)
  show "TxShutdown \<notin> set (queued (mail w))" "dom (box (mail w)) \<subseteq> names (mail w)"
    "\<forall>request \<in> set ?outs. req_response request \<in> names (mail w)"
    "length (queued (mail w)) + (case tx_driver s of DriverWaits \<Rightarrow> 0 | _ \<Rightarrow> 1) = (if phase sl = Idle then 0 else 1)"
    using inv eff unfolding outs by (auto simp: tx_sys_inv_def batches_def)
  show "call_ok env self ?outs (mail w) (tx_calls s ! j)" if "j < length (tx_calls s)" for j
    using tx_sys_inv_call [OF inv that] eff outs by simp
qed (use drop_effect [OF drop] in \<open>simp_all add: call_ok_def returned_ok_def waits_for_def\<close>)

text \<open>The driver changed, with what it did to slot and channels.\<close>

lemma driver_changed_inv:
  fixes pc :: "'a driver_pc" and w :: 'w
  assumes inv: "tx_sys_inv env self mail s"
  defines "outs \<equiv> requests (queued (mail w)) @ driver_request pc"
  assumes "submit_chunk_size thread = submit_chunk_size (tx_self s)" "TxShutdown \<notin> set (queued (mail w))"
    and "length (queued (mail w)) + (case pc of DriverWaits \<Rightarrow> 0 | _ \<Rightarrow> 1) = (if phase (tx_shared thread) = Idle then 0 else 1)"
    and "dom (box (mail w)) \<subseteq> names (mail w)" "\<forall>request \<in> set outs. req_response request \<in> names (mail w)" "driver_ok pc"
    and "\<forall>c \<in> set (tx_calls s). call_ok env self outs (mail w) c"
  shows "tx_sys_inv env self mail (s\<lparr>tx_driver := pc, tx_self := thread, tx_world := w\<rparr>)"
  using assms by (simp add: tx_sys_inv_def batches_def outstanding_def)

lemma expired_answer: "full_answer (req_bufs request) (into_response (mark_unsubmitted_timed_out (batch_new request)))"
proof -
  let ?b = "mark_unsubmitted_timed_out (batch_new request)"
  have f: "finishes (batch_new request) ?b"
    unfolding mark_unsubmitted_timed_out_def by (rule mark_unsubmitted_spec(1) [OF loop_inv_sound [OF loop_inv_new]])
  then have "sound ?b" using loop_inv_sound [OF loop_inv_new, of request] by (simp add: finishes_def)
  with f expired_complete [of request] show ?thesis
    using complete_answered [of ?b]
    by (auto simp: full_answer_def all_answered_def into_response_def finishes_def same_batch_def sound_def)
qed

lemma driver_step_inv:
  assumes inv: "tx_sys_inv env self mail s"
    and step: "driver_step env (tx_driver s) (tx_self s, tx_world s) = Some (pc, thread, w)"
  shows "tx_sys_inv env self mail (s\<lparr>tx_driver := pc, tx_self := thread, tx_world := w\<rparr>)"
proof -
  let ?m = "mail (tx_world s)" and ?outs = "requests (queued (mail w)) @ driver_request pc"
  note facts = inv [unfolded tx_sys_inv_def batches_def outstanding_def]
  have calls: "\<forall>c \<in> set (tx_calls s). call_ok env self ?outs (mail w) c"
    if "set ?outs = set (outstanding mail s)" "box (mail w) = box ?m" "names ?m \<subseteq> names (mail w)"
    using that inv call_ok_frame by (fastforce simp: tx_sys_inv_def)
  show ?thesis
  proof (cases "tx_driver s")
    case DriverWaits
    obtain command w1 where r: "tx_recv_blocking env (tx_world s) = (Some command, w1)"
      using step DriverWaits by (auto split: if_splits prod.splits option.splits)
    obtain cs where q: "queued ?m = command # cs" "mail w1 = ?m\<lparr>queued := cs\<rparr>" using recv [OF r] by blast
    obtain request where c: "command = RunBatch request" using q(1) facts by (cases command) auto
    obtain x w2 where d: "ignoring (drain_eventfd env (tx_command_eventfd (tx_self s)) w1) = Some (Ok x, w2)"
      using step DriverWaits r by (auto split: if_splits option.splits res.splits)
    have w2: "mail w2 = mail w1" using d by (auto simp: ignoring_def on_err_Some_iff dest: drain_mail)
    obtain late w3 where l: "deadline_expired env (batch_new request) w2 = (late, w3)" by (cases "deadline_expired env (batch_new request) w2")
    have w3: "mail w3 = mail w2" using l by (auto simp: deadline_expired_def split: option.splits prod.splits dest: now)
    have pc: "pc = (if late then DriverAnswers request (into_response (mark_unsubmitted_timed_out (batch_new request)))
        else DriverRuns request (batch_new request))" "thread = tx_self s" "w = w3"
      using step DriverWaits r c d l by (auto simp: Let_def split: if_splits)
    have m: "mail w = ?m\<lparr>queued := cs\<rparr>" using pc w2 w3 q by simp
    have drv: "driver_ok pc" "driver_request pc = [request]" "(case pc of DriverWaits \<Rightarrow> 0 | _ \<Rightarrow> 1) = (1 :: nat)"
      using pc(1) expired_answer loop_inv_new by auto
    show ?thesis
      using facts DriverWaits q c m drv pc calls
      by (intro driver_changed_inv [OF inv]) (auto simp: outstanding_def split: if_splits)
  next
    case (DriverRuns request batch)
    obtain return batch' where it: "batch_iteration env (batch, tx_self s, tx_world s) = Some (Ok return, batch', thread, w)"
      and pc: "pc = (if return then DriverAnswers request (into_response batch') else DriverRuns request batch')"
      using step DriverRuns by (auto split: option.splits res.splits)
    have none: "queued ?m = []" "phase (tx_shared (tx_self s)) \<noteq> Idle" using facts DriverRuns by (auto split: if_splits)
    have calm: "mail w = ?m" "phase (tx_shared thread) \<noteq> Idle" "submit_chunk_size thread = submit_chunk_size (tx_self s)"
      using call_postD [OF tx_quiet.batch_iteration_calm [OF quiet [OF none(1)] refl] it] none(2)
      by (auto simp: tx_quiet.calm_post_def [OF quiet [OF none(1)]])
    have b: "same_batch (batch_new request) batch" "loop_inv batch" using facts DriverRuns by simp_all
    have post: "iteration_post batch (submit_chunk_size (tx_self s)) (Ok return) (batch', thread, w)"
      using call_postD [OF batch_iteration_post [OF b(2)] it] facts by simp
    then have b': "same_batch (batch_new request) batch'" "sound batch'" using b(1)
      by (auto simp: iteration_post_def batch_inv_def intro: same_batch_trans)
    have "driver_ok pc"
      using post b' complete_answered [OF b'(2)]
      by (auto simp: pc iteration_post_def full_answer_def all_answered_def into_response_def same_batch_def sound_def)
    moreover have "driver_request pc = [request]" "(case pc of DriverWaits \<Rightarrow> 0 | _ \<Rightarrow> 1) = (1 :: nat)" using pc by simp_all
    ultimately show ?thesis
      using facts DriverRuns none calm calls by (intro driver_changed_inv [OF inv]) (auto simp: outstanding_def)
  next
    case (DriverAnswers request resp)
    then have pc: "pc = DriverReleases" "thread = tx_self s" "w = response_send env (req_response request) resp (tx_world s)"
      using step by simp_all
    have m: "mail w = ?m\<lparr>box := (box ?m)(req_response request := Some resp)\<rparr>" using pc(3) respond by simp
    have none: "queued ?m = []" using facts DriverAnswers by (auto split: if_splits)
    have ok: "full_answer (req_bufs request) resp" using facts DriverAnswers by simp
    have "call_ok env self ?outs (mail w) c" if "c \<in> set (tx_calls s)" for c
    proof -
      have "call_ok env self [request] ?m c" using facts that none DriverAnswers by simp
      then show ?thesis using ok none pc(1) by (auto simp: m call_ok_def response_due_def)
    qed
    then show ?thesis
      using facts DriverAnswers none pc m by (intro driver_changed_inv [OF inv]) (auto split: if_splits)
  next
    case DriverReleases
    obtain b sl ws where rel: "release_to_idle (tx_shared (tx_self s)) = (b, sl, ws)" by (cases "release_to_idle (tx_shared (tx_self s))")
    then have pc: "pc = DriverWaits" "thread = (tx_self s)\<lparr>tx_shared := sl\<rparr>" "mail w = ?m" "phase sl = Idle"
      using step DriverReleases by (auto simp: release_slot_def wake release_to_idle_def split: if_splits)
    have none: "queued ?m = []" using facts DriverReleases by (auto split: if_splits)
    show ?thesis
      using facts DriverReleases none pc calls by (intro driver_changed_inv [OF inv]) (auto simp: outstanding_def)
  qed
qed

lemma tx_step_inv:
  assumes inv: "tx_sys_inv env self mail s" and step: "tx_step env self ev s = Some s'"
  shows "tx_sys_inv env self mail s'"
proof (cases ev)
  case (SendMany buffers rs timeout keep)
  let ?c = "\<lparr> call_bufs = buffers, call_results = rs, call_keep = keep,
       call_future = send_future_new buffers rs timeout keep, call_returned = None \<rparr> :: 'a tx_call"
  have "call_ok env self outs m ?c" "waits_for ?c = None" for outs m
    by (simp_all add: call_ok_def waits_for_def send_future_new_def waiting_inv_def)
  moreover have s': "s' = s\<lparr>tx_calls := tx_calls s @ [?c]\<rparr>" using step SendMany by simp
  moreover have "outstanding mail s' = outstanding mail s" "batches mail s' = batches mail s"
    using s' by (simp_all add: outstanding_def batches_def)
  ultimately show ?thesis using inv by (simp add: tx_sys_inv_def map_filter_simps)
next
  case (PollCall i cx)
  then have i: "i < length (tx_calls s)" "sf_state (call_future (tx_calls s ! i)) \<noteq> Finished"
    using step by (auto simp: call_open_def split: if_splits)
  obtain p fut sl w where poll: "send_many_poll env self cx (call_future (tx_calls s ! i), tx_shared (tx_self s), tx_world s) =
      Some (Ok p, fut, sl, w)"
    and s': "s' = update_call i fut (case p of Pending \<Rightarrow> None | Ready buffers \<Rightarrow> Some buffers) sl w s"
    using step PollCall by (auto split: if_splits option.splits res.splits simp del: send_many_poll.simps)
  show ?thesis
  proof (cases "waits_for (tx_calls s ! i)")
    case None
    then show ?thesis using poll_before_inv [OF inv i(1) poll i(2)] s' by simp
  next
    case (Some a)
    then obtain len guard where "sf_state (call_future (tx_calls s ! i)) = AwaitingResponse len a guard"
      by (auto simp: waits_for_def split: send_state.splits)
    then show ?thesis using poll_waiting_inv [OF inv i(1) poll] s' by simp
  qed
next
  case (DropCall i)
  then show ?thesis
    using step drop_inv [OF inv] by (auto simp: call_open_def split: if_splits option.splits res.splits)
next
  case DriverStep
  then show ?thesis using step driver_step_inv [OF inv] by auto
qed

lemma tx_run_inv: "tx_sys_inv env self mail s \<Longrightarrow> tx_run_events env self evs s = Some s' \<Longrightarrow> tx_sys_inv env self mail s'"
  by (induction evs arbitrary: s) (auto simp: Option.bind_eq_Some_conv dest: tx_step_inv)

end


section \<open>The channels of the concrete host\<close>

definition tc_mail :: "tsim \<Rightarrow> nat tx_mail" where
  "tc_mail w =
     \<lparr> queued = ts_cmds w,
       box = (\<lambda>a. case filter (\<lambda>x. fst x = a) (ts_responses w) of [] \<Rightarrow> None | r # rs \<Rightarrow> Some (snd (last (r # rs)))),
       names = {..< ts_next w} \<rparr>"

lemma ts_accept_mail: "tc_mail (fold ts_accept es w) = tc_mail w"
proof (induction es arbitrary: w)
  case (Cons e es)
  have "tc_mail (ts_accept e w) = tc_mail w" by (cases e) (simp_all add: tc_mail_def)
  with Cons show ?case by simp
qed simp

lemma tc_mail_frame [simp]:
  "tc_mail (w\<lparr>ts_sq := q\<rparr>) = tc_mail w" "tc_mail (w\<lparr>ts_log := es\<rparr>) = tc_mail w" "tc_mail (w\<lparr>ts_held := hs\<rparr>) = tc_mail w"
  "tc_mail (w\<lparr>ts_cq := cs\<rparr>) = tc_mail w" "tc_mail (w\<lparr>ts_signal := b\<rparr>) = tc_mail w" "tc_mail (w\<lparr>ts_flag := b\<rparr>) = tc_mail w"
  "tc_mail (w\<lparr>ts_slow := n\<rparr>) = tc_mail w" "tc_mail (w\<lparr>ts_now := n\<rparr>) = tc_mail w" "tc_mail (w\<lparr>ts_wakes := ws\<rparr>) = tc_mail w"
  by (simp_all add: tc_mail_def)

interpretation tc_post: tx_post tc_env tc_mail
proof unfold_locales
  fix a :: nat and resp and w :: tsim
  have "filter (\<lambda>x. fst x = b) (ts_responses w @ [(a, resp)]) = filter (\<lambda>x. fst x = b) (ts_responses w) @ (if b = a then [(a, resp)] else [])" for b
    by simp
  moreover have "(case rs @ [(a, resp)] of [] \<Rightarrow> None | r # rs \<Rightarrow> Some (snd (last (r # rs)))) = Some resp" for rs
    by (cases rs) auto
  ultimately show "tc_mail (response_send tc_env a resp w) = (tc_mail w)\<lparr>box := (box (tc_mail w))(a := Some resp)\<rparr>"
    by (simp add: tc_env_def ts_env_def tc_mail_def fun_eq_iff del: last.simps)
next
  fix a cx m and w w' :: tsim
  assume "response_poll tc_env a cx w = (Ready m, w')"
  then show "(\<exists>resp. m = Some resp \<and> box (tc_mail w) a = Some resp) \<and>
      (tc_mail w' = tc_mail w \<or> tc_mail w' = (tc_mail w)\<lparr>box := (box (tc_mail w))(a := None)\<rparr>)"
    by (auto simp: tc_env_def tc_mail_def simp del: last.simps split: list.splits)
next
  fix c and w w' :: tsim
  assume "tx_try_recv tc_env w = (Received c, w')"
  then show "\<exists>cs. queued (tc_mail w) = c # cs \<and> tc_mail w' = (tc_mail w)\<lparr>queued := cs\<rparr>"
    by (auto simp: tc_env_def ts_env_def tc_mail_def split: list.splits)
next
  fix c and w w' :: tsim
  assume "tx_recv_blocking tc_env w = (Some c, w')"
  then show "\<exists>cs. queued (tc_mail w) = c # cs \<and> tc_mail w' = (tc_mail w)\<lparr>queued := cs\<rparr>"
    by (auto simp: tc_env_def ts_env_def tc_mail_def split: list.splits)
next
  fix a and w w' :: tsim
  assume "response_new tc_env w = (a, w')"
  then show "a \<notin> names (tc_mail w) \<and> tc_mail w' = (tc_mail w)\<lparr>names := insert a (names (tc_mail w))\<rparr>"
    by (auto simp: tc_env_def tc_mail_def)
next
  fix c ok and w w' :: tsim
  assume "tx_command_send tc_env c w = (ok, w')"
  then show "tc_mail w' = (tc_mail w)\<lparr>queued := queued (tc_mail w) @ (if ok then [c] else [])\<rparr>"
    by (auto simp: tc_env_def tc_mail_def)
qed (auto simp: tc_env_def ts_env_def ts_push_def ts_submit_def ts_accept_mail ts_poll_def ts_read_def split: if_splits list.splits)

section \<open>Correctness of TX as a whole\<close>

text \<open>The system \<^verbatim>\<open>TxController::new\<close> starts, before the first call.\<close>

definition tx_boot :: "TxDriverThread \<Rightarrow> 'w \<Rightarrow> ('a, 'w) tx_system" where
  "tx_boot thread w = \<lparr> tx_calls = [], tx_driver = DriverWaits, tx_self = thread, tx_world = w \<rparr>"

lemma tx_boot_inv:
  assumes "tx_controller_new env fd entries chunk name w0 = (Ok (self, thread), w)" "0 < chunk"
    and "queued (mail w) = []" "dom (box (mail w)) \<subseteq> names (mail w)"
  shows "tx_sys_inv env self mail (tx_boot thread w)"
proof -
  have "submit_chunk_size thread = chunk" "tx_shared thread = slot_default"
    using assms(1) by (auto simp: tx_controller_new_def then_try_Ok_iff)
  then show ?thesis
    using assms(2-4) by (simp add: tx_sys_inv_def tx_boot_def batches_def outstanding_def slot_default_def map_filter_simps)
qed

text \<open>
  Two calls: the second waits for the slot while the driver runs the batch of the first, the first returns
  before the slot is free, and then the second sends its batch.
\<close>

definition two_calls :: "tx_event list" where
  "two_calls = [SendMany example_buffers example_results 0 True, SendMany example_buffers [None, None] 0 False,
     PollCall 0 10, PollCall 1 11, DriverStep, DriverStep, PollCall 1 11, DriverStep, DriverStep, PollCall 0 10,
     DriverStep, PollCall 1 11]"

definition new_controller :: TxController where
  "new_controller = \<lparr> ctl_eventfd = 4, ctl_thread_name = ''uring-tx'', ctl_thread = True \<rparr>"

definition new_thread :: TxDriverThread where
  "new_thread = \<lparr> tx_cq_eventfd = 3, tx_device = 5, tx_command_eventfd = 3, tx_shared = slot_default, submit_chunk_size = 2,
     tx_shutdown_requested = False \<rparr>"

lemma new_controller_made:
  "tx_controller_new tc_env 5 8 2 ''uring-tx'' ts_empty = (Ok (new_controller, new_thread), ts_empty)"
  by (simp add: tx_controller_new_def tx_ring_new_def then_try_def new_eventfd_def dup_fd_def tc_env_def ts_env_def
      new_controller_def new_thread_def)

definition two_calls_end :: "(nat, tsim) tx_system" where
  "two_calls_end = the (tx_run_events tc_env new_controller two_calls (tx_boot new_thread ts_empty))"

lemma two_calls_run:
  "map_option (\<lambda>s. (map call_returned (tx_calls s), sf_results (call_future (tx_calls s ! 0)), map waits_for (tx_calls s),
       phase (tx_shared (tx_self s)) = Idle))
     (tx_run_events tc_env new_controller two_calls (tx_boot new_thread ts_empty)) =
   Some ([Some example_buffers, None], [Some (Ok 20), Some (Ok 21), Some (Ok 7)], [None, Some 1], False)"
  by code_simp

lemma two_calls_reached:
  "tx_run_events tc_env new_controller two_calls (tx_boot new_thread ts_empty) = Some two_calls_end"
  using two_calls_run by (auto simp: two_calls_end_def)

lemma ts_empty_mail: "queued (tc_mail ts_empty) = []" "dom (box (tc_mail ts_empty)) \<subseteq> names (tc_mail ts_empty)"
  by (simp_all add: tc_mail_def ts_empty_def)

interpretation tc_quiet: tx_quiet tc_env "\<lambda>w. tc_mail w = tc_mail ts_empty"
  by (rule tc_post.quiet) (rule ts_empty_mail(1))

text \<open>
  C8.  However many \<^verbatim>\<open>send_many\<close> calls there are, and however their polls and drops interleave with the
  iterations of the driver thread, at most one batch is under way from the moment its request is queued until
  the driver has freed the slot, and the slot is idle exactly when none is.  So a request never waits in the
  channel while a batch runs, where \<^verbatim>\<open>drain_shutdown_commands\<close> would refuse it.
\<close>

theorem tx_one_batch_under_way:
  fixes env :: "('w, 'a, 'm) tx_call_env_scheme"
  assumes "tx_post env mail" "tx_controller_new env fd entries chunk name w0 = (Ok (self, thread), w)" "0 < chunk"
    and "queued (mail w) = []" "dom (box (mail w)) \<subseteq> names (mail w)"
    and "tx_run_events env self evs (tx_boot thread w) = Some s"
  shows "batches mail s = (if phase (tx_shared (tx_self s)) = Idle then 0 else 1)"
  using tx_post.tx_run_inv [OF assms(1) tx_boot_inv [where mail = mail, OF assms(2-5)] assms(6)] by (simp add: tx_sys_inv_def)

theorem tx_one_batch_under_way_witness: "batches tc_mail two_calls_end = 1"
proof -
  have "phase (tx_shared (tx_self two_calls_end)) \<noteq> Idle" using two_calls_run two_calls_reached by simp
  then show ?thesis
    using tx_one_batch_under_way [OF tc_post.tx_post_axioms new_controller_made _ ts_empty_mail(1) ts_empty_mail(2) two_calls_reached] by simp
qed

text \<open>
  C3.  Every call gets its own answer: a call that has returned gave back its own buffers, all of them, and
  either it was refused before anything was sent, or each buffer has a result, in front of the part of the results
  slice that belongs to no buffer; a call that waits for its response has its request queued or at the
  driver, or the response is in its channel, and whatever is in its channel answers its own buffers in full.
\<close>

theorem tx_calls_get_their_answers:
  fixes env :: "('w, 'a, 'm) tx_call_env_scheme"
  assumes "tx_post env mail" "tx_controller_new env fd entries chunk name w0 = (Ok (self, thread), w)" "0 < chunk"
    and "queued (mail w) = []" "dom (box (mail w)) \<subseteq> names (mail w)"
    and "tx_run_events env self evs (tx_boot thread w) = Some s" "c \<in> set (tx_calls s)"
  shows "returned_ok c \<and>
    (\<forall>a. waits_for c = Some a \<longrightarrow> response_due (outstanding mail s) (box (mail (tx_world s))) (call_bufs c) a)"
proof -
  have "call_ok env self (outstanding mail s) (mail (tx_world s)) c"
    using tx_post.tx_run_inv [OF assms(1) tx_boot_inv [where mail = mail, OF assms(2-5)] assms(6)] assms(7) by (simp add: tx_sys_inv_def)
  then show ?thesis by (auto simp: call_ok_def returned_ok_def split: if_splits)
qed

theorem tx_calls_get_their_answers_witness:
  "returned_ok (tx_calls two_calls_end ! 0) \<and>
   response_due (outstanding tc_mail two_calls_end) (box (tc_mail (tx_world two_calls_end)))
     (call_bufs (tx_calls two_calls_end ! 1)) 1"
proof -
  have "map waits_for (tx_calls two_calls_end) = [None, Some 1]" using two_calls_run two_calls_reached by simp
  then have "length (tx_calls two_calls_end) = 2" "waits_for (tx_calls two_calls_end ! 1) = Some 1"
    by (metis length_map list.size(3,4) One_nat_def add.right_neutral add_Suc_right numeral_2_eq_2)
       (metis \<open>map waits_for (tx_calls two_calls_end) = [None, Some 1]\<close> length_map nth_map nth_Cons_0 nth_Cons_Suc One_nat_def length_Cons lessI zero_less_Suc Suc_less_eq)
  moreover note call = tx_calls_get_their_answers [OF tc_post.tx_post_axioms new_controller_made _ ts_empty_mail(1) ts_empty_mail(2) two_calls_reached, OF _ nth_mem]
  ultimately show ?thesis using call [of 0] call [of 1] by simp
qed

section \<open>A signal that fails\<close>

text \<open>
  The hypothesis on the eventfd is needed.  \<^verbatim>\<open>try_send_command\<close> queues the request before it signals, and a
  failed signal makes \<^verbatim>\<open>send_many\<close> free the slot although its batch is under way: then the next call queues a
  second batch, and the first returns none of its buffers.
\<close>

definition mute_env :: "(tsim, nat) tx_call_env" where
  "mute_env = tc_env\<lparr>fd_write_u64 := (\<lambda>fd v w. (Err (Os EAGAIN), w))\<rparr>"

lemma failed_signal_two_batches:
  "map_option (\<lambda>s. (length (queued (tc_mail (tx_world s))), phase (tx_shared (tx_self s)) = Idle, map call_returned (tx_calls s)))
     (tx_run_events mute_env new_controller
       [SendMany example_buffers example_results 0 True, PollCall 0 10, SendMany example_buffers example_results 0 True, PollCall 1 11]
       (tx_boot new_thread ts_empty)) =
   Some (2, True, [Some [], Some []])"
  by code_simp

end
