(* ===== verification/Tx_Thread.thy ===== *)
theory Tx_Thread
  imports Tx_Service Tx_Quiet
begin

text \<open>
  The thread of the TX driver ends: \<^verbatim>\<open>TxDriverThread::run\<close> returns after the commands it is sent, whatever batches
  they ask for, so that \<^verbatim>\<open>TxController::drop\<close>, which sends \<^verbatim>\<open>Shutdown\<close> and joins the thread, does not hang.
\<close>

section \<open>What the thread needs beside the kernel\<close>

text \<open>
  \<open>queued\<close> bounds the commands the thread will still receive (the channel is finite, and a controller that is
  being dropped has no other callers); \<open>fits\<close> says that the requests among them have indices that fit the tag.
  None of the calls the thread makes adds a command.
\<close>

locale tx_joinable = tx_kernel env cmd_fd owes flushed ready signalled events queued ticks
  for env :: "('w, 'a, 'm) tx_env_scheme" and cmd_fd owes flushed ready signalled events queued ticks +
  fixes fits :: "'w \<Rightarrow> bool"
  assumes adds_none: "tx_quiet env (\<lambda>v. fits v \<and> queued v \<le> n)"
    and takes: "tx_recv_blocking env w = (c, w') \<Longrightarrow> fits w \<Longrightarrow> fits w' \<and> queued w' \<le> queued w \<and>
      (\<forall>x. c = Some x \<longrightarrow> queued w' < queued w) \<and>
      (\<forall>request. c = Some (RunBatch request) \<longrightarrow> length (req_bufs request) \<le> 2 ^ 40)"
    and answers: "fits w \<Longrightarrow> fits (response_send env a resp w)"
    and wakes: "fits w \<Longrightarrow> fits (tx_wake env ws w) \<and> queued (tx_wake env ws w) \<le> queued w"
begin

lemma drain_keeps:
  assumes "fits w" "queued w \<le> n" "drain_eventfd env fd w = Some (r, w')"
  shows "fits w' \<and> queued w' \<le> n"
  by (rule drain_eventfd_keeps [where I = "\<lambda>v. fits v \<and> queued v \<le> n", OF _ assms(3)])
     (use tx_quiet.read [OF adds_none] assms(1,2) in blast)+

text \<open>A command is handled, and what the thread relies on is as before.\<close>

lemma handle_command_total:
  assumes "fits w" "queued w \<le> n" "0 < submit_chunk_size self" "tx_command_eventfd self = cmd_fd"
    and "\<forall>request. c = RunBatch request \<longrightarrow> length (req_bufs request) \<le> 2 ^ 40"
  shows "call_total (\<lambda>r s. r = Ok () \<and> fits (snd s) \<and> queued (snd s) \<le> n \<and> 0 < submit_chunk_size (fst s) \<and>
    tx_command_eventfd (fst s) = cmd_fd) (tx_handle_command env c (self, w))"
proof (cases c)
  case (RunBatch request)
  obtain resp self1 w1 where run: "run_batch env request (self, w) = Some (Ok (req_response request, resp), self1, w1)"
    using run_batch_returns [OF _ assms(3,4)] assms(5) RunBatch by (metis prod.collapse)
  note kept = tx_quiet.run_batch_calm [OF adds_none run, of n]
  let ?w = "response_send env (req_response request) resp w1"
  have w: "fits ?w" "queued ?w \<le> n"
    using kept(1) assms(1,2) answers send(3) [of "req_response request" resp w1] by auto
  obtain ok sl ws where "release_to_idle (tx_shared self1) = (ok, sl, ws)" by (cases "release_to_idle (tx_shared self1)")
  then show ?thesis
    using RunBatch run w kept(2,3) assms(1-4) wakes [OF w(1), of ws] by (simp add: release_slot_def)
next
  case TxShutdown
  then show ?thesis using assms by simp
qed

lemma run_returns:
  assumes "fits w" "0 < submit_chunk_size self" "tx_command_eventfd self = cmd_fd"
  shows "\<exists>s'. tx_run env (self, w) = Some (Ok (), s')"
  using assms
proof (induction "queued w" arbitrary: self w rule: less_induct)
  case less
  obtain c w1 where c: "tx_recv_blocking env w = (c, w1)" by (cases "tx_recv_blocking env w")
  note w1 = takes [OF c less.prems(1)]
  show ?case
  proof (cases "tx_shutdown_requested self \<or> c = None")
    case True
    then show ?thesis using c by (subst tx_run.simps) auto
  next
    case False
    then obtain command where command: "c = Some command" by auto
    obtain r2 w2 where 2: "drain_eventfd env (tx_command_eventfd self) w1 = Some (r2, w2)" "r2 \<noteq> Panic"
      using drain_eventfd_total [of w1 "tx_command_eventfd self"] by (auto elim!: call_totalE)
    have w2: "fits w2" "queued w2 \<le> queued w1" using drain_keeps [OF _ order_refl 2(1)] w1 by auto
    obtain self3 w3 where 3: "tx_handle_command env command (self, w2) = Some (Ok (), self3, w3)"
      "fits w3" "queued w3 \<le> queued w1" "0 < submit_chunk_size self3" "tx_command_eventfd self3 = cmd_fd"
      using handle_command_total [OF w2 less.prems(2,3), of command] w1 command by (auto elim!: call_totalE)
    have "queued w3 < queued w" using 3(3) w1 command by auto
    then obtain s' where "tx_run env (self3, w3) = Some (Ok (), s')" using less.hyps 3(2,4,5) by blast
    moreover have "tx_run env (self, w) = tx_run env (self3, w3)"
      using False c command 2 3(1) by (subst tx_run.simps) (cases r2; simp add: ignoring_def)
    ultimately show ?thesis by simp
  qed
qed

end
section \<open>The concrete host\<close>

definition ts_fits :: "tsim \<Rightarrow> bool" where
  "ts_fits w \<longleftrightarrow> (\<forall>c \<in> set (ts_cmds w). \<forall>request. c = RunBatch request \<longrightarrow> length (req_bufs request) \<le> 2 ^ 40)"

lemma ts_accept_cmds: "ts_cmds (fold ts_accept es w) = ts_cmds w"
proof (induction es arbitrary: w)
  case (Cons e es)
  have "ts_cmds (ts_accept e w) = ts_cmds w" by (cases e) simp_all
  with Cons show ?case by simp
qed simp

lemma ts_quiet: "tx_quiet tc_env (\<lambda>v. ts_fits v \<and> length (ts_cmds v) \<le> n)"
  by unfold_locales
     (auto simp: ts_push_def ts_submit_def ts_accept_cmds ts_poll_def ts_read_def ts_fits_def split: if_splits list.splits)

interpretation tc_thread: tx_joinable tc_env 3 ts_owes "\<lambda>w. ts_sq w = []" "\<lambda>w. ts_cq w \<noteq> []" ts_signal ts_events
  "\<lambda>w. length (ts_cmds w)" "\<lambda>w. if ts_signal w then 1 else 0" ts_fits
proof (intro tx_joinable.intro tx_joinable_axioms.intro)
  show "tx_quiet tc_env (\<lambda>v. ts_fits v \<and> length (ts_cmds v) \<le> n)" for n by (rule ts_quiet)
qed (fact tc_service.tx_kernel_axioms, auto simp: ts_fits_def tc_env_def ts_env_def split: list.splits)

section \<open>The thread ends\<close>



end
