(* ===== verification/Device_Clone.thy ===== *)
theory Device_Clone
  imports Uring_Env
begin

text \<open>
  Cloning a device by attaching another queue (\<^verbatim>\<open>try_clone_device\<close> and the functions after it in
  \<^verbatim>\<open>src/src/core/mod.rs\<close>).  When \<^verbatim>\<open>tun-rs\<close> cannot clone the device, a new descriptor of \<^verbatim>\<open>/dev/net/tun\<close> is
  attached to the interface of that name; the identity of the interface is read before and
  after, because between the calls the name may come to mean another interface.

  The system calls and \<^verbatim>\<open>tun-rs\<close> are the fields of \<open>dev_env\<close>; dropping an \<^verbatim>\<open>OwnedFd\<close> or \<^verbatim>\<open>File\<close> closes it.
\<close>

section \<open>Identities\<close>

definition IFF_TUN :: u16 where "IFF_TUN = 0x0001"
definition IFF_NO_PI :: u16 where "IFF_NO_PI = 0x1000"
definition IFF_MULTI_QUEUE :: u16 where "IFF_MULTI_QUEUE = 0x0100"
definition IFF_PERSIST :: u16 where "IFF_PERSIST = 0x0800"

definition FALLBACK_TUN_FLAGS :: u16 where
  "FALLBACK_TUN_FLAGS = (IFF_TUN OR IFF_NO_PI OR IFF_MULTI_QUEUE)"

definition FALLBACK_PERSISTENT_TUN_FLAGS :: u16 where
  "FALLBACK_PERSISTENT_TUN_FLAGS = (FALLBACK_TUN_FLAGS OR IFF_PERSIST)"

lemmas tun_flag_defs = FALLBACK_TUN_FLAGS_def FALLBACK_PERSISTENT_TUN_FLAGS_def IFF_TUN_def IFF_NO_PI_def
  IFF_MULTI_QUEUE_def IFF_PERSIST_def

record NamespaceIdentity =
  ns_device :: nat
  ns_inode :: nat

record TunIdentity =
  raw_name :: "u8 list"
  effective_flags :: u16
  if_index :: u32
  device_netns :: NamespaceIdentity
  thread_netns :: NamespaceIdentity

text \<open>What the crate reads of and writes to an \<^verbatim>\<open>ifreq\<close>.\<close>

record ifreq =
  ifr_name :: "u8 list"
  ifr_flags :: u16

record 'w dev_env =
  ioctl_tungetiff :: "i32 \<Rightarrow> 'w \<Rightarrow> ifreq res \<times> 'w"
  ioctl_tunsetiff :: "i32 \<Rightarrow> ifreq \<Rightarrow> 'w \<Rightarrow> unit res \<times> 'w"
  ioctl_tungetdevnetns :: "i32 \<Rightarrow> 'w \<Rightarrow> i32 res \<times> 'w"
  sys_fstat :: "i32 \<Rightarrow> 'w \<Rightarrow> (nat \<times> nat) res \<times> 'w"
  open_thread_netns :: "'w \<Rightarrow> i32 res \<times> 'w"
  open_net_tun :: "'w \<Rightarrow> i32 res \<times> 'w"
  sys_close :: "i32 \<Rightarrow> 'w \<Rightarrow> 'w"
  sys_dupfd_cloexec :: "i32 \<Rightarrow> 'w \<Rightarrow> i32 res \<times> 'w"
  if_nametoindex :: "u8 list \<Rightarrow> 'w \<Rightarrow> u32 \<times> 'w"
  device_from_fd :: "i32 \<Rightarrow> 'w \<Rightarrow> i32 res \<times> 'w"
  device_try_clone :: "i32 \<Rightarrow> 'w \<Rightarrow> i32 res \<times> 'w"
  device_tcp_gso :: "i32 \<Rightarrow> 'w \<Rightarrow> bool \<times> 'w"
  device_set_nonblocking :: "i32 \<Rightarrow> 'w \<Rightarrow> unit res \<times> 'w"

text \<open>A block that owns a descriptor.\<close>

definition closing :: "('w, 'm) dev_env_scheme \<Rightarrow> i32 \<Rightarrow> 'x res \<times> 'w \<Rightarrow> 'x res \<times> 'w" where
  "closing env fd m = (fst m, sys_close env fd (snd m))"

definition namespace_identity :: "('w, 'm) dev_env_scheme \<Rightarrow> i32 \<Rightarrow> 'w \<Rightarrow> NamespaceIdentity res \<times> 'w" where
  "namespace_identity env fd w =
     then_try (sys_fstat env fd w) (\<lambda>(st_dev, st_ino) w. (Ok \<lparr> ns_device = st_dev, ns_inode = st_ino \<rparr>, w))"

definition device_netns_identity :: "('w, 'm) dev_env_scheme \<Rightarrow> i32 \<Rightarrow> 'w \<Rightarrow> NamespaceIdentity res \<times> 'w" where
  "device_netns_identity env fd w =
     then_try (ioctl_tungetdevnetns env fd w) (\<lambda>namespace_fd w.
       closing env namespace_fd (namespace_identity env namespace_fd w))"

definition tun_identity :: "('w, 'm) dev_env_scheme \<Rightarrow> i32 \<Rightarrow> 'w \<Rightarrow> TunIdentity res \<times> 'w" where
  "tun_identity env fd w =
     then_try (ioctl_tungetiff env fd w) (\<lambda>request w.
     let name = ifr_name request in
     if name \<noteq> [] \<and> hd name = 0 \<or> 0 \<notin> set name
     then (Err (Custom InvalidData ''TUNGETIFF returned an invalid interface name''), w)
     else
       then_try (device_netns_identity env fd w) (\<lambda>dev_ns w.
       then_try (open_thread_netns env w) (\<lambda>file w.
         closing env file (then_try (namespace_identity env file w) (\<lambda>thread_ns w.
         if dev_ns \<noteq> thread_ns
         then (Err (Custom Unsupported ''TUN device and caller are in different network namespaces''), w)
         else
           (let (index, w) = if_nametoindex env name w in
            if index = 0 then (Err (Custom NotFound ''TUN interface index is unavailable''), w)
            else (Ok \<lparr> raw_name = name, effective_flags = ifr_flags request, if_index = index,
                       device_netns = dev_ns, thread_netns = thread_ns \<rparr>, w)))))))"

section \<open>The fallback\<close>

definition validate_fallback_source :: "TunIdentity \<Rightarrow> unit res" where
  "validate_fallback_source identity =
     (if \<not> (effective_flags identity = FALLBACK_TUN_FLAGS \<or> effective_flags identity = FALLBACK_PERSISTENT_TUN_FLAGS) \<or>
         if_index identity = 0 \<or> device_netns identity \<noteq> thread_netns identity
      then Err (Custom Unsupported ''device is not eligible for the multi-queue compatibility path'')
      else Ok ())"

definition validate_attached_queue :: "TunIdentity \<Rightarrow> TunIdentity \<Rightarrow> TunIdentity \<Rightarrow> unit res" where
  "validate_attached_queue source_before source_after attached =
     bind_res (validate_fallback_source source_after) (\<lambda>_.
     bind_res (validate_fallback_source attached) (\<lambda>_.
     if source_before \<noteq> source_after \<or> source_before \<noteq> attached
     then Err (Custom OtherKind ''TUN identity changed while attaching a queue'')
     else Ok ()))"

text \<open>The new descriptor, closed again unless the queue it is attached to is the right one.\<close>

definition attach_queue :: "('w, 'm) dev_env_scheme \<Rightarrow> i32 \<Rightarrow> 'w \<Rightarrow> i32 res \<times> 'w" where
  "attach_queue env fd w =
     then_try (tun_identity env fd w) (\<lambda>source_before w.
     then_try (validate_fallback_source source_before, w) (\<lambda>_ w.
     then_try (open_net_tun env w) (\<lambda>new_fd w.
     case then_try (ioctl_tunsetiff env new_fd \<lparr> ifr_name = raw_name source_before, ifr_flags = FALLBACK_TUN_FLAGS \<rparr> w)
            (\<lambda>_ w. then_try (tun_identity env fd w) (\<lambda>source_after w.
                   then_try (tun_identity env new_fd w) (\<lambda>attached w.
                     (validate_attached_queue source_before source_after attached, w)))) of
       (Ok _, w) \<Rightarrow> (Ok new_fd, w)
     | (Err e, w) \<Rightarrow> (Err e, sys_close env new_fd w)
     | (Panic, w) \<Rightarrow> (Panic, sys_close env new_fd w))))"

definition clone_plain_multiqueue_from_fd :: "('w, 'm) dev_env_scheme \<Rightarrow> i32 \<Rightarrow> 'w \<Rightarrow> i32 res \<times> 'w" where
  "clone_plain_multiqueue_from_fd env fd w =
     then_try (attach_queue env fd w) (\<lambda>new_fd w. device_from_fd env new_fd w)"

definition try_clone_device :: "('w, 'm) dev_env_scheme \<Rightarrow> i32 \<Rightarrow> 'w \<Rightarrow> i32 res \<times> 'w" where
  "try_clone_device env fd w =
     (case device_try_clone env fd w of
        (Ok dev, w) \<Rightarrow> (Ok dev, w)
      | (Err e, w) \<Rightarrow> if kind e = Unsupported then clone_plain_multiqueue_from_fd env fd w else (Err e, w)
      | (Panic, w) \<Rightarrow> (Panic, w))"

definition duplicate_device_fd :: "('w, 'm) dev_env_scheme \<Rightarrow> i32 \<Rightarrow> 'w \<Rightarrow> i32 res \<times> 'w" where
  "duplicate_device_fd env fd w = sys_dupfd_cloexec env fd w"

section \<open>Which devices are eligible\<close>

lemma fallback_flags_iff:
  "effective_flags i = FALLBACK_TUN_FLAGS \<or> effective_flags i = FALLBACK_PERSISTENT_TUN_FLAGS \<longleftrightarrow>
   effective_flags i AND NOT IFF_PERSIST = FALLBACK_TUN_FLAGS"
proof
  assume "effective_flags i AND NOT IFF_PERSIST = FALLBACK_TUN_FLAGS"
  then have "effective_flags i = FALLBACK_TUN_FLAGS OR (effective_flags i AND IFF_PERSIST)"
    by (metis (no_types) bit.conj_disj_distrib bit.conj_one_right bit.disj_cancel_right or.commute)
  moreover have "effective_flags i AND IFF_PERSIST = 0 \<or> effective_flags i AND IFF_PERSIST = IFF_PERSIST"
  proof -
    have "w AND push_bit n 1 = (if bit w n then push_bit n 1 else 0)" for w :: u16 and n
      by (rule bit_eqI) (auto simp: bit_simps)
    moreover have "IFF_PERSIST = push_bit 11 1" by (simp add: IFF_PERSIST_def)
    ultimately show ?thesis by metis
  qed
  ultimately show "effective_flags i = FALLBACK_TUN_FLAGS \<or> effective_flags i = FALLBACK_PERSISTENT_TUN_FLAGS"
    by (auto simp: FALLBACK_PERSISTENT_TUN_FLAGS_def)
qed (auto simp: tun_flag_defs)

definition eligible :: "TunIdentity \<Rightarrow> bool" where
  "eligible i \<longleftrightarrow> effective_flags i AND NOT IFF_PERSIST = FALLBACK_TUN_FLAGS \<and> if_index i \<noteq> 0 \<and> device_netns i = thread_netns i"

lemma validate_fallback_iff: "validate_fallback_source i = Ok () \<longleftrightarrow> eligible i"
  using fallback_flags_iff [of i] by (auto simp: validate_fallback_source_def eligible_def)

lemma validate_attached_iff:
  "validate_attached_queue before after attached = Ok () \<longleftrightarrow> eligible before \<and> after = before \<and> attached = before"
  using validate_fallback_iff [of after] validate_fallback_iff [of attached]
  by (cases "validate_fallback_source after"; cases "validate_fallback_source attached")
     (auto simp: validate_attached_queue_def)

section \<open>Descriptors\<close>

text \<open>A step that leaves the same descriptors open.\<close>

definition fd_balanced :: "('w \<Rightarrow> i32 set) \<Rightarrow> 'w \<Rightarrow> 'x res \<times> 'w \<Rightarrow> bool" where
  "fd_balanced opened w m \<longleftrightarrow> opened (snd m) = opened w"

text \<open>A call that opens the descriptor it returns, a new one.\<close>

definition opens_fd :: "('w \<Rightarrow> i32 set) \<Rightarrow> 'w \<Rightarrow> i32 res \<times> 'w \<Rightarrow> bool" where
  "opens_fd opened w m \<longleftrightarrow>
     (case fst m of Ok fd \<Rightarrow> fd \<notin> opened w \<and> opened (snd m) = insert fd (opened w) | _ \<Rightarrow> opened (snd m) = opened w)"

lemma then_try_balanced:
  assumes "fd_balanced opened w m" "\<And>x w1. m = (Ok x, w1) \<Longrightarrow> fd_balanced opened w1 (f x w1)"
  shows "fd_balanced opened w (then_try m f)"
  using assms by (auto simp: fd_balanced_def then_try_def split: prod.split res.split)

locale fd_table =
  fixes env :: "('w, 'm) dev_env_scheme" and opened :: "'w \<Rightarrow> i32 set"
  assumes getiff: "fd_balanced opened w (ioctl_tungetiff env fd w)"
    and setiff: "fd_balanced opened w (ioctl_tunsetiff env fd request w)"
    and fstat: "fd_balanced opened w (sys_fstat env fd w)"
    and nametoindex: "opened (snd (if_nametoindex env name w)) = opened w"
    and netns: "opens_fd opened w (ioctl_tungetdevnetns env fd w)"
    and thread_ns: "opens_fd opened w (open_thread_netns env w)"
    and net_tun: "opens_fd opened w (open_net_tun env w)"
    and close: "opened (sys_close env fd w) = opened w - {fd}"
begin

lemma closing_balanced:
  assumes "opens_fd opened w m" "\<And>fd w1. m = (Ok fd, w1) \<Longrightarrow> fd_balanced opened w1 (body fd w1)"
  shows "fd_balanced opened w (then_try m (\<lambda>fd w. closing env fd (body fd w)))"
  using assms
  by (auto simp: opens_fd_def fd_balanced_def then_try_def closing_def close split: prod.split res.splits)

lemma namespace_balanced: "fd_balanced opened w (namespace_identity env fd w)"
  unfolding namespace_identity_def by (rule then_try_balanced [OF fstat]) (auto simp: fd_balanced_def)

lemma tun_identity_balanced: "fd_balanced opened w (tun_identity env fd w)"
proof -
  have dev: "fd_balanced opened v (device_netns_identity env fd v)" for v
    unfolding device_netns_identity_def by (rule closing_balanced [OF netns namespace_balanced])
  have last: "fd_balanced opened v (let (index, w) = if_nametoindex env name v in
      if index = 0 then (Err e, w) else (Ok (g index), w))" for v name e and g :: "u32 \<Rightarrow> TunIdentity"
    using nametoindex [of name v] by (cases "if_nametoindex env name v") (simp add: fd_balanced_def)
  have err: "fd_balanced opened v (Err e, v)" for v e by (simp add: fd_balanced_def)
  show ?thesis
    unfolding tun_identity_def Let_def [of "ifr_name _"]
  proof (rule then_try_balanced [OF getiff], split if_split, intro conjI impI err)
    fix request and v
    show "fd_balanced opened v (then_try (device_netns_identity env fd v) (\<lambda>dev_ns w.
       then_try (open_thread_netns env w) (\<lambda>file w.
         closing env file (then_try (namespace_identity env file w) (\<lambda>thread_ns w.
         if dev_ns \<noteq> thread_ns
         then (Err (Custom Unsupported ''TUN device and caller are in different network namespaces''), w)
         else
           (let (index, w) = if_nametoindex env (ifr_name request) w in
            if index = 0 then (Err (Custom NotFound ''TUN interface index is unavailable''), w)
            else (Ok \<lparr> raw_name = ifr_name request, effective_flags = ifr_flags request, if_index = index,
                       device_netns = dev_ns, thread_netns = thread_ns \<rparr>, w)))))))"
      by (rule then_try_balanced [OF dev], rule closing_balanced [OF thread_ns],
          rule then_try_balanced [OF namespace_balanced], split if_split, intro conjI impI) (rule err last)+
  qed
qed

lemma attach_queue_opens: "opens_fd opened w (attach_queue env fd w)"
proof -
  have pure: "fd_balanced opened v (r, v)" for v and r :: "'x res" by (simp add: fd_balanced_def)
  have late: "opens_fd opened v (then_try (open_net_tun env v) (\<lambda>new_fd v.
      case body new_fd v of (Ok _, v) \<Rightarrow> (Ok new_fd, v) | (Err e, v) \<Rightarrow> (Err e, sys_close env new_fd v)
        | (Panic, v) \<Rightarrow> (Panic, sys_close env new_fd v)))"
    if body: "\<And>new_fd v. fd_balanced opened v (body new_fd v)" for v and body :: "i32 \<Rightarrow> 'w \<Rightarrow> unit res \<times> 'w"
  proof -
    obtain r v1 where o: "open_net_tun env v = (r, v1)" by (cases "open_net_tun env v")
    show ?thesis
    proof (cases r)
      case (Ok new_fd)
      obtain q v2 where q: "body new_fd v1 = (q, v2)" by (cases "body new_fd v1")
      have "opened v2 = insert new_fd (opened v)" "new_fd \<notin> opened v"
        using net_tun [of v] body [of v1 new_fd] o q Ok by (auto simp: opens_fd_def fd_balanced_def)
      then show ?thesis using o q Ok by (cases q) (auto simp: then_try_def opens_fd_def close)
    qed (use net_tun [of v] o in \<open>auto simp: then_try_def opens_fd_def\<close>)
  qed
  have go: "opens_fd opened w (then_try m f)"
    if "fd_balanced opened w m" "\<And>x v. m = (Ok x, v) \<Longrightarrow> opens_fd opened v (f x v)" for w and m :: "'x res \<times> 'w" and f
    using that by (auto simp: fd_balanced_def opens_fd_def then_try_def split: prod.split res.split)
  show ?thesis
    unfolding attach_queue_def
    by (rule go [OF tun_identity_balanced], rule go [OF pure], rule late)
       (intro then_try_balanced [OF setiff] then_try_balanced [OF tun_identity_balanced] pure)
qed

end

section \<open>A concrete system\<close>

text \<open>One interface, \<^verbatim>\<open>linq0\<close> with index 7, whose flags are \<open>ds_flags\<close>, in a single namespace.\<close>

record dsim =
  ds_open :: "i32 list"
  ds_flags :: u16

definition ds_fresh :: "i32 list \<Rightarrow> i32" where
  "ds_fresh fds = foldr max fds 2 + 1"

definition ds_opening :: "dsim \<Rightarrow> i32 res \<times> dsim" where
  "ds_opening w = (let fd = ds_fresh (ds_open w) in (Ok fd, w\<lparr>ds_open := fd # ds_open w\<rparr>))"

definition ds_env :: "dsim dev_env" where
  "ds_env =
     \<lparr> ioctl_tungetiff = (\<lambda>fd w. (Ok \<lparr> ifr_name = [108, 105, 110, 113, 48] @ replicate 11 0, ifr_flags = ds_flags w \<rparr>, w)),
       ioctl_tunsetiff = (\<lambda>fd request w. (Ok (), w)), ioctl_tungetdevnetns = (\<lambda>fd. ds_opening),
       sys_fstat = (\<lambda>fd w. (Ok (3, 11), w)), open_thread_netns = ds_opening, open_net_tun = ds_opening,
       sys_close = (\<lambda>fd w. w\<lparr>ds_open := removeAll fd (ds_open w)\<rparr>), sys_dupfd_cloexec = (\<lambda>fd. ds_opening),
       if_nametoindex = (\<lambda>name w. (7, w)), device_from_fd = (\<lambda>fd w. (Ok fd, w)),
       device_try_clone = (\<lambda>fd w. (Err (Simple Unsupported), w)), device_tcp_gso = (\<lambda>fd w. (False, w)),
       device_set_nonblocking = (\<lambda>fd w. (Ok (), w)) \<rparr>"

definition example_system :: "u16 \<Rightarrow> dsim" where
  "example_system flags = \<lparr> ds_open = [3], ds_flags = flags \<rparr>"

lemma ds_fresh_new: "ds_fresh fds \<notin> set fds"
proof -
  have "fd \<in> set fds \<Longrightarrow> fd < ds_fresh fds" for fd
    by (induction fds) (auto simp: ds_fresh_def)
  then show ?thesis by blast
qed

interpretation ds_table: fd_table ds_env "\<lambda>w. set (ds_open w)"
  by unfold_locales
     (auto simp: ds_env_def fd_balanced_def opens_fd_def ds_opening_def Let_def ds_fresh_new)

section \<open>What a clone is\<close>

lemma closing_Ok_iff: "closing env fd m = (Ok x, w') \<longleftrightarrow> (\<exists>w. m = (Ok x, w) \<and> w' = sys_close env fd w)"
  by (cases m) (auto simp: closing_def)

lemma tun_identity_name:
  assumes "tun_identity env fd w = (Ok i, w1)"
  shows "raw_name i \<noteq> [] \<and> hd (raw_name i) \<noteq> 0 \<and> 0 \<in> set (raw_name i)"
  using assms by (auto simp: tun_identity_def then_try_Ok_iff Let_def split_beta closing_Ok_iff split: if_splits)





end
