(* ===== verification/Core_Device.thy ===== *)
theory Core_Device
  imports Rx_Controller Tx_Service Device_Clone
begin

text \<open>
  The device shell (\<^verbatim>\<open>CoreDevice\<close> of \<^verbatim>\<open>src/src/core/mod.rs\<close>): it validates the configuration, computes the
  effective receive buffer length, and sets up the RX and the TX side.

  The RX ring, the TX ring and the system calls on the device are different objects of the
  outside world; the world of the shell is the triple of theirs.  \<^verbatim>\<open>VIRTIO_NET_HDR_LEN\<close>, a constant of
  \<^verbatim>\<open>tun-rs\<close>, is the field \<open>virtio_hdr_len\<close> of the RX environment.
\<close>

section \<open>Three worlds\<close>

definition on_rx :: "('x, 'r) call \<Rightarrow> 't \<Rightarrow> 'd \<Rightarrow> ('x, 'r \<times> 't \<times> 'd) call" where
  "on_rx m wt wd = map_option (\<lambda>(r, wr). (r, wr, wt, wd)) m"

definition on_dev :: "'r \<Rightarrow> 't \<Rightarrow> 'x res \<times> 'd \<Rightarrow> ('x, 'r \<times> 't \<times> 'd) call" where
  "on_dev wr wt m = Some (fst m, wr, wt, snd m)"

lemma on_worlds_Some_iff:
  "on_rx m wt wd = Some (r, s) \<longleftrightarrow> (\<exists>wr. m = Some (r, wr) \<and> s = (wr, wt, wd))"
  "on_dev wr wt k = Some (p, s) \<longleftrightarrow> (\<exists>wd. k = (p, wd) \<and> s = (wr, wt, wd))"
  by (cases k; auto simp: on_rx_def on_dev_def)+

text \<open>Owned descriptors are closed when the function that holds them fails.\<close>

definition close_on_err :: "('d, 'm) dev_env_scheme \<Rightarrow> i32 \<Rightarrow> ('x, 'r \<times> 't \<times> 'd) call \<Rightarrow> ('x, 'r \<times> 't \<times> 'd) call" where
  "close_on_err denv fd m =
     map_option (\<lambda>(r, wr, wt, wd). case r of Ok x \<Rightarrow> (Ok x, wr, wt, wd) | _ \<Rightarrow> (r, wr, wt, sys_close denv fd wd)) m"

lemma close_on_err_Ok_iff: "close_on_err denv fd m = Some (Ok x, s) \<longleftrightarrow> m = Some (Ok x, s)"
  by (cases m) (auto simp: close_on_err_def split: res.splits)

section \<open>Creating a device\<close>

record CoreDevice =
  core_device :: i32
  core_config :: ValidatedConfig
  core_include_hdr :: bool
  core_rx :: RxDriverHandle
  core_tx :: TxController

definition effective_rx_buffer_len :: "nat \<Rightarrow> UringDeviceConfig \<Rightarrow> bool \<Rightarrow> usize res" where
  "effective_rx_buffer_len hl config include_hdr =
     (case checked_add (rx_buffer_len config) (if include_hdr then hl else 0) of
        Some n \<Rightarrow> Ok n
      | None \<Rightarrow> Err (invalid_input ''effective rx buffer len overflows usize''))"

text \<open>The TX side, and the device; if it fails the RX handle is dropped.\<close>

definition core_add_tx :: "('r, 'a, 'k) rx_setup_env_scheme \<Rightarrow> ('t, 'b, 'l) tx_call_env_scheme \<Rightarrow> i32 \<Rightarrow>
    ValidatedConfig \<Rightarrow> bool \<Rightarrow> RxDriverHandle \<times> 'a RxDriverThread \<Rightarrow> 'r \<times> 't \<times> 'd \<Rightarrow>
    (CoreDevice \<times> 'a RxDriverThread \<times> TxDriverThread, 'r \<times> 't \<times> 'd) call" where
  "core_add_tx renv tenv fd v include_hdr rx s =
     (let (wr, wt, wd) = s in
      case tx_controller_new tenv fd (tx_ring_entries (validated v)) (tx_submit_chunk_size (validated v)) ''uring-tx'' wt of
        (Ok (tx, tx_thread), wt) \<Rightarrow>
          Some (Ok (\<lparr> core_device = fd, core_config = v, core_include_hdr = include_hdr,
                      core_rx = fst rx, core_tx = tx \<rparr>, snd rx, tx_thread), wr, wt, wd)
      | (Err e, wt) \<Rightarrow> andthen (on_rx (handle_drop renv (fst rx) wr) wt wd) (\<lambda>_ s. Some (Err e, s))
      | (Panic, wt) \<Rightarrow> Some (Panic, wr, wt, wd))"

text \<open>\<^verbatim>\<open>CoreDevice::new\<close>: the device, and the states its two threads start from.\<close>

definition core_new :: "('d, 'm) dev_env_scheme \<Rightarrow> ('r, 'a, 'k) rx_setup_env_scheme \<Rightarrow>
    ('t, 'b, 'l) tx_call_env_scheme \<Rightarrow> i32 \<Rightarrow> UringDeviceConfig \<Rightarrow> string \<Rightarrow> 'r \<times> 't \<times> 'd \<Rightarrow>
    (CoreDevice \<times> 'a RxDriverThread \<times> TxDriverThread, 'r \<times> 't \<times> 'd) call" where
  "core_new denv renv tenv fd conf rx_driver_name s =
     close_on_err denv fd
       (andthen (Some (try_from conf, s)) (\<lambda>v (wr, wt, wd).
        let config = validated v; (include_hdr, wd) = device_tcp_gso denv fd wd in
        andthen (Some (effective_rx_buffer_len (virtio_hdr_len renv) config include_hdr, wr, wt, wd)) (\<lambda>buffer_len (wr, wt, wd).
        andthen (on_dev wr wt (device_set_nonblocking denv fd wd)) (\<lambda>_ (wr, wt, wd).
        andthen (on_dev wr wt (duplicate_device_fd denv fd wd)) (\<lambda>rx_fd (wr, wt, wd).
        close_on_err denv rx_fd
          (andthen
             (on_rx (rx_controller_new renv
                \<lparr> cfg_device = rx_fd, cfg_ring_entries = rx_ring_entries config, cfg_buffer_len = buffer_len,
                  cfg_buffer_count = rx_buffer_count config, cfg_include_hdr = include_hdr,
                  cfg_auto_resume = rx_auto_resume_after_recycled_slots config,
                  cfg_thread_name = rx_driver_name \<rparr>
                (rx_start_mode config) wr) wt wd)
             (core_add_tx renv tenv fd v include_hdr)))))))"

definition core_config_of :: "CoreDevice \<Rightarrow> UringDeviceConfig" where
  "core_config_of self = to_config (core_config self)"

definition core_duplicate_fd :: "('d, 'm) dev_env_scheme \<Rightarrow> CoreDevice \<Rightarrow> 'd \<Rightarrow> i32 res \<times> 'd" where
  "core_duplicate_fd denv self wd = duplicate_device_fd denv (core_device self) wd"

section \<open>What a new device is\<close>

lemma start_rx_keeps:
  assumes "start_rx env (self, w) = Some (r, self', w')"
  shows "rx_buffers self' = rx_buffers self" "device self' = device self"
    "packets_include_virtio_net_hdr self' = packets_include_virtio_net_hdr self"
  using assms
  by (auto simp: start_rx_def Let_def submit_multishot_read_def update_shared_def andthen_Some_iff on_world_Some_iff
      split: if_splits Option.bind_splits res.splits)

text \<open>The state a driver starts from, for a configuration.\<close>

definition rx_ready :: "UringDeviceConfig \<Rightarrow> RxDriverConfig \<Rightarrow> 'a RxDriverThread \<Rightarrow> bool" where
  "rx_ready conf config self \<longleftrightarrow>
     rx_inv self \<and> ring_inv (rx_buffers self, 0) \<and>
     available (rx_buffers self, 0) = map of_nat [0 ..< rx_buffer_count conf] \<and>
     pb_buffer_len (rx_buffers self) = cfg_buffer_len config \<and> device self = cfg_device config \<and>
     packets_include_virtio_net_hdr self = cfg_include_hdr config \<and>
     rx_state (rx_shared self) = (if rx_start_mode conf = AutoStart then Running else Stopped) \<and>
     packets (rx_shared self) = []"

lemma rx_controller_new_ready:
  assumes "config_ok conf" "cfg_buffer_count config = rx_buffer_count conf"
    and "rx_controller_new env config (rx_start_mode conf) w = Some (Ok (handle, self), w')"
  shows "rx_ready conf config self"
proof -
  obtain self1 w1 where sp: "spawn env config shared_default w = (Ok (handle, self1), w1)"
    and new: "controller_new (rx_start_mode conf) rx_sys_shared rx_sys_set_shared
        (\<lambda>(self, w). let (ack, w) = channel_new env w in served_start env ack (self, w)) (self1, w1) = Some (Ok (), self, w')"
    using assms(3)
    by (auto simp: rx_controller_new_def andthen_Ok_iff Option.bind_eq_Some_conv split_beta split: res.splits)
       (metis res.exhaust old.unit.exhaust)
  have stopped: "rx_state (shared_default :: u16 RxSharedState) = Stopped" "packets (shared_default :: u16 RxSharedState) = []"
    by (simp_all add: shared_default_def)
  note ready = spawn_ready [OF assms(1,2) sp stopped(1)]
  show ?thesis
  proof (cases "rx_start_mode conf = AutoStart")
    case False
    then show ?thesis using new ready stopped by (auto simp: controller_new_def rx_ready_def)
  next
    case True
    obtain ack w2 where ack: "channel_new env w1 = (ack, w2)" by (cases "channel_new env w1")
    have "controller_start rx_sys_shared rx_sys_set_shared
        (\<lambda>(self, w). let (ack, w) = channel_new env w in served_start env ack (self, w)) (self1, w1) = Some (Ok (), self, w')"
      using new True by (simp add: controller_new_def)
    then have "served_start env ack (self1, w2) = Some (Ok (), self, w')"
      using ready stopped ack
      by (auto simp: controller_start_def rx_sys_shared_def split: Option.bind_splits res.splits)
    then obtain w3 where st: "start_rx env (self1, w2) = Some (Ok (), self, w3)"
      by (auto simp: served_start_def split: Option.bind_splits res.splits)
    show ?thesis
      using start_rx_inv [OF ready(1) st] start_rx_keeps [OF st] start_rx_shared [OF st] ready stopped True
      by (simp add: rx_ready_def)
  qed
qed

lemma tx_controller_new_thread:
  assumes "tx_controller_new env fd entries chunk name w = (Ok (tx, thread), w')"
  shows "tx_shared thread = slot_default \<and> submit_chunk_size thread = chunk \<and> tx_device thread = fd \<and> \<not> tx_shutdown_requested thread"
  using assms by (auto simp: tx_controller_new_def then_try_Ok_iff)

lemma core_add_tx_Ok:
  assumes "core_add_tx renv tenv fd v include_hdr rx (wr, wt, wd) = Some (Ok (dev, rx_thread, tx_thread), s')"
  shows "core_config dev = v \<and> core_include_hdr dev = include_hdr \<and> (core_rx dev, rx_thread) = rx \<and>
    (\<exists>wt'. tx_controller_new tenv fd (tx_ring_entries (validated v)) (tx_submit_chunk_size (validated v)) ''uring-tx'' wt =
       (Ok (core_tx dev, tx_thread), wt'))"
  using assms
  by (cases "tx_controller_new tenv fd (tx_ring_entries (validated v)) (tx_submit_chunk_size (validated v)) ''uring-tx'' wt";
      cases "fst (tx_controller_new tenv fd (tx_ring_entries (validated v)) (tx_submit_chunk_size (validated v)) ''uring-tx'' wt)")
     (auto simp: core_add_tx_def andthen_Ok_iff)

lemma core_new_cases:
  assumes "core_new denv renv tenv fd conf name s = Some (Ok (dev, rx_thread, tx_thread), s')"
  obtains include_hdr buffer_len rx_fd wr1 wr2 wt1 wt2 config where
    "config_ok conf" "core_config dev = ValidatedConfig conf" "core_include_hdr dev = include_hdr"
    "effective_rx_buffer_len (virtio_hdr_len renv) conf include_hdr = Ok buffer_len"
    "config = \<lparr> cfg_device = rx_fd, cfg_ring_entries = rx_ring_entries conf, cfg_buffer_len = buffer_len,
       cfg_buffer_count = rx_buffer_count conf, cfg_include_hdr = include_hdr,
       cfg_auto_resume = rx_auto_resume_after_recycled_slots conf, cfg_thread_name = name \<rparr>"
    "rx_controller_new renv config (rx_start_mode conf) wr1 = Some (Ok (core_rx dev, rx_thread), wr2)"
    "tx_controller_new tenv fd (tx_ring_entries conf) (tx_submit_chunk_size conf) ''uring-tx'' wt1 = (Ok (core_tx dev, tx_thread), wt2)"
proof -
  obtain wr wt wd where s: "s = (wr, wt, wd)" by (cases s)
  obtain v where v: "try_from conf = Ok v" using assms by (auto simp: core_new_def close_on_err_Ok_iff andthen_Ok_iff)
  have conf: "config_ok conf" "v = ValidatedConfig conf" using v by (auto simp: try_from_def validate_Ok_iff)
  show ?thesis
    using assms that conf
    by (auto simp: s v core_new_def close_on_err_Ok_iff andthen_Ok_iff on_worlds_Some_iff Let_def split_beta
        dest!: core_add_tx_Ok)
qed

text \<open>A device made on the concrete hosts.\<close>

definition manual_config :: UringDeviceConfig where
  "manual_config = with_rx_start_mode ManualStart example_config"

lemma manual_config_ok: "config_ok manual_config"
  using example_config_ok by (simp add: manual_config_def config_ok_def with_defs)

lemma example_core_new:
  "\<exists>dev rx_thread tx_thread s'. core_new ds_env setup_env tc_env 3 manual_config ''rx'' (sim_empty, ts_empty, example_system 0x1101) =
     Some (Ok (dev, rx_thread, tx_thread), s')"
proof -
  have v: "try_from manual_config = Ok (ValidatedConfig manual_config)"
    using manual_config_ok by (simp add: try_from_def validate_Ok_iff)
  have conf: "rx_buffer_len manual_config = 50" "rx_buffer_count manual_config = 2" "rx_start_mode manual_config = ManualStart"
    by (simp_all add: manual_config_def example_config_def with_defs)
  have sp: "\<exists>h self w'. spawn setup_env \<lparr> cfg_device = fd, cfg_ring_entries = n, cfg_buffer_len = 50, cfg_buffer_count = 2,
      cfg_include_hdr = b, cfg_auto_resume = k, cfg_thread_name = name \<rparr> (shared_default :: u16 RxSharedState) sim_empty =
      (Ok (h, self), w')" for fd n b k name
    using example_ring_published
    by (simp add: spawn_def rx_ring_new_def then_try_def setup_env_simps RX_BUFFER_GROUP_ID_def Let_def)
  have rx: "\<exists>h self w'. rx_controller_new setup_env \<lparr> cfg_device = fd, cfg_ring_entries = n, cfg_buffer_len = 50,
      cfg_buffer_count = 2, cfg_include_hdr = b, cfg_auto_resume = k, cfg_thread_name = name \<rparr> ManualStart sim_empty =
      Some (Ok (h, self), w')" for fd n b k name
    using sp [of fd n b k name] by (auto simp: rx_controller_new_def controller_new_def)
  have dev: "device_tcp_gso ds_env fd w = (False, w)" "device_set_nonblocking ds_env fd w = (Ok (), w)"
    "duplicate_device_fd ds_env fd w = ds_opening w" for fd w
    by (simp_all add: ds_env_def duplicate_device_fd_def)
  have tx: "\<exists>tx th w'. tx_controller_new tc_env fd n c name ts_empty = (Ok (tx, th), w')" for fd n c name
    by (simp add: tx_controller_new_def tx_ring_new_def then_try_def tc_env_def ts_env_def new_eventfd_def dup_fd_def)
  obtain rx_fd w1 where d: "ds_opening (example_system 0x1101) = (Ok rx_fd, w1)" by (simp add: ds_opening_def Let_def)
  obtain h self w2 where r: "rx_controller_new setup_env \<lparr> cfg_device = rx_fd, cfg_ring_entries = rx_ring_entries manual_config,
      cfg_buffer_len = 50, cfg_buffer_count = 2, cfg_include_hdr = False,
      cfg_auto_resume = rx_auto_resume_after_recycled_slots manual_config, cfg_thread_name = ''rx'' \<rparr> ManualStart sim_empty =
      Some (Ok (h, self), w2)" using rx by blast
  obtain tx' th w3 where t: "tx_controller_new tc_env 3 (tx_ring_entries manual_config) (tx_submit_chunk_size manual_config)
      ''uring-tx'' ts_empty = (Ok (tx', th), w3)" using tx by blast
  show ?thesis
    by (simp add: core_new_def v dev d effective_rx_buffer_len_def checked_add_def conf usize_max_def on_dev_def r t
        on_rx_def core_add_tx_def close_on_err_def)
qed

text \<open>
  The check of \<^verbatim>\<open>rx_buffer_len\<close> against \<^verbatim>\<open>u32\<close> is made before the virtio header is added: the largest
  configured length is accepted, and with the header the length no longer fits the 32 bits of a
  buffer descriptor.
\<close>

theorem effective_len_exceeds_u32:
  "\<exists>conf n. validate conf = Ok (ValidatedConfig conf) \<and> effective_rx_buffer_len 10 conf True = Ok n \<and>
     n = rx_buffer_len conf + 10 \<and> unat (of_nat n :: u32) = 9"
proof -
  let ?conf = "with_rx_buffer_len (2 ^ 32 - 1) default_config"
  have "config_ok ?conf"
    by (auto simp: config_ok_def with_defs default_config_def default_defs intro!: exI [of _ "10::nat"])
  moreover have "effective_rx_buffer_len 10 ?conf True = Ok (2 ^ 32 + 9)"
    by (simp add: effective_rx_buffer_len_def checked_add_def usize_max_def with_defs)
  moreover have "unat (of_nat (2 ^ 32 + 9) :: u32) = 9" by (simp add: unat_of_nat)
  ultimately show ?thesis by (intro exI [of _ ?conf] exI [of _ "2 ^ 32 + 9"]) (simp add: validate_Ok_iff with_defs)
qed

end
