(* ===== verification/Backend.thy ===== *)
theory Backend
  imports Core_Device
begin

text \<open>
  The runtime backends and the public facade (\<^verbatim>\<open>src/src/backend\<close>, \<^verbatim>\<open>src/src/lib.rs\<close>).  A backend adds an
  asynchronous handle on a duplicate of the device descriptor to the core; without a backend every
  operation fails.  The tokio and async-io crates are fields of \<open>io_env\<close>.
\<close>

section \<open>Backends\<close>

datatype backend = AsyncTokio | AsyncIo | NoBackend

text \<open>The features \<^verbatim>\<open>async_tokio\<close> and \<^verbatim>\<open>async_io\<close> exclude each other: \<open>None\<close> does not compile.\<close>

definition select_backend :: "bool \<Rightarrow> bool \<Rightarrow> backend option" where
  "select_backend async_tokio async_io =
     (if async_tokio \<and> async_io then None
      else Some (if async_io then AsyncIo else if async_tokio then AsyncTokio else NoBackend))"

fun backend_name :: "backend \<Rightarrow> string" where
  "backend_name AsyncIo = ''async_io''"
| "backend_name AsyncTokio = ''async_tokio''"
| "backend_name NoBackend = ''none''"

record 'w io_env = "'w dev_env" +
  device_send :: "i32 \<Rightarrow> bytes \<Rightarrow> 'w \<Rightarrow> usize res \<times> 'w"
  sys_write :: "i32 \<Rightarrow> bytes \<Rightarrow> 'w \<Rightarrow> usize res \<times> 'w"
  io_register :: "i32 \<Rightarrow> 'w \<Rightarrow> unit res \<times> 'w"
  io_writable :: "i32 \<Rightarrow> 'w \<Rightarrow> unit res \<times> 'w"
  io_clear_ready :: "i32 \<Rightarrow> 'w \<Rightarrow> 'w"
  io_write_with :: "i32 \<Rightarrow> ('w \<Rightarrow> usize res \<times> 'w) \<Rightarrow> 'w \<Rightarrow> (usize, 'w) call"

record BackendDevice =
  be_core :: CoreDevice
  be_io :: i32

section \<open>Sending one packet\<close>

definition core_try_send :: "('w, 'm) io_env_scheme \<Rightarrow> CoreDevice \<Rightarrow> bytes \<Rightarrow> 'w \<Rightarrow> usize res \<times> 'w" where
  "core_try_send env self buf w = device_send env (core_device self) buf w"

definition write_fd :: "('w, 'm) io_env_scheme \<Rightarrow> i32 \<Rightarrow> bytes \<Rightarrow> 'w \<Rightarrow> usize res \<times> 'w" where
  "write_fd env fd buf w = sys_write env fd buf w"

definition would_block :: "'x res \<Rightarrow> bool" where
  "would_block r \<longleftrightarrow> (\<exists>e. r = Err e \<and> kind e = WouldBlock)"

lemma would_block_simps [simp, code]:
  "would_block (Ok x) = False" "would_block (Err e) = (kind e = WouldBlock)" "would_block Panic = False"
  by (simp_all add: would_block_def)

section \<open>The core's operations\<close>

text \<open>
  The methods of \<^verbatim>\<open>CoreDevice\<close> hand each call to the RX or the TX side.  \<open>sh\<close> is the shared RX state, \<open>s\<close> the state
  the driver's operations work on.  A new receiving future is at \<open>RecvTry\<close>.
\<close>

definition controller_state :: "u16 RxSharedState \<Rightarrow> RxState" where
  "controller_state sh = rx_state sh"

definition controller_ready_len :: "u16 RxSharedState \<Rightarrow> usize" where
  "controller_ready_len sh = ready_len sh"

definition controller_waiter_registered :: "u16 RxSharedState \<Rightarrow> bool" where
  "controller_waiter_registered sh = waiter_registered sh"

definition core_rx_state :: "u16 RxSharedState \<Rightarrow> RxState" where
  "core_rx_state sh = controller_state sh"

definition core_ready_len :: "u16 RxSharedState \<Rightarrow> usize" where
  "core_ready_len sh = controller_ready_len sh"

definition core_start_rx :: "(('a, 'w) rx_sys \<Rightarrow> (unit, ('a, 'w) rx_sys) call) \<Rightarrow> ('a, 'w) rx_sys \<Rightarrow>
    (unit, ('a, 'w) rx_sys) call" where
  "core_start_rx start_sync s = controller_start rx_sys_shared rx_sys_set_shared start_sync s"

definition core_stop_rx :: "(('a, 'w) rx_sys \<Rightarrow> (unit, ('a, 'w) rx_sys) call) \<Rightarrow> ('a, 'w) rx_sys \<Rightarrow>
    (unit, ('a, 'w) rx_sys) call" where
  "core_stop_rx stop_async s = controller_stop rx_sys_shared rx_sys_set_shared stop_async s"

definition core_readable :: "nat \<Rightarrow> u16 RxSharedState \<Rightarrow> unit res Poll \<times> u16 RxSharedState" where
  "core_readable cx sh = poll_readable cx sh"

definition core_try_recv :: "u16 RxSharedState \<Rightarrow> u16 Packet res \<times> u16 RxSharedState" where
  "core_try_recv sh = recv_attempt sh"

definition core_recv :: "nat \<Rightarrow> u16 Packet recv_pc \<Rightarrow> u16 RxSharedState \<Rightarrow> u16 Packet recv_pc \<times> u16 RxSharedState" where
  "core_recv cx point sh = recv_step recv_attempt cx point sh"

definition core_recv_many :: "u16 Packet option list \<Rightarrow> nat \<Rightarrow> (nat \<times> u16 Packet option list) recv_pc \<Rightarrow>
    u16 RxSharedState \<Rightarrow> (nat \<times> u16 Packet option list) recv_pc \<times> u16 RxSharedState" where
  "core_recv_many out cx point sh =
     recv_step (recv_many_attempt out) cx (if point = RecvTry then recv_many_start out else point) sh"

definition core_send_many :: "('w, 'a, 'm) tx_call_env_scheme \<Rightarrow> CoreDevice \<Rightarrow> nat \<Rightarrow> ('a, 'w) send_sys \<Rightarrow>
    (Bytes list Poll, ('a, 'w) send_sys) call" where
  "core_send_many env self cx s = send_many_poll env (core_tx self) cx s"

section \<open>Sending with a runtime\<close>

text \<open>
  \<^verbatim>\<open>send_impl\<close> of the tokio backend.  \<^verbatim>\<open>guard.try_io\<close> runs the write and, when it would block, clears the
  readiness and the loop goes on.
\<close>

partial_function (option) tokio_send :: "('w, 'm) io_env_scheme \<Rightarrow> BackendDevice \<Rightarrow> bytes \<Rightarrow> 'w \<Rightarrow> (usize, 'w) call" where
  "tokio_send env self buf w =
     (let (r, w) = core_try_send env (be_core self) buf w in
      if \<not> would_block r then Some (r, w)
      else
        andthen (Some (io_writable env (be_io self) w)) (\<lambda>_ w.
          let (r, w) = write_fd env (be_io self) buf w in
          if would_block r then tokio_send env self buf (io_clear_ready env (be_io self) w) else Some (r, w)))"

declare tokio_send.simps [code]

text \<open>\<^verbatim>\<open>send_impl\<close> of the async-io backend.\<close>

definition async_io_send :: "('w, 'm) io_env_scheme \<Rightarrow> BackendDevice \<Rightarrow> bytes \<Rightarrow> 'w \<Rightarrow> (usize, 'w) call" where
  "async_io_send env self buf w =
     (let (r, w) = core_try_send env (be_core self) buf w in
      if would_block r then io_write_with env (be_io self) (write_fd env (be_io self) buf) w else Some (r, w))"

section \<open>Creating, cloning and dropping\<close>

definition core_drop :: "('d, 'm) dev_env_scheme \<Rightarrow> ('r, 'a, 'k) rx_setup_env_scheme \<Rightarrow> ('t, 'b, 'l) tx_call_env_scheme \<Rightarrow>
    CoreDevice \<Rightarrow> 'r \<times> 't \<times> 'd \<Rightarrow> (unit, 'r \<times> 't \<times> 'd) call" where
  "core_drop denv renv tenv self s =
     (let (wr, wt, wd) = s in
      andthen (on_rx (handle_drop renv (core_rx self) wr) wt wd) (\<lambda>_ (wr, wt, wd).
      Option.bind (tx_controller_drop tenv (core_tx self) wt) (\<lambda>(r, _, wt).
        Some (r, wr, wt, sys_close denv (core_device self) wd))))"

text \<open>The asynchronous handle on a duplicate of the device's descriptor.\<close>

definition register_io :: "('d, 'm) io_env_scheme \<Rightarrow> CoreDevice \<Rightarrow> 'd \<Rightarrow> i32 res \<times> 'd" where
  "register_io denv core wd =
     then_try (core_duplicate_fd denv core wd) (\<lambda>io_fd wd.
       case io_register denv io_fd wd of
         (Ok _, wd) \<Rightarrow> (Ok io_fd, wd)
       | (Err e, wd) \<Rightarrow> (Err e, sys_close denv io_fd wd)
       | (Panic, wd) \<Rightarrow> (Panic, sys_close denv io_fd wd))"

text \<open>
  \<^verbatim>\<open>new_impl\<close>: the device with the states its threads start from.  A failure after the core was made
  drops the core.
\<close>

definition backend_add_io :: "('d, 'm) io_env_scheme \<Rightarrow> ('r, 'a, 'k) rx_setup_env_scheme \<Rightarrow>
    ('t, 'b, 'l) tx_call_env_scheme \<Rightarrow> CoreDevice \<times> 'x \<Rightarrow> 'r \<times> 't \<times> 'd \<Rightarrow>
    (BackendDevice \<times> 'x, 'r \<times> 't \<times> 'd) call" where
  "backend_add_io denv renv tenv c s =
     (let (core, threads) = c; (wr, wt, wd) = s in
      case register_io denv core wd of
        (Ok io_fd, wd) \<Rightarrow> Some (Ok (\<lparr> be_core = core, be_io = io_fd \<rparr>, threads), wr, wt, wd)
      | (Err e, wd) \<Rightarrow> andthen (core_drop denv renv tenv core (wr, wt, wd)) (\<lambda>_ s. Some (Err e, s))
      | (Panic, wd) \<Rightarrow> Some (Panic, wr, wt, wd))"

definition backend_new :: "string \<Rightarrow> ('d, 'm) io_env_scheme \<Rightarrow> ('r, 'a, 'k) rx_setup_env_scheme \<Rightarrow>
    ('t, 'b, 'l) tx_call_env_scheme \<Rightarrow> i32 \<Rightarrow> UringDeviceConfig \<Rightarrow> 'r \<times> 't \<times> 'd \<Rightarrow>
    (BackendDevice \<times> 'a RxDriverThread \<times> TxDriverThread, 'r \<times> 't \<times> 'd) call" where
  "backend_new thread_name denv renv tenv fd conf s =
     andthen (core_new denv renv tenv fd conf thread_name s) (backend_add_io denv renv tenv)"

definition backend_try_clone :: "string \<Rightarrow> ('d, 'm) io_env_scheme \<Rightarrow> ('r, 'a, 'k) rx_setup_env_scheme \<Rightarrow>
    ('t, 'b, 'l) tx_call_env_scheme \<Rightarrow> BackendDevice \<Rightarrow> 'r \<times> 't \<times> 'd \<Rightarrow>
    (BackendDevice \<times> 'a RxDriverThread \<times> TxDriverThread, 'r \<times> 't \<times> 'd) call" where
  "backend_try_clone thread_name denv renv tenv self s =
     (let (wr, wt, wd) = s in
      andthen (on_dev wr wt (try_clone_device denv (core_device (be_core self)) wd)) (\<lambda>fd s.
        backend_new thread_name denv renv tenv fd (core_config_of (be_core self)) s))"

section \<open>The three backends\<close>

text \<open>The methods a backend implements, over the worlds of the RX side, the TX side and the device.\<close>

record ('a, 'b, 'r, 't, 'd) backend_impl =
  new_impl :: "i32 \<Rightarrow> UringDeviceConfig \<Rightarrow> 'r \<times> 't \<times> 'd \<Rightarrow>
    (BackendDevice \<times> 'a RxDriverThread \<times> TxDriverThread, 'r \<times> 't \<times> 'd) call"
  try_clone_impl :: "BackendDevice \<Rightarrow> 'r \<times> 't \<times> 'd \<Rightarrow>
    (BackendDevice \<times> 'a RxDriverThread \<times> TxDriverThread, 'r \<times> 't \<times> 'd) call"
  rx_state_impl :: "u16 RxSharedState \<Rightarrow> RxState"
  ready_len_impl :: "u16 RxSharedState \<Rightarrow> usize"
  start_rx_impl :: "(('a, 'r) rx_sys \<Rightarrow> (unit, ('a, 'r) rx_sys) call) \<Rightarrow> ('a, 'r) rx_sys \<Rightarrow> (unit, ('a, 'r) rx_sys) call"
  stop_rx_impl :: "(('a, 'r) rx_sys \<Rightarrow> (unit, ('a, 'r) rx_sys) call) \<Rightarrow> ('a, 'r) rx_sys \<Rightarrow> (unit, ('a, 'r) rx_sys) call"
  try_send_impl :: "BackendDevice \<Rightarrow> bytes \<Rightarrow> 'd \<Rightarrow> usize res \<times> 'd"
  readable_impl :: "nat \<Rightarrow> u16 RxSharedState \<Rightarrow> unit res Poll \<times> u16 RxSharedState"
  try_recv_impl :: "u16 RxSharedState \<Rightarrow> u16 Packet res \<times> u16 RxSharedState"
  recv_impl :: "nat \<Rightarrow> u16 Packet recv_pc \<Rightarrow> u16 RxSharedState \<Rightarrow> u16 Packet recv_pc \<times> u16 RxSharedState"
  recv_many_impl :: "u16 Packet option list \<Rightarrow> nat \<Rightarrow> (nat \<times> u16 Packet option list) recv_pc \<Rightarrow>
    u16 RxSharedState \<Rightarrow> (nat \<times> u16 Packet option list) recv_pc \<times> u16 RxSharedState"
  writable_impl :: "BackendDevice \<Rightarrow> 'd \<Rightarrow> unit res \<times> 'd"
  send_impl :: "BackendDevice \<Rightarrow> bytes \<Rightarrow> 'd \<Rightarrow> (usize, 'd) call"
  send_many_impl :: "BackendDevice \<Rightarrow> nat \<Rightarrow> ('b, 't) send_sys \<Rightarrow> (Bytes list Poll, ('b, 't) send_sys) call"

definition tokio_backend :: "('d, 'm) io_env_scheme \<Rightarrow> ('r, 'a, 'k) rx_setup_env_scheme \<Rightarrow>
    ('t, 'b, 'l) tx_call_env_scheme \<Rightarrow> ('a, 'b, 'r, 't, 'd) backend_impl" where
  "tokio_backend denv renv tenv =
     \<lparr> new_impl = backend_new ''uring-rx-tokio'' denv renv tenv,
       try_clone_impl = backend_try_clone ''uring-rx-tokio'' denv renv tenv,
       rx_state_impl = core_rx_state,
       ready_len_impl = core_ready_len,
       start_rx_impl = core_start_rx,
       stop_rx_impl = core_stop_rx,
       try_send_impl = (\<lambda>self. core_try_send denv (be_core self)),
       readable_impl = core_readable,
       try_recv_impl = core_try_recv,
       recv_impl = core_recv,
       recv_many_impl = core_recv_many,
       writable_impl = (\<lambda>self. io_writable denv (be_io self)),
       send_impl = tokio_send denv,
       send_many_impl = (\<lambda>self. core_send_many tenv (be_core self)) \<rparr>"

definition async_io_backend :: "('d, 'm) io_env_scheme \<Rightarrow> ('r, 'a, 'k) rx_setup_env_scheme \<Rightarrow>
    ('t, 'b, 'l) tx_call_env_scheme \<Rightarrow> ('a, 'b, 'r, 't, 'd) backend_impl" where
  "async_io_backend denv renv tenv =
     \<lparr> new_impl = backend_new ''uring-rx-async-io'' denv renv tenv,
       try_clone_impl = backend_try_clone ''uring-rx-async-io'' denv renv tenv,
       rx_state_impl = core_rx_state,
       ready_len_impl = core_ready_len,
       start_rx_impl = core_start_rx,
       stop_rx_impl = core_stop_rx,
       try_send_impl = (\<lambda>self. core_try_send denv (be_core self)),
       readable_impl = core_readable,
       try_recv_impl = core_try_recv,
       recv_impl = core_recv,
       recv_many_impl = core_recv_many,
       writable_impl = (\<lambda>self. io_writable denv (be_io self)),
       send_impl = async_io_send denv,
       send_many_impl = (\<lambda>self. core_send_many tenv (be_core self)) \<rparr>"

text \<open>
  Without a backend \<^verbatim>\<open>send_many\<close> marks the buffers and returns them, and every other operation that can fail
  fails; \<^verbatim>\<open>new\<close> drops the device it was given.
\<close>

definition no_backend_send_many :: "Bytes list \<Rightarrow> usize res option list \<Rightarrow> Bytes list \<times> usize res option list" where
  "no_backend_send_many buffers rs = (buffers, fill_result_prefix rs (length buffers) (Err no_async_backend))"

definition no_backend :: "('d, 'm) dev_env_scheme \<Rightarrow> ('a, 'b, 'r, 't, 'd) backend_impl" where
  "no_backend denv =
     \<lparr> new_impl = (\<lambda>fd conf (wr, wt, wd). Some (Err no_async_backend, wr, wt, sys_close denv fd wd)),
       try_clone_impl = (\<lambda>self s. Some (Err no_async_backend, s)),
       rx_state_impl = (\<lambda>sh. Stopped),
       ready_len_impl = (\<lambda>sh. 0),
       start_rx_impl = (\<lambda>start_sync s. Some (Err no_async_backend, s)),
       stop_rx_impl = (\<lambda>stop_async s. Some (Err no_async_backend, s)),
       try_send_impl = (\<lambda>self buf w. (Err no_async_backend, w)),
       readable_impl = (\<lambda>cx sh. (Ready (Err no_async_backend), sh)),
       try_recv_impl = (\<lambda>sh. (Err no_async_backend, sh)),
       recv_impl = (\<lambda>cx point sh. (RecvDone (Err no_async_backend), sh)),
       recv_many_impl = (\<lambda>out cx point sh. (RecvDone (Err no_async_backend), sh)),
       writable_impl = (\<lambda>self w. (Err no_async_backend, w)),
       send_impl = (\<lambda>self buf w. Some (Err no_async_backend, w)),
       send_many_impl = (\<lambda>self cx s.
         let (buffers, rs) = no_backend_send_many (sf_bufs (fst s)) (sf_results (fst s)) in send_ready buffers rs s) \<rparr>"

section \<open>The selected backend and the facade\<close>

text \<open>\<^verbatim>\<open>BackendDevice\<close> of \<^verbatim>\<open>backend/mod.rs\<close>: the methods of the backend that was compiled in.\<close>

record ('a, 'b, 'r, 't, 'd) backend_methods =
  be_new :: "i32 \<Rightarrow> UringDeviceConfig \<Rightarrow> 'r \<times> 't \<times> 'd \<Rightarrow>
    (BackendDevice \<times> 'a RxDriverThread \<times> TxDriverThread, 'r \<times> 't \<times> 'd) call"
  be_try_clone :: "BackendDevice \<Rightarrow> 'r \<times> 't \<times> 'd \<Rightarrow>
    (BackendDevice \<times> 'a RxDriverThread \<times> TxDriverThread, 'r \<times> 't \<times> 'd) call"
  be_rx_state :: "u16 RxSharedState \<Rightarrow> RxState"
  be_ready_len :: "u16 RxSharedState \<Rightarrow> usize"
  be_start_rx :: "(('a, 'r) rx_sys \<Rightarrow> (unit, ('a, 'r) rx_sys) call) \<Rightarrow> ('a, 'r) rx_sys \<Rightarrow> (unit, ('a, 'r) rx_sys) call"
  be_stop_rx :: "(('a, 'r) rx_sys \<Rightarrow> (unit, ('a, 'r) rx_sys) call) \<Rightarrow> ('a, 'r) rx_sys \<Rightarrow> (unit, ('a, 'r) rx_sys) call"
  be_try_send :: "BackendDevice \<Rightarrow> bytes \<Rightarrow> 'd \<Rightarrow> usize res \<times> 'd"
  be_readable :: "nat \<Rightarrow> u16 RxSharedState \<Rightarrow> unit res Poll \<times> u16 RxSharedState"
  be_try_recv :: "u16 RxSharedState \<Rightarrow> u16 Packet res \<times> u16 RxSharedState"
  be_recv :: "nat \<Rightarrow> u16 Packet recv_pc \<Rightarrow> u16 RxSharedState \<Rightarrow> u16 Packet recv_pc \<times> u16 RxSharedState"
  be_recv_many :: "u16 Packet option list \<Rightarrow> nat \<Rightarrow> (nat \<times> u16 Packet option list) recv_pc \<Rightarrow>
    u16 RxSharedState \<Rightarrow> (nat \<times> u16 Packet option list) recv_pc \<times> u16 RxSharedState"
  be_writable :: "BackendDevice \<Rightarrow> 'd \<Rightarrow> unit res \<times> 'd"
  be_send :: "BackendDevice \<Rightarrow> bytes \<Rightarrow> 'd \<Rightarrow> (usize, 'd) call"
  be_send_many :: "BackendDevice \<Rightarrow> nat \<Rightarrow> ('b, 't) send_sys \<Rightarrow> (Bytes list Poll, ('b, 't) send_sys) call"

definition backend_device :: "('a, 'b, 'r, 't, 'd) backend_impl \<Rightarrow> ('a, 'b, 'r, 't, 'd) backend_methods" where
  "backend_device impl =
     \<lparr> be_new = new_impl impl, be_try_clone = try_clone_impl impl,
       be_rx_state = rx_state_impl impl, be_ready_len = ready_len_impl impl,
       be_start_rx = start_rx_impl impl, be_stop_rx = stop_rx_impl impl,
       be_try_send = try_send_impl impl, be_readable = readable_impl impl,
       be_try_recv = try_recv_impl impl, be_recv = recv_impl impl, be_recv_many = recv_many_impl impl,
       be_writable = writable_impl impl, be_send = send_impl impl, be_send_many = send_many_impl impl \<rparr>"

definition backend_methods_of :: "backend \<Rightarrow> ('d, 'm) io_env_scheme \<Rightarrow> ('r, 'a, 'k) rx_setup_env_scheme \<Rightarrow>
    ('t, 'b, 'l) tx_call_env_scheme \<Rightarrow> ('a, 'b, 'r, 't, 'd) backend_methods" where
  "backend_methods_of b denv renv tenv =
     backend_device (case b of
       AsyncTokio \<Rightarrow> tokio_backend denv renv tenv
     | AsyncIo \<Rightarrow> async_io_backend denv renv tenv
     | NoBackend \<Rightarrow> no_backend denv)"

text \<open>The operations of \<^verbatim>\<open>UringDevice\<close>, over the methods of the backend.\<close>

definition device_new :: "('a, 'b, 'r, 't, 'd) backend_methods \<Rightarrow> i32 \<Rightarrow> UringDeviceConfig \<Rightarrow> 'r \<times> 't \<times> 'd \<Rightarrow>
    (BackendDevice \<times> 'a RxDriverThread \<times> TxDriverThread, 'r \<times> 't \<times> 'd) call" where
  "device_new be fd conf s = andthen (be_new be fd conf s) (\<lambda>inner s. Some (Ok inner, s))"

definition device_clone :: "('a, 'b, 'r, 't, 'd) backend_methods \<Rightarrow> BackendDevice \<Rightarrow> 'r \<times> 't \<times> 'd \<Rightarrow>
    (BackendDevice \<times> 'a RxDriverThread \<times> TxDriverThread, 'r \<times> 't \<times> 'd) call" where
  "device_clone be self s = andthen (be_try_clone be self s) (\<lambda>inner s. Some (Ok inner, s))"

definition device_rx_state :: "('a, 'b, 'r, 't, 'd) backend_methods \<Rightarrow> u16 RxSharedState \<Rightarrow> RxState" where
  "device_rx_state be sh = be_rx_state be sh"

definition device_ready_len :: "('a, 'b, 'r, 't, 'd) backend_methods \<Rightarrow> u16 RxSharedState \<Rightarrow> usize" where
  "device_ready_len be sh = be_ready_len be sh"

definition device_start_rx :: "('a, 'b, 'r, 't, 'd) backend_methods \<Rightarrow> (('a, 'r) rx_sys \<Rightarrow> (unit, ('a, 'r) rx_sys) call) \<Rightarrow>
    ('a, 'r) rx_sys \<Rightarrow> (unit, ('a, 'r) rx_sys) call" where
  "device_start_rx be start_sync s = be_start_rx be start_sync s"

definition device_stop_rx :: "('a, 'b, 'r, 't, 'd) backend_methods \<Rightarrow> (('a, 'r) rx_sys \<Rightarrow> (unit, ('a, 'r) rx_sys) call) \<Rightarrow>
    ('a, 'r) rx_sys \<Rightarrow> (unit, ('a, 'r) rx_sys) call" where
  "device_stop_rx be stop_async s = be_stop_rx be stop_async s"

definition device_try_send :: "('a, 'b, 'r, 't, 'd) backend_methods \<Rightarrow> BackendDevice \<Rightarrow> bytes \<Rightarrow> 'd \<Rightarrow> usize res \<times> 'd" where
  "device_try_send be self buf w = be_try_send be self buf w"

definition device_readable :: "('a, 'b, 'r, 't, 'd) backend_methods \<Rightarrow> nat \<Rightarrow> u16 RxSharedState \<Rightarrow>
    unit res Poll \<times> u16 RxSharedState" where
  "device_readable be cx sh = be_readable be cx sh"

definition device_try_recv :: "('a, 'b, 'r, 't, 'd) backend_methods \<Rightarrow> u16 RxSharedState \<Rightarrow> u16 Packet res \<times> u16 RxSharedState" where
  "device_try_recv be sh = be_try_recv be sh"

definition device_recv :: "('a, 'b, 'r, 't, 'd) backend_methods \<Rightarrow> nat \<Rightarrow> u16 Packet recv_pc \<Rightarrow> u16 RxSharedState \<Rightarrow>
    u16 Packet recv_pc \<times> u16 RxSharedState" where
  "device_recv be cx point sh = be_recv be cx point sh"

definition device_recv_many :: "('a, 'b, 'r, 't, 'd) backend_methods \<Rightarrow> u16 Packet option list \<Rightarrow> nat \<Rightarrow>
    (nat \<times> u16 Packet option list) recv_pc \<Rightarrow> u16 RxSharedState \<Rightarrow> (nat \<times> u16 Packet option list) recv_pc \<times> u16 RxSharedState" where
  "device_recv_many be out cx point sh = be_recv_many be out cx point sh"

definition device_writable :: "('a, 'b, 'r, 't, 'd) backend_methods \<Rightarrow> BackendDevice \<Rightarrow> 'd \<Rightarrow> unit res \<times> 'd" where
  "device_writable be self w = be_writable be self w"

definition device_send_packet :: "('a, 'b, 'r, 't, 'd) backend_methods \<Rightarrow> BackendDevice \<Rightarrow> bytes \<Rightarrow> 'd \<Rightarrow> (usize, 'd) call" where
  "device_send_packet be self buf w = be_send be self buf w"

definition device_send_many :: "('a, 'b, 'r, 't, 'd) backend_methods \<Rightarrow> BackendDevice \<Rightarrow> nat \<Rightarrow> ('b, 't) send_sys \<Rightarrow>
    (Bytes list Poll, ('b, 't) send_sys) call" where
  "device_send_many be self cx s = be_send_many be self cx s"

lemmas backend_defs = backend_methods_of_def backend_device_def tokio_backend_def async_io_backend_def no_backend_def

section \<open>A packet is written once\<close>

text \<open>
  What sending relies on.  \<open>written\<close> lists the packets the device took: a successful write adds its
  packet, a failed one nothing, waiting nothing.  \<open>congestion\<close> bounds how often a write can still be
  refused.  \<^verbatim>\<open>write_with\<close> of async-io repeats the operation while it would block, waiting in between,
  and returns the first other result of it, or the error of waiting.
\<close>

locale packet_writer =
  fixes env :: "('w, 'm) io_env_scheme" and written :: "'w \<Rightarrow> bytes list" and congestion :: "'w \<Rightarrow> nat"
  assumes send: "device_send env fd buf w = (r, w') \<Longrightarrow>
      written w' = written w @ (case r of Ok n \<Rightarrow> [buf] | _ \<Rightarrow> []) \<and> congestion w' \<le> congestion w"
    and syswrite: "sys_write env fd buf w = (r, w') \<Longrightarrow>
      written w' = written w @ (case r of Ok n \<Rightarrow> [buf] | _ \<Rightarrow> []) \<and>
      (if would_block r then congestion w' < congestion w else congestion w' \<le> congestion w)"
    and writable: "io_writable env fd w = (u, w') \<Longrightarrow> written w' = written w \<and> congestion w' \<le> congestion w"
    and clear: "written (io_clear_ready env fd w) = written w \<and> congestion (io_clear_ready env fd w) \<le> congestion w"
    and write_with_returns: "io_write_with env fd (sys_write env fd buf) w \<noteq> None"
    and write_with: "io_write_with env fd (sys_write env fd buf) w = Some (r, w') \<Longrightarrow>
      \<exists>v. written v = written w \<and>
        (\<not> would_block r \<and> sys_write env fd buf v = (r, w') \<or> (\<forall>n. r \<noteq> Ok n) \<and> written w' = written v)"
begin

lemma tokio_send_once:
  "\<exists>r w'. tokio_send env self buf w = Some (r, w') \<and> written w' = written w @ (case r of Ok n \<Rightarrow> [buf] | _ \<Rightarrow> [])"
proof (induction "congestion w" arbitrary: w rule: less_induct)
  case less
  obtain r1 w1 where 1: "device_send env (core_device (be_core self)) buf w = (r1, w1)"
    by (cases "device_send env (core_device (be_core self)) buf w")
  obtain u w2 where 2: "io_writable env (be_io self) w1 = (u, w2)" by (cases "io_writable env (be_io self) w1")
  obtain r3 w3 where 3: "sys_write env (be_io self) buf w2 = (r3, w3)" by (cases "sys_write env (be_io self) buf w2")
  note facts = send [OF 1] writable [OF 2] syswrite [OF 3]
  consider "\<not> would_block r1" | "would_block r1" "\<forall>x. u \<noteq> Ok x" | x where "would_block r1" "u = Ok x" by blast
  then show ?case
  proof cases
    case 1
    then show ?thesis using \<open>device_send _ _ _ _ = _\<close> facts(1) by (subst tokio_send.simps) (simp add: core_try_send_def)
  next
    case 2
    then have "written w1 = written w" using facts(1) by (cases r1) auto
    then show ?thesis
      using 2 \<open>device_send _ _ _ _ = _\<close> \<open>io_writable _ _ _ = _\<close> facts
      by (subst tokio_send.simps) (cases u; simp add: core_try_send_def)
  next
    case 3
    then have w1: "written w1 = written w" using facts(1) by (cases r1) auto
    have step: "tokio_send env self buf w =
        (if would_block r3 then tokio_send env self buf (io_clear_ready env (be_io self) w3) else Some (r3, w3))"
      using 3 \<open>device_send _ _ _ _ = _\<close> \<open>io_writable _ _ _ = _\<close> \<open>sys_write _ _ _ _ = _\<close>
      by (subst tokio_send.simps) (simp add: core_try_send_def write_fd_def)
    show ?thesis
    proof (cases "would_block r3")
      case True
      have "congestion (io_clear_ready env (be_io self) w3) < congestion w" "written w3 = written w"
        using True facts clear [of "be_io self" w3] w1 by (auto simp: would_block_def)
      with less [of "io_clear_ready env (be_io self) w3"] clear [of "be_io self" w3] step True show ?thesis by simp
    next
      case False
      then show ?thesis using step facts w1 by simp
    qed
  qed
qed

lemma async_io_send_once:
  "\<exists>r w'. async_io_send env self buf w = Some (r, w') \<and> written w' = written w @ (case r of Ok n \<Rightarrow> [buf] | _ \<Rightarrow> [])"
proof -
  obtain r1 w1 where 1: "device_send env (core_device (be_core self)) buf w = (r1, w1)"
    by (cases "device_send env (core_device (be_core self)) buf w")
  have op: "write_fd env (be_io self) buf = sys_write env (be_io self) buf" by (simp add: write_fd_def fun_eq_iff)
  show ?thesis
  proof (cases "would_block r1")
    case True
    obtain r w' where ww: "io_write_with env (be_io self) (sys_write env (be_io self) buf) w1 = Some (r, w')"
      using write_with_returns by (metis option.exhaust prod.exhaust)
    from write_with [OF ww] have "written w' = written w1 @ (case r of Ok n \<Rightarrow> [buf] | _ \<Rightarrow> [])"
      using syswrite by (fastforce split: res.split)
    moreover have "written w1 = written w" using send [OF 1] True by (cases r1) auto
    ultimately show ?thesis using True 1 ww by (simp add: async_io_send_def core_try_send_def op)
  next
    case False
    then show ?thesis using 1 send [OF 1] by (simp add: async_io_send_def core_try_send_def)
  qed
qed

lemma device_send_once:
  "\<exists>r w'. device_send_packet (backend_methods_of b env renv tenv) self buf w = Some (r, w') \<and>
     written w' = written w @ (case r of Ok n \<Rightarrow> [buf] | _ \<Rightarrow> [])"
  using tokio_send_once async_io_send_once by (cases b) (auto simp: device_send_packet_def backend_defs)

end

section \<open>A congested device\<close>

text \<open>A device that refuses the next \<open>bs_blocks\<close> writes.\<close>

record bsim =
  bs_blocks :: nat
  bs_written :: "bytes list"

definition bs_take :: "nat \<Rightarrow> bytes \<Rightarrow> bsim \<Rightarrow> usize res \<times> bsim" where
  "bs_take used buf w =
     (if bs_blocks w > 0 then (Err (Os EAGAIN), w\<lparr>bs_blocks := bs_blocks w - used\<rparr>)
      else (Ok (length buf), w\<lparr>bs_written := bs_written w @ [buf]\<rparr>))"

fun bs_repeat :: "nat \<Rightarrow> (bsim \<Rightarrow> usize res \<times> bsim) \<Rightarrow> bsim \<Rightarrow> (usize, bsim) call" where
  "bs_repeat 0 op w = None"
| "bs_repeat (Suc n) op w = (let (r, w) = op w in if would_block r then bs_repeat n op w else Some (r, w))"

definition bs_env :: "bsim io_env" where
  "bs_env =
     \<lparr> ioctl_tungetiff = (\<lambda>fd w. (Err (Os EINVAL), w)), ioctl_tunsetiff = (\<lambda>fd request w. (Err (Os EINVAL), w)),
       ioctl_tungetdevnetns = (\<lambda>fd w. (Err (Os EINVAL), w)), sys_fstat = (\<lambda>fd w. (Ok (3, 11), w)),
       open_thread_netns = (\<lambda>w. (Err (Os ENOENT), w)), open_net_tun = (\<lambda>w. (Err (Os ENOENT), w)),
       sys_close = (\<lambda>fd w. w), sys_dupfd_cloexec = (\<lambda>fd w. (Ok (fd + 1), w)), if_nametoindex = (\<lambda>name w. (0, w)),
       device_from_fd = (\<lambda>fd w. (Ok fd, w)), device_try_clone = (\<lambda>fd w. (Err (Simple Unsupported), w)),
       device_tcp_gso = (\<lambda>fd w. (False, w)), device_set_nonblocking = (\<lambda>fd w. (Ok (), w)),
       device_send = (\<lambda>fd. bs_take 0), sys_write = (\<lambda>fd. bs_take 1), io_register = (\<lambda>fd w. (Ok (), w)),
       io_writable = (\<lambda>fd w. (Ok (), w)), io_clear_ready = (\<lambda>fd w. w),
       io_write_with = (\<lambda>fd op w. bs_repeat (Suc (bs_blocks w)) op w) \<rparr>"

lemma bs_repeat_take:
  "\<exists>v. bs_repeat (Suc (bs_blocks w)) (bs_take 1 buf) w = Some (bs_take 1 buf v) \<and> bs_written v = bs_written w \<and> bs_blocks v = 0"
proof (induction "bs_blocks w" arbitrary: w)
  case 0
  then show ?case by (auto simp: bs_take_def intro!: exI [of _ w])
next
  case (Suc n)
  let ?w = "w\<lparr>bs_blocks := n\<rparr>"
  have "bs_repeat (Suc (bs_blocks w)) (bs_take 1 buf) w = bs_repeat (Suc (bs_blocks ?w)) (bs_take 1 buf) ?w"
    using Suc(2) [symmetric] by (simp add: bs_take_def decode_error_kind_def errno_defs del: bs_repeat.simps(2)
        add: bs_repeat.simps(2) [of "Suc n"])
  with Suc(1) [of ?w] show ?case by simp
qed

interpretation bs_writer: packet_writer bs_env bs_written bs_blocks
proof unfold_locales
  fix fd buf w r w'
  assume "io_write_with bs_env fd (sys_write bs_env fd buf) w = Some (r, w')"
  then obtain v where "bs_take 1 buf v = (r, w')" "bs_written v = bs_written w" "bs_blocks v = 0"
    using bs_repeat_take [of w buf] by (auto simp: bs_env_def simp del: bs_repeat.simps)
  then show "\<exists>v. bs_written v = bs_written w \<and>
      (\<not> would_block r \<and> sys_write bs_env fd buf v = (r, w') \<or> (\<forall>n. r \<noteq> Ok n) \<and> bs_written w' = bs_written v)"
    by (intro exI [of _ v]) (auto simp: bs_env_def bs_take_def)
next
  show "io_write_with bs_env fd (sys_write bs_env fd buf) w \<noteq> None" for fd buf w
    using bs_repeat_take [of w buf] by (auto simp: bs_env_def simp del: bs_repeat.simps)
qed (auto simp: bs_env_def bs_take_def decode_error_kind_def errno_defs split: if_splits)

definition example_backend_device :: BackendDevice where
  "example_backend_device =
     \<lparr> be_core = \<lparr> core_device = 3, core_config = ValidatedConfig default_config, core_include_hdr = False,
                   core_rx = \<lparr> handle_eventfd = 4, handle_name = ''rx'' \<rparr>, core_tx = tc_controller \<rparr>, be_io = 7 \<rparr>"



section \<open>Clones and missing backends\<close>

lemma backend_add_io_Ok:
  assumes "backend_add_io denv renv tenv (core, threads) (wr, wt, wd) = Some (Ok (dev, th), s')"
  shows "be_core dev = core \<and> th = threads"
  using assms
  by (cases "register_io denv core wd"; cases "fst (register_io denv core wd)") (auto simp: backend_add_io_def andthen_Ok_iff)

lemma backend_new_config:
  assumes "backend_new thread_name denv renv tenv fd conf s = Some (Ok (dev, threads), s')"
  shows "core_config_of (be_core dev) = conf"
proof -
  obtain core rx_thread tx_thread wr wt wd where new:
    "core_new denv renv tenv fd conf thread_name s = Some (Ok (core, rx_thread, tx_thread), wr, wt, wd)"
    and dev: "be_core dev = core"
    using assms by (fastforce simp: backend_new_def andthen_Ok_iff dest!: backend_add_io_Ok)
  have "core_config core = ValidatedConfig conf" by (rule core_new_cases [OF new])
  with dev show ?thesis by (simp add: core_config_of_def to_config_def)
qed

text \<open>A clone has the configuration of its source.\<close>

lemma device_clone_keeps_config:
  assumes "device_clone (backend_methods_of b denv renv tenv) self s = Some (Ok (dev, threads), s')"
  shows "core_config_of (be_core dev) = core_config_of (be_core self)"
  using assms
  by (cases b) (auto simp: device_clone_def backend_defs backend_try_clone_def andthen_Ok_iff split_beta dest: backend_new_config)

text \<open>Without a backend an operation fails, or reports that nothing was received, and leaves everything as it was.\<close>

lemma no_backend_fails:
  fixes denv :: "('d, 'm) io_env_scheme" and renv :: "('r, 'a, 'k) rx_setup_env_scheme" and tenv :: "('t, 'b, 'l) tx_call_env_scheme"
  defines "be \<equiv> backend_methods_of NoBackend denv renv tenv"
  shows "device_new be fd conf (wr, wt, wd) = Some (Err no_async_backend, wr, wt, sys_close denv fd wd)"
    and "device_clone be self s = Some (Err no_async_backend, s)"
    and "device_recv be cx point sh = (RecvDone (Err no_async_backend), sh)"
    and "\<exists>rs. device_send_many be self cx (send_future_new buffers (replicate n None) t keep, w) =
           Some (Ok (Ready buffers), (send_future_new buffers rs t keep)\<lparr>sf_state := Finished\<rparr>, w) \<and>
         rs = fill_result_prefix (replicate n None) (length buffers) (Err no_async_backend)"
  by (simp_all add: be_def device_new_def device_clone_def device_recv_def device_send_many_def backend_defs
      no_backend_send_many_def send_ready_def send_future_new_def)

end
