(* ===== verification/Live_Examples.thy ===== *)
theory Live_Examples
  imports Gso_Split Backend
begin

text \<open>
  The support code of the live examples (\<^verbatim>\<open>src/examples/common/mod.rs\<close>) and the bookkeeping of the
  performance smoke test (\<^verbatim>\<open>src/examples/perf_smoke.rs\<close>): the UDP packets they send and look for, the
  check of a batch's results, and the summary of the round times.  The programs around
  them are in \<open>Perf_Smoke\<close>.
\<close>

unbundle bit_operations_syntax

section \<open>UDP packets\<close>

text \<open>
  \<^verbatim>\<open>ipv4_checksum\<close>: \<^verbatim>\<open>chunks_exact(2)\<close> leaves out an odd last byte.  The sum has 32 bits; it cannot wrap for a header.
\<close>

fun ipv4_sum :: "bytes \<Rightarrow> u32 \<Rightarrow> u32" where
  "ipv4_sum (a # b # rest) acc = ipv4_sum rest (acc + ucast (u16_from_be_bytes a b))"
| "ipv4_sum _ acc = acc"

function ipv4_fold :: "u32 \<Rightarrow> u32" where
  "ipv4_fold acc = (if acc > 0xffff then ipv4_fold ((acc AND 0xffff) + drop_bit 16 acc) else acc)"
  by pat_completeness auto
termination
proof (relation "measure unat")
  fix acc :: u32
  assume "acc > 0xffff"
  then have "65535 < unat acc" by (simp add: word_less_nat_alt)
  then show "((acc AND 0xffff) + drop_bit 16 acc, acc) \<in> measure unat"
    by (simp only: in_measure word_fold_step halves_decrease)
qed simp

declare ipv4_fold.simps [simp del]

definition ipv4_checksum :: "bytes \<Rightarrow> u16" where
  "ipv4_checksum header = NOT (ucast (ipv4_fold (ipv4_sum header 0)))"

type_synonym ipv4_addr = "u8 \<times> u8 \<times> u8 \<times> u8"

fun octets :: "ipv4_addr \<Rightarrow> bytes" where
  "octets (a, b, c, d) = [a, b, c, d]"

definition build_ipv4_udp_packet :: "ipv4_addr \<Rightarrow> ipv4_addr \<Rightarrow> u16 \<Rightarrow> u16 \<Rightarrow> bytes \<Rightarrow> bytes res" where
  "build_ipv4_udp_packet src dst src_port dst_port payload =
     (let total_len = 20 + 8 + length payload; packet = replicate total_len 0 in
      bind_res (put packet 0 0x45) (\<lambda>packet.
      bind_res (put packet 1 0) (\<lambda>packet.
      bind_res (copy_into packet 2 4 (u16_to_be_bytes (of_nat total_len))) (\<lambda>packet.
      bind_res (copy_into packet 4 6 (u16_to_be_bytes 0)) (\<lambda>packet.
      bind_res (copy_into packet 6 8 (u16_to_be_bytes 0)) (\<lambda>packet.
      bind_res (put packet 8 64) (\<lambda>packet.
      bind_res (put packet 9 IPPROTO_UDP) (\<lambda>packet.
      bind_res (copy_into packet 12 16 (octets src)) (\<lambda>packet.
      bind_res (copy_into packet 16 20 (octets dst)) (\<lambda>packet.
      bind_res (slice packet 0 20) (\<lambda>header.
      bind_res (copy_into packet 10 12 (u16_to_be_bytes (ipv4_checksum header))) (\<lambda>packet.
      bind_res (copy_into packet 20 22 (u16_to_be_bytes src_port)) (\<lambda>packet.
      bind_res (copy_into packet 22 24 (u16_to_be_bytes dst_port)) (\<lambda>packet.
      bind_res (copy_into packet 24 26 (u16_to_be_bytes (of_nat (8 + length payload)))) (\<lambda>packet.
      bind_res (copy_into packet 26 28 (u16_to_be_bytes 0)) (\<lambda>packet.
      copy_into packet 28 (length packet) payload))))))))))))))))"

definition packet_has_ipv4_udp_payload :: "bytes \<Rightarrow> bytes \<Rightarrow> bool res" where
  "packet_has_ipv4_udp_payload packet expected_payload =
     (if length packet < 20 then Ok False
      else bind_res (idx packet 0) (\<lambda>first.
      if drop_bit 4 first \<noteq> 4 then Ok False
      else
        let ip_header_len = unat (first AND 0x0f) * 4 in
        if length packet < ip_header_len + 8 then Ok False
        else bind_res (idx packet 9) (\<lambda>protocol.
        if protocol \<noteq> IPPROTO_UDP then Ok False
        else bind_res (idx packet (ip_header_len + 4)) (\<lambda>a. bind_res (idx packet (ip_header_len + 5)) (\<lambda>b.
        let udp_len = unat (u16_from_be_bytes a b) in
        if udp_len < 8 \<or> length packet < ip_header_len + udp_len then Ok False
        else map_res (\<lambda>payload. payload = expected_payload) (slice packet (ip_header_len + 8) (ip_header_len + udp_len)))))))"

section \<open>The packets are well formed\<close>

lemma unat_ipv4_sum:
  assumes "even (length bs)" "unat acc + sum16 bs < 4294967296"
  shows "unat (ipv4_sum bs acc) = unat acc + sum16 bs"
  using assms
proof (induction bs acc rule: ipv4_sum.induct)
  case (1 a b rest acc)
  then have "unat (acc + ucast (u16_from_be_bytes a b)) = unat acc + (256 * unat a + unat b)"
    using order.strict_trans [OF unat_u16_less [of "u16_from_be_bytes a b"], of 4294967296]
    by (simp add: unat_word_ariths unsigned_ucast_eq take_bit_nat_eq_self unat_u16_from_be)
  with 1 show ?case by (simp add: add.assoc)
qed simp_all

lemma unat_ipv4_fold: "unat (ipv4_fold acc) = ones_sum (unat acc)"
proof (induction acc rule: ipv4_fold.induct)
  case (1 acc)
  show ?case
  proof (cases "acc > 0xffff")
    case True
    then have "65535 < unat acc" by (simp add: word_less_nat_alt)
    with True "1.IH" show ?thesis
      by (simp add: ipv4_fold.simps [of acc] word_fold_step ones_sum_fold_step)
  next
    case False
    then have "unat acc \<le> 65535" by (simp add: word_less_nat_alt)
    with False show ?thesis by (simp add: ipv4_fold.simps [of acc] ones_sum_small)
  qed
qed

text \<open>The examples' checksum is the crate's.\<close>

lemma ipv4_checksum_eq:
  assumes "even (length header)" "length header < 65536"
  shows "ipv4_checksum header = NOT (checksum header 0)"
proof -
  have "unat (ipv4_sum header 0) = sum16 header"
    using unat_ipv4_sum [of header 0] assms sum16_bound [of header] by simp
  then have "unat (ipv4_fold (ipv4_sum header 0)) = ones_sum (sum16 header)" by (simp add: unat_ipv4_fold)
  moreover from this have "unat (ucast (ipv4_fold (ipv4_sum header 0)) :: u16) = unat (ipv4_fold (ipv4_sum header 0))"
    using ones_sum_le [of "sum16 header"] by (simp add: unsigned_ucast_eq take_bit_nat_eq_self_iff)
  ultimately have "unat (ucast (ipv4_fold (ipv4_sum header 0)) :: u16) = unat (checksum header 0)"
    using assms by (simp add: checksum_ones_sum)
  then have "ucast (ipv4_fold (ipv4_sum header 0)) = checksum header 0" by (rule word_unat_eq_iff [THEN iffD2])
  then show ?thesis by (simp add: ipv4_checksum_def)
qed

definition example_header :: "ipv4_addr \<Rightarrow> ipv4_addr \<Rightarrow> nat \<Rightarrow> u16 \<Rightarrow> bytes" where
  "example_header src dst total_len field =
     [0x45, 0] @ u16_to_be_bytes (of_nat total_len) @ [0, 0, 0, 0, 64, 17] @ u16_to_be_bytes field @ octets src @ octets dst"

lemma length_octets [simp]: "length (octets a) = 4"
  by (cases a) simp

lemma length_example_header [simp]: "length (example_header src dst n field) = 20"
  by (simp add: example_header_def)

lemma build_ipv4_udp_packet_eq:
  "build_ipv4_udp_packet src dst src_port dst_port payload =
     Ok (example_header src dst (28 + length payload) (ipv4_checksum (example_header src dst (28 + length payload) 0)) @
       u16_to_be_bytes src_port @ u16_to_be_bytes dst_port @ u16_to_be_bytes (of_nat (8 + length payload)) @ [0, 0] @ payload)"
proof -
  have zeros: "replicate (20 + 8 + length payload) (0 :: u8) =
      [0,0,0,0,0,0,0,0,0,0,0,0,0,0,0,0,0,0,0,0,0,0,0,0,0,0,0,0] @ replicate (length payload) 0"
    by (simp add: replicate_add [symmetric] numeral_eq_Suc)
  show ?thesis
    unfolding build_ipv4_udp_packet_def Let_def zeros example_header_def
    by (cases src; cases dst)
       (simp add: put_def copy_into_def slice_def patch_def u16_to_be_bytes_def IPPROTO_UDP_def)
qed

lemma has_payload_never_panics: "packet_has_ipv4_udp_payload packet expected \<noteq> Panic"
  by (auto simp: packet_has_ipv4_udp_payload_def Let_def idx_def slice_def)

text \<open>The header verifies, like every header checked with the crate's sum.\<close>

lemma example_header_verifies:
  "checksum (example_header src dst n (ipv4_checksum (example_header src dst n 0))) 0 = 0xffff"
proof -
  let ?zero = "example_header src dst n 0"
  have "example_header src dst n (ipv4_checksum ?zero) = patch ?zero 10 (u16_to_be_bytes (NOT (checksum ?zero 0)))"
    by (cases src; cases dst) (simp add: ipv4_checksum_eq patch_def, simp add: example_header_def u16_to_be_bytes_def)
  moreover have "?zero ! 10 = 0" "?zero ! (10 + 1) = 0" by (simp_all add: example_header_def u16_to_be_bytes_def)
  ultimately show ?thesis by (simp add: checksum_field_verifies)
qed

lemma has_payload_of_udp:
  assumes "length header = 20" "header ! 0 = 0x45" "header ! 9 = IPPROTO_UDP" "length ports = 4" "length payload < 65528"
  shows "packet_has_ipv4_udp_payload
      (header @ ports @ u16_to_be_bytes (of_nat (8 + length payload)) @ [0, 0] @ payload) expected = Ok (payload = expected)"
proof -
  let ?len = "u16_to_be_bytes (of_nat (8 + length payload))"
  let ?packet = "header @ ports @ ?len @ [0, 0] @ payload"
  have "unat (u16_from_be_bytes (?len ! 0) (?len ! 1)) = 8 + length payload"
    using assms(5) by (simp only: u16_be_roundtrip) (simp add: unat_of_nat_u16 del: of_nat_add)
  moreover have "?packet ! 24 = ?len ! 0" "?packet ! 25 = ?len ! 1" using assms by (simp_all add: nth_append)
  moreover have "length ?packet = 28 + length payload" "?packet ! 0 = 0x45" "?packet ! 9 = IPPROTO_UDP"
    using assms by (simp_all add: nth_append)
  moreover have "drop 28 ?packet = payload" using assms by simp
  moreover have "drop_bit 4 (0x45 :: u8) = 4" "(0x45 :: u8) AND 0x0f = 5" by (simp_all add: drop_bit_eq_div)
  ultimately show ?thesis
    using assms(5) by (simp add: packet_has_ipv4_udp_payload_def Let_def idx_def slice_def del: of_nat_add)
qed

text \<open>
  A packet the examples build is what they look for: \<^verbatim>\<open>build_ipv4_udp_packet\<close> does not panic, and for
  every payload an IPv4 packet can carry, its length field and header checksum are right and
  \<^verbatim>\<open>packet_has_ipv4_udp_payload\<close> finds exactly the payload it was built with.
\<close>

theorem udp_packet_round_trip:
  assumes "length payload \<le> 65507"
  shows "\<exists>packet. build_ipv4_udp_packet src dst src_port dst_port payload = Ok packet \<and>
    length packet = 28 + length payload \<and> read_u16_be packet 2 = Ok (of_nat (length packet)) \<and>
    checksum (take 20 packet) 0 = 0xffff \<and>
    (\<forall>expected. packet_has_ipv4_udp_payload packet expected = Ok (payload = expected))"
proof -
  let ?n = "28 + length payload"
  let ?header = "example_header src dst ?n (ipv4_checksum (example_header src dst ?n 0))"
  let ?udp = "u16_to_be_bytes (of_nat (8 + length payload)) @ [0, 0] @ payload"
  let ?packet = "?header @ (u16_to_be_bytes src_port @ u16_to_be_bytes dst_port) @ ?udp"
  have "?header ! 2 = u16_to_be_bytes (of_nat ?n) ! 0" "?header ! 3 = u16_to_be_bytes (of_nat ?n) ! 1"
    "?header ! 0 = 0x45" "?header ! 9 = IPPROTO_UDP"
    by (simp_all add: example_header_def u16_to_be_bytes_def IPPROTO_UDP_def)
  moreover from this have "read_u16_be ?packet 2 = Ok (of_nat ?n)"
    using u16_be_roundtrip [of "of_nat ?n"] by (simp add: read_u16_be_Ok nth_append del: of_nat_add)
  ultimately show ?thesis
    using has_payload_of_udp [of ?header "u16_to_be_bytes src_port @ u16_to_be_bytes dst_port" payload] assms
    by (simp add: build_ipv4_udp_packet_eq example_header_verifies del: of_nat_add)
qed

theorem udp_packet_round_trip_witness:
  "\<exists>packet. build_ipv4_udp_packet (10, 26, 1, 101) (10, 26, 1, 100) 40500 18180 [104, 105] = Ok packet \<and>
     packet_has_ipv4_udp_payload packet [104, 105] = Ok True \<and> packet_has_ipv4_udp_payload packet [104] = Ok False"
  using udp_packet_round_trip [of "[104, 105]" "(10, 26, 1, 101)" "(10, 26, 1, 100)" 40500 18180] by force

section \<open>The rounds of the smoke test\<close>

text \<open>\<^verbatim>\<open>format!("{n}")\<close> of an unsigned number, and \<^verbatim>\<open>string_bytes\<close>.\<close>

fun decimal :: "nat \<Rightarrow> string" where
  "decimal n = (if n < 10 then [char_of (48 + n)] else decimal (n div 10) @ [char_of (48 + n mod 10)])"

declare decimal.simps [simp del]

definition string_bytes :: "string \<Rightarrow> bytes" where
  "string_bytes s = map (\<lambda>c. of_nat (of_char c)) s"

definition round_payload :: "nat \<Rightarrow> nat \<Rightarrow> string" where
  "round_payload rnd index = ''perf-smoke round='' @ decimal rnd @ '' packet='' @ decimal index"

definition round_packet :: "nat \<Rightarrow> nat \<Rightarrow> u16 \<Rightarrow> nat \<Rightarrow> bytes res" where
  "round_packet rnd batch_size dst_port index =
     build_ipv4_udp_packet (10, 26, 1, 101) (10, 26, 1, 100) (49152 + of_nat ((rnd * batch_size + index) mod 16000))
       dst_port (string_bytes (round_payload rnd index))"

text \<open>The loop that fills \<^verbatim>\<open>batch\<close> and \<^verbatim>\<open>expected_lens\<close>, over the indices still to come.\<close>

fun round_batch :: "nat \<Rightarrow> nat \<Rightarrow> u16 \<Rightarrow> nat list \<Rightarrow> (bytes list \<times> usize list) res" where
  "round_batch rnd batch_size dst_port [] = Ok ([], [])"
| "round_batch rnd batch_size dst_port (index # indices) =
     bind_res (round_packet rnd batch_size dst_port index) (\<lambda>packet.
     bind_res (round_batch rnd batch_size dst_port indices) (\<lambda>(batch, lens). Ok (packet # batch, length packet # lens)))"

text \<open>The loop over the results.\<close>

fun round_bytes :: "usize list \<Rightarrow> usize res option list \<Rightarrow> nat \<Rightarrow> usize \<Rightarrow> usize res" where
  "round_bytes [] rs index sofar = Ok sofar"
| "round_bytes (expected_len # lens) rs index sofar =
     bind_res (idx rs index) (\<lambda>slot.
     bind_res (ok_or slot (Custom OtherKind ''missing perf smoke result'')) (\<lambda>r.
     bind_res r (\<lambda>actual.
       if actual \<noteq> expected_len then Err (Custom OtherKind ''unexpected perf smoke byte count'')
       else round_bytes lens rs (index + 1) (sofar + actual))))"

text \<open>The loop of the receiver thread; \<open>recv\<close> reads one datagram from the socket.\<close>

function receive_packets :: "('w \<Rightarrow> usize res \<times> 'w) \<Rightarrow> usize \<Rightarrow> usize \<Rightarrow> 'w \<Rightarrow> usize res \<times> 'w" where
  "receive_packets recv expected_packets received w =
     (if received < expected_packets
      then case recv w of
             (Ok _, w) \<Rightarrow> receive_packets recv expected_packets (received + 1) w
           | (Err e, w) \<Rightarrow> (if kind e = WouldBlock \<or> kind e = TimedOut then Ok received else Err e, w)
           | (Panic, w) \<Rightarrow> (Panic, w)
      else (Ok received, w))"
  by pat_completeness auto
termination by (relation "measure (\<lambda>(_, expected_packets, received, _). expected_packets - received)") auto

declare receive_packets.simps [simp del]

section \<open>The summary of the round times\<close>

record RoundTimeSummary =
  rts_min :: nat
  rts_p50 :: nat
  rts_p95 :: nat
  rts_max :: nat

definition percentile :: "nat list \<Rightarrow> usize \<Rightarrow> nat res" where
  "percentile xs p = (let rank = min usize_max (length xs * p + 99) div 100 - 1 in idx xs (min rank (length xs - 1)))"

definition round_time_summary :: "nat list \<Rightarrow> RoundTimeSummary res" where
  "round_time_summary round_times =
     (if round_times = [] then Ok \<lparr> rts_min = 0, rts_p50 = 0, rts_p95 = 0, rts_max = 0 \<rparr>
      else
        let xs = sort round_times in
        bind_res (idx xs 0) (\<lambda>lo.
        bind_res (percentile xs 50) (\<lambda>p50.
        bind_res (percentile xs 95) (\<lambda>p95.
        bind_res (idx xs (length xs - 1)) (\<lambda>hi.
        Ok \<lparr> rts_min = lo, rts_p50 = p50, rts_p95 = p95, rts_max = hi \<rparr>)))))"

section \<open>Correctness of the bookkeeping\<close>

lemma round_bytes_Ok_iff:
  "index + length lens \<le> length rs \<Longrightarrow>
   round_bytes lens rs index sofar = Ok n \<longleftrightarrow>
     (\<forall>i < length lens. rs ! (index + i) = Some (Ok (lens ! i))) \<and> n = sofar + sum_list lens"
proof (induction lens arbitrary: index sofar)
  case (Cons len lens)
  have "(\<forall>i < length (len # lens). rs ! (index + i) = Some (Ok ((len # lens) ! i))) \<longleftrightarrow>
      rs ! index = Some (Ok len) \<and> (\<forall>i < length lens. rs ! (index + 1 + i) = Some (Ok (lens ! i)))"
    by (auto simp: less_Suc_eq_0_disj)
  moreover have "index < length rs" "index + 1 + length lens \<le> length rs" using Cons(2) by simp_all
  ultimately show ?case
    using Cons(1) [of "index + 1" "sofar + len"]
    by (cases "rs ! index"; cases "the (rs ! index)") (auto simp: idx_def)
qed auto

lemma receive_packets_bounds:
  assumes "receive_packets recv expected_packets received w = (Ok n, w')" "received \<le> expected_packets"
  shows "received \<le> n \<and> n \<le> expected_packets"
  using assms
proof (induction recv expected_packets received w rule: receive_packets.induct)
  case (1 recv expected_packets received w)
  show ?case
  proof (cases "received < expected_packets")
    case True
    then show ?thesis
      using 1 by (subst (asm) (2) receive_packets.simps) (fastforce split: prod.splits res.splits if_splits)
  next
    case False
    with 1(2,3) show ?thesis by (subst (asm) receive_packets.simps) auto
  qed
qed

lemma rank_bounds:
  fixes m :: nat
  assumes "0 < m"
  shows "m \<le> 100 * Suc ((m + 99) div 100 - 1)" "100 * ((m + 99) div 100 - 1) < m"
proof -
  have "100 * ((m + 99) div 100) \<le> m + 99" "m + 99 < 100 * ((m + 99) div 100) + 100" "0 < (m + 99) div 100"
    using assms div_mult_mod_eq [of "m + 99" 100] mod_less_divisor [of 100 "m + 99"] by linarith+
  moreover obtain q where "(m + 99) div 100 = Suc q" using calculation(3) by (cases "(m + 99) div 100") auto
  ultimately show "m \<le> 100 * Suc ((m + 99) div 100 - 1)" "100 * ((m + 99) div 100 - 1) < m" by simp_all
qed

lemma sorted_rank:
  assumes "sorted xs" "r < length xs"
  shows "Suc r \<le> count_if (\<lambda>x. x \<le> xs ! r) xs" "count_if (\<lambda>x. x < xs ! r) xs \<le> r"
proof -
  have "count_if (\<lambda>x. x \<le> xs ! r) (take (Suc r) xs) = length (take (Suc r) xs)"
    unfolding count_if_full_iff using assms by (simp add: sorted_nth_mono)
  then show "Suc r \<le> count_if (\<lambda>x. x \<le> xs ! r) xs"
    using assms(2) count_if_append [of _ "take (Suc r) xs" "drop (Suc r) xs"] by simp
  have "count_if (\<lambda>x. x < xs ! r) (drop r xs) = 0"
    using assms by (auto simp: count_if_zero_iff not_less intro!: sorted_nth_mono)
  then have "count_if (\<lambda>x. x < xs ! r) xs = count_if (\<lambda>x. x < xs ! r) (take r xs)"
    using count_if_append [of "\<lambda>x. x < xs ! r" "take r xs" "drop r xs"] by simp
  then show "count_if (\<lambda>x. x < xs ! r) xs \<le> r"
    using count_if_le [of "\<lambda>x. x < xs ! r" "take r xs"] assms(2) by simp
qed

text \<open>The nearest rank: the smallest value that at least \<open>p\<close> percent of the values do not exceed.\<close>

lemma percentile_nearest_rank:
  assumes "sorted xs" "xs \<noteq> []" "0 < p" "p \<le> 100" "length xs * p + 99 \<le> usize_max"
  shows "\<exists>v. percentile xs p = Ok v \<and> v \<in> set xs \<and>
    p * length xs \<le> 100 * count_if (\<lambda>x. x \<le> v) xs \<and> 100 * count_if (\<lambda>x. x < v) xs < p * length xs"
proof -
  let ?r = "(length xs * p + 99) div 100 - 1"
  have pos: "0 < length xs * p" using assms(2,3) by simp
  then have r: "p * length xs \<le> 100 * Suc ?r" "100 * ?r < p * length xs"
    using rank_bounds [OF pos] by (simp_all only: mult.commute [of p])
  have "p * length xs \<le> 100 * length xs" using assms(4) by simp
  with r have lt: "?r < length xs" by linarith
  then have "percentile xs p = Ok (xs ! ?r)"
    using min_absorb2 [OF assms(5)] min_absorb1 [of ?r "length xs - 1"] by (simp add: percentile_def Let_def idx_def)
  then show ?thesis using lt r sorted_rank [OF assms(1) lt] by (intro exI [of _ "xs ! ?r"]) auto
qed

text \<open>The summary is in order, and its values are round times.\<close>

lemma percentile_nth:
  assumes "xs \<noteq> []"
  shows "percentile xs p = Ok (xs ! min (min usize_max (length xs * p + 99) div 100 - 1) (length xs - 1))"
  using assms by (simp add: percentile_def Let_def idx_def min_less_iff_disj)

lemma round_time_summary_ordered:
  assumes "round_times \<noteq> []"
  shows "\<exists>s. round_time_summary round_times = Ok s \<and>
    rts_min s \<le> rts_p50 s \<and> rts_p50 s \<le> rts_p95 s \<and> rts_p95 s \<le> rts_max s \<and>
    {rts_min s, rts_p50 s, rts_p95 s, rts_max s} \<subseteq> set round_times \<and>
    (\<forall>t \<in> set round_times. rts_min s \<le> t \<and> t \<le> rts_max s)"
proof -
  define xs where "xs = sort round_times"
  have xs: "sorted xs" "set xs = set round_times" "xs \<noteq> []"
    using assms by (simp_all add: xs_def) (metis length_sort length_0_conv)
  define rank where "rank p = min (min usize_max (length xs * p + 99) div 100 - 1) (length xs - 1)" for p
  have rank: "rank p < length xs" for p using xs(3) by (simp add: rank_def min_less_iff_disj)
  have "length xs * 50 + 99 \<le> length xs * 95 + 99" by simp
  then have "min usize_max (length xs * 50 + 99) \<le> min usize_max (length xs * 95 + 99)" by (simp add: min_def)
  then have "rank 50 \<le> rank 95" unfolding rank_def by (intro min.mono diff_le_mono div_le_mono) simp_all
  then have "xs ! rank 50 \<le> xs ! rank 95" using xs(1) rank by (simp add: sorted_nth_mono)
  moreover have "round_time_summary round_times =
      Ok \<lparr> rts_min = xs ! 0, rts_p50 = xs ! rank 50, rts_p95 = xs ! rank 95, rts_max = xs ! (length xs - 1) \<rparr>"
    using assms xs(3) by (simp add: round_time_summary_def percentile_nth rank_def idx_def flip: xs_def)
  moreover have ends: "xs ! 0 \<le> xs ! i \<and> xs ! i \<le> xs ! (length xs - 1)" if "i < length xs" for i
    using xs(1) that by (simp add: sorted_nth_mono)
  moreover have "xs ! 0 \<in> set round_times" "xs ! rank p \<in> set round_times" "xs ! (length xs - 1) \<in> set round_times" for p
    using rank xs(3) by (simp_all flip: xs(2))
  moreover have "\<forall>t \<in> set round_times. xs ! 0 \<le> t \<and> t \<le> xs ! (length xs - 1)"
    using ends by (metis in_set_conv_nth xs(2))
  ultimately show ?thesis using ends [OF rank] by simp
qed

text \<open>Every packet of every round has a payload of its own.\<close>

lemma of_char_digit: "n < 10 \<Longrightarrow> of_char (char_of (48 + n :: nat) :: char) = 48 + n"
  by simp

lemma decimal_digits: "c \<in> set (decimal n) \<Longrightarrow> 48 \<le> (of_char c :: nat)"
proof (induction n rule: decimal.induct)
  case (1 n)
  then show ?case by (subst (asm) (2) decimal.simps) (auto split: if_splits)
qed

lemma decimal_value: "foldl (\<lambda>v c. 10 * v + (of_char c - 48)) 0 (decimal n) = n"
proof (induction n rule: decimal.induct)
  case (1 n)
  then show ?case by (subst decimal.simps) (simp add: of_char_digit)
qed

lemma decimal_inj: "decimal m = decimal n \<longleftrightarrow> m = n"
  by (metis decimal_value)

lemma decimal_delimited:
  assumes "decimal m @ CHR 0x20 # xs = decimal n @ CHR 0x20 # ys"
  shows "m = n \<and> xs = ys"
proof -
  have "takeWhile (\<lambda>c. c \<noteq> CHR 0x20) (decimal k @ CHR 0x20 # zs) = decimal k" for k zs
    by (subst takeWhile_append2) (auto dest: decimal_digits)
  then have "decimal m = decimal n" using assms by metis
  with assms show ?thesis by (simp add: decimal_inj)
qed

lemma round_payload_inj: "round_payload rnd index = round_payload rnd' index' \<longleftrightarrow> rnd = rnd' \<and> index = index'"
  using decimal_delimited [of rnd "''packet='' @ decimal index" rnd' "''packet='' @ decimal index'"]
  by (auto simp: round_payload_def decimal_inj)

end
