(* ===== verification/Perf_Smoke.thy ===== *)
theory Perf_Smoke
  imports Live_Examples
begin

text \<open>
  The example programs around the packets of \<open>Live_Examples\<close>: when a live example counts as skipped, the device they
  build, the UDP sender and the receiving loop (\<^verbatim>\<open>src/examples/common/mod.rs\<close>, \<^verbatim>\<open>src/examples/send_many.rs\<close>, \<^verbatim>\<open>src/examples/recv_manual_start.rs\<close>), the command
  line, the rounds and the totals of the smoke test (\<^verbatim>\<open>src/examples/perf_smoke.rs\<close>).

  Sockets, threads, the clock and the calls of the device, awaited to their end, are functions on a world.  What is
  printed is returned where it is computed, and left out otherwise.
\<close>

section \<open>Skipping a live example\<close>

definition to_ascii_lowercase :: "char \<Rightarrow> char" where
  "to_ascii_lowercase c = (if 65 \<le> (of_char c :: nat) \<and> (of_char c :: nat) \<le> 90 then char_of ((of_char c :: nat) + 32) else c)"

text \<open>\<open>var\<close> is what \<^verbatim>\<open>std::env::var\<close> returns for \<^verbatim>\<open>TUN_RS_URING_REQUIRE_LIVE\<close>.\<close>

definition live_examples_are_required :: "string option \<Rightarrow> bool" where
  "live_examples_are_required var =
     (case var of None \<Rightarrow> False
      | Some value \<Rightarrow> value \<noteq> '''' \<and> value \<noteq> ''0'' \<and> map to_ascii_lowercase value \<noteq> ''false'')"

definition should_skip_live_example :: "string option \<Rightarrow> io_error \<Rightarrow> bool" where
  "should_skip_live_example var error =
     (\<not> live_examples_are_required var \<and>
      ((case raw_os_error error of Some c \<Rightarrow> c \<in> {EPERM, EACCES, ENOSYS, ENOENT, ENODEV} | None \<Rightarrow> False) \<or>
       kind error \<in> {PermissionDenied, Unsupported}))"

definition finish_live_example :: "string option \<Rightarrow> unit res \<Rightarrow> unit res" where
  "finish_live_example var result =
     (case result of Err error \<Rightarrow> if should_skip_live_example var error then Ok () else Err error | r \<Rightarrow> r)"

text \<open>
  Only what the host refuses is skipped.  A wrong payload, byte count or buffer count, a stopped or faulted RX and a
  rejected configuration fail the example, and when live examples are required everything does.
\<close>

lemma finish_live_example_reports:
  "finish_live_example var (Err (Custom OtherKind m)) = Err (Custom OtherKind m)"
  "finish_live_example var (Err rx_stopped) = Err rx_stopped"
  "finish_live_example var (Err rx_buffers_exhausted) = Err rx_buffers_exhausted"
  "finish_live_example var (Err (invalid_config field m)) = Err (invalid_config field m)"
  "live_examples_are_required var \<Longrightarrow> finish_live_example var r = r"
  by (auto simp: finish_live_example_def should_skip_live_example_def error_defs errno_defs decode_error_kind_def split: res.split)

lemma finish_live_example_skips:
  "finish_live_example None (Err (Os EPERM)) = Ok ()" "finish_live_example (Some ''FALSE'') (Err no_async_backend) = Ok ()"
  "finish_live_example (Some ''1'') (Err (Os EPERM)) = Err (Os EPERM)"
  by code_simp+

section \<open>The device of the examples\<close>

definition manual_start_config :: UringDeviceConfig where
  "manual_start_config = with_rx_buffer_count 128 (with_rx_start_mode ManualStart default_config)"

text \<open>\<open>build_sync\<close> is \<^verbatim>\<open>DeviceBuilder::new().ipv4(...).build_sync()\<close>.\<close>

definition build_manual_start_device ::
    "('r \<times> 't \<times> 'd \<Rightarrow> i32 res \<times> 'r \<times> 't \<times> 'd) \<Rightarrow> ('a, 'b, 'r, 't, 'd) backend_methods \<Rightarrow> 'r \<times> 't \<times> 'd \<Rightarrow>
     (BackendDevice \<times> 'a RxDriverThread \<times> TxDriverThread, 'r \<times> 't \<times> 'd) call" where
  "build_manual_start_device build_sync be s =
     andthen (Some (build_sync s)) (\<lambda>fd s. device_new be fd manual_start_config s)"

lemma manual_start_config_ok: "config_ok manual_start_config"
proof -
  have "(2 :: nat) ^ 7 = 128" by simp
  then have "\<exists>k \<le> 15. (2 :: nat) ^ k = 128" by (intro exI [of _ 7]) simp
  then show ?thesis using config_ok_default by (simp add: manual_start_config_def config_ok_def with_defs)
qed

lemma build_manual_start_device_config:
  assumes "build_manual_start_device build_sync (backend_methods_of b denv renv tenv) s = Some (Ok (dev, threads), s')"
  shows "core_config_of (be_core dev) = manual_start_config"
  using assms
  by (cases b) (auto simp: build_manual_start_device_def device_new_def backend_defs andthen_Ok_iff dest: backend_new_config)

section \<open>The command line\<close>

text \<open>\<^verbatim>\<open>usize::from_str\<close>: an optional plus sign and decimal digits; a value that does not fit is an error.\<close>

fun parse_digits :: "string \<Rightarrow> nat \<Rightarrow> nat option" where
  "parse_digits [] acc = Some acc"
| "parse_digits (c # cs) acc =
     (if 48 \<le> (of_char c :: nat) \<and> (of_char c :: nat) \<le> 57
      then let v = 10 * acc + (of_char c - 48) in if v \<le> usize_max then parse_digits cs v else None
      else None)"

definition parse_usize :: "string \<Rightarrow> nat option" where
  "parse_usize s =
     (let digits = (if s \<noteq> [] \<and> hd s = CHR ''+'' then tl s else s) in if digits = [] then None else parse_digits digits 0)"

definition parse_usize_arg :: "string list \<Rightarrow> string \<Rightarrow> usize \<Rightarrow> usize" where
  "parse_usize_arg args flag otherwise =
     (case dropWhile (\<lambda>arg. arg \<noteq> flag) args of
        _ # value # _ \<Rightarrow> (case parse_usize value of Some n \<Rightarrow> n | None \<Rightarrow> otherwise)
      | _ \<Rightarrow> otherwise)"

lemma parse_digits_append:
  "parse_digits (xs @ ys) acc = Option.bind (parse_digits xs acc) (parse_digits ys)"
  by (induction xs arbitrary: acc) (simp_all add: Let_def)

lemma parse_digits_decimal: "n \<le> usize_max \<Longrightarrow> parse_digits (decimal n) 0 = Some n"
proof (induction n rule: decimal.induct)
  case (1 n)
  have *: "10 * (n div 10) + n mod 10 = n" by simp
  show ?case
  proof (cases "n < 10")
    case True
    then show ?thesis using 1(2) by (subst decimal.simps) (simp add: of_char_digit)
  next
    case False
    then have "parse_digits (decimal (n div 10)) 0 = Some (n div 10)" using 1 by simp
    then show ?thesis using False 1(2) *
      by (subst decimal.simps) (simp add: parse_digits_append of_char_digit Let_def)
  qed
qed

text \<open>Parsing what is printed gives the number back, for every number of 64 bits.\<close>

lemma parse_usize_decimal:
  assumes "n \<le> usize_max"
  shows "parse_usize (decimal n) = Some n"
proof -
  have "decimal n \<noteq> []" by (subst decimal.simps) simp
  moreover from this have "48 \<le> (of_char (hd (decimal n)) :: nat)" by (intro decimal_digits [of _ n]) simp
  then have "hd (decimal n) \<noteq> CHR ''+''" by auto
  ultimately show ?thesis using parse_digits_decimal [OF assms] by (simp add: parse_usize_def)
qed

lemma parse_usize_arg_given:
  assumes "flag \<notin> set before" "n \<le> usize_max"
  shows "parse_usize_arg (before @ flag # decimal n # after) flag otherwise = n"
proof -
  have "dropWhile (\<lambda>arg. arg \<noteq> flag) (before @ flag # decimal n # after) = flag # decimal n # after"
    using assms(1) by (induction before) auto
  then show ?thesis by (simp add: parse_usize_arg_def parse_usize_decimal [OF assms(2)])
qed

lemma parse_usize_arg_absent:
  assumes "flag \<notin> set args"
  shows "parse_usize_arg args flag otherwise = otherwise"
proof -
  have "dropWhile (\<lambda>arg. arg \<noteq> flag) args = []" using assms by auto
  then show ?thesis by (simp only: parse_usize_arg_def list.case)
qed

section \<open>The UDP sender\<close>

record 'w sender_env =
  se_bind :: "'w \<Rightarrow> unit res \<times> 'w"
  se_stop :: "'w \<Rightarrow> bool \<times> 'w"
  se_now :: "'w \<Rightarrow> nat \<times> 'w"
  se_send_to :: "bytes \<Rightarrow> 'w \<Rightarrow> usize res \<times> 'w"
  se_sleep :: "nat \<Rightarrow> 'w \<Rightarrow> 'w"

partial_function (option) udp_sender_loop :: "'w sender_env \<Rightarrow> bytes \<Rightarrow> nat \<Rightarrow> nat \<Rightarrow> 'w \<Rightarrow> (unit, 'w) call" where
  "udp_sender_loop env payload interval until w =
     (let (stop, w) = se_stop env w in
      if stop then Some (Ok (), w)
      else let (now, w) = se_now env w in
        if now < until then udp_sender_loop env payload interval until (se_sleep env interval (snd (se_send_to env payload w)))
        else Some (Ok (), w))"

declare udp_sender_loop.simps [code]

text \<open>The thread of \<^verbatim>\<open>spawn_ipv4_udp_sender\<close>.\<close>

definition ipv4_udp_sender :: "'w sender_env \<Rightarrow> bytes \<Rightarrow> nat \<Rightarrow> nat \<Rightarrow> 'w \<Rightarrow> (unit, 'w) call" where
  "ipv4_udp_sender env payload interval duration w =
     andthen (Some (se_bind env w)) (\<lambda>_ w.
       let (now, w) = se_now env w in udp_sender_loop env payload interval (now + duration) w)"

text \<open>
  The sender ends by itself, also when nobody stops it and every send fails: it only needs a clock that the sleeps
  advance and the other calls do not turn back.
\<close>

lemma udp_sender_loop_returns:
  assumes now: "\<And>w. fst (se_now env w) = clock w \<and> clock w \<le> clock (snd (se_now env w))"
    and calls: "\<And>w. clock w \<le> clock (snd (se_stop env w))" "\<And>w. clock w \<le> clock (snd (se_send_to env payload w))"
    and sleep: "\<And>w. clock w < clock (se_sleep env interval w)"
  shows "\<exists>w'. udp_sender_loop env payload interval until w = Some (Ok (), w')"
proof (induction "until - clock w" arbitrary: w rule: less_induct)
  case less
  obtain stop w1 where 1: "se_stop env w = (stop, w1)" by (cases "se_stop env w")
  obtain t w2 where 2: "se_now env w1 = (t, w2)" by (cases "se_now env w1")
  let ?w = "se_sleep env interval (snd (se_send_to env payload w2))"
  have le: "clock w \<le> clock w1" "t = clock w1" "clock w1 \<le> clock w2" using calls(1) [of w] now [of w1] 1 2 by simp_all
  have "clock w2 < clock ?w" using calls(2) [of w2] sleep [of "snd (se_send_to env payload w2)"] by simp
  then have "\<exists>w'. udp_sender_loop env payload interval until ?w = Some (Ok (), w')" if "t < until"
    using less [of ?w] le that by simp
  then show ?case using 1 2 by (subst udp_sender_loop.simps) simp
qed

section \<open>Receiving both payloads\<close>

text \<open>The loop at the end of \<^verbatim>\<open>send_many.rs\<close>; \<open>recv\<close> returns the bytes of one datagram.\<close>

partial_function (option) receive_both :: "('w \<Rightarrow> bytes res \<times> 'w) \<Rightarrow> bytes \<Rightarrow> bytes \<Rightarrow> bool \<Rightarrow> bool \<Rightarrow> 'w \<Rightarrow> (unit, 'w) call" where
  "receive_both recv first second seen_first seen_second w =
     (if seen_first \<and> seen_second then Some (Ok (), w)
      else andthen (Some (recv w)) (\<lambda>payload w.
        if payload = first then receive_both recv first second True seen_second w
        else if payload = second then receive_both recv first second seen_first True w
        else Some (Err (Custom OtherKind ''received unexpected payload from kernel socket''), w)))"

declare receive_both.simps [code]

text \<open>When the loop succeeds the socket has delivered both payloads and nothing else.\<close>

lemma receive_both_delivered:
  fixes recv :: "'w \<Rightarrow> bytes res \<times> 'w" and log :: "'w \<Rightarrow> bytes list"
  assumes recv: "\<And>w p w'. recv w = (Ok p, w') \<Longrightarrow> log w' = log w @ [p]"
    and run: "receive_both recv first second a b w = Some (Ok (), w')"
  shows "\<exists>ps. log w' = log w @ ps \<and> set ps \<subseteq> {first, second} \<and> (a \<or> first \<in> set ps) \<and> (b \<or> second \<in> set ps)"
proof -
  let ?P = "\<lambda>r f s a b w y. r = recv \<longrightarrow> f = first \<longrightarrow> s = second \<longrightarrow> fst y = Ok () \<longrightarrow>
    (\<exists>ps. log (snd y) = log w @ ps \<and> set ps \<subseteq> {first, second} \<and> (a \<or> first \<in> set ps) \<and> (b \<or> second \<in> set ps))"
  have "?P recv first second a b w (Ok (), w')"
  proof (rule receive_both.raw_induct [where P = ?P, OF _ run], intro impI)
    fix cont :: "('w \<Rightarrow> bytes res \<times> 'w) \<Rightarrow> bytes \<Rightarrow> bytes \<Rightarrow> bool \<Rightarrow> bool \<Rightarrow> 'w \<Rightarrow> (unit, 'w) call"
    fix r f s a b w y
    assume IH: "\<And>r f s a b w y. cont r f s a b w = Some y \<Longrightarrow> ?P r f s a b w y"
      and y: "(if a \<and> b then Some (Ok (), w)
        else andthen (Some (r w)) (\<lambda>payload w.
          if payload = f then cont r f s True b w
          else if payload = s then cont r f s a True w
          else Some (Err (Custom OtherKind ''received unexpected payload from kernel socket''), w))) = Some y"
      and eq: "r = recv" "f = first" "s = second" "fst y = Ok ()"
    show "\<exists>ps. log (snd y) = log w @ ps \<and> set ps \<subseteq> {first, second} \<and> (a \<or> first \<in> set ps) \<and> (b \<or> second \<in> set ps)"
    proof (cases "a \<and> b")
      case True
      then show ?thesis using y by auto
    next
      case False
      then obtain p w1 where p: "recv w = (Ok p, w1)"
        and rest: "(if p = first then cont recv first second True b w1
          else if p = second then cont recv first second a True w1
          else Some (Err (Custom OtherKind ''received unexpected payload from kernel socket''), w1)) = Some y"
        using y eq by (cases "recv w"; cases "fst (recv w)") auto
      have l: "log w1 = log w @ [p]" by (rule recv [OF p])
      have "p = first \<or> p = second" using rest eq(4) by (auto split: if_splits)
      then obtain a' b' where c: "cont recv first second a' b' w1 = Some y"
        "a' \<longrightarrow> a \<or> p = first" "b' \<longrightarrow> b \<or> p = second" using rest by (auto split: if_splits)
      then obtain ps where "log (snd y) = log w1 @ ps \<and> set ps \<subseteq> {first, second} \<and> (a' \<or> first \<in> set ps) \<and> (b' \<or> second \<in> set ps)"
        using IH [OF c(1)] eq(4) by blast
      then show ?thesis
        using l c(2,3) \<open>p = first \<or> p = second\<close> by (intro exI [of _ "p # ps"]) auto
    qed
  qed
  then show ?thesis by simp
qed

section \<open>A round of the smoke test\<close>

record RoundStats =
  rs_packets :: usize
  rs_received_packets :: usize
  rs_bytes :: usize
  rs_elapsed :: nat

text \<open>
  What a round uses: the socket and the receiver thread around \<open>receive_packets\<close>, the clock, and \<^verbatim>\<open>send_many\<close>, awaited:
  it returns the buffers and the results.  The other fields open the device and the socket.
\<close>

record 'w round_env =
  re_build_device :: "'w \<Rightarrow> unit res \<times> 'w"
  re_bind :: "'w \<Rightarrow> unit res \<times> 'w"
  re_setsockopt :: "i32 \<Rightarrow> 'w \<Rightarrow> unit res \<times> 'w"
  re_set_read_timeout :: "'w \<Rightarrow> unit res \<times> 'w"
  re_try_clone :: "'w \<Rightarrow> unit res \<times> 'w"
  re_spawn_receiver :: "usize \<Rightarrow> 'w \<Rightarrow> 'w"
  re_now :: "'w \<Rightarrow> nat \<times> 'w"
  re_send_many :: "bytes list \<Rightarrow> usize res option list \<Rightarrow> nat \<Rightarrow> bool \<Rightarrow> 'w \<Rightarrow> (bytes list \<times> usize res option list) \<times> 'w"
  re_join :: "'w \<Rightarrow> usize res option \<times> 'w"

definition set_recv_buffer_size :: "'w round_env \<Rightarrow> usize \<Rightarrow> 'w \<Rightarrow> unit res \<times> 'w" where
  "set_recv_buffer_size env len w =
     (if len > 2 ^ 31 - 1 then (Err (Custom InvalidInput ''recv buffer is too large''), w) else re_setsockopt env (int len) w)"

definition run_round :: "'w round_env \<Rightarrow> usize \<Rightarrow> usize \<Rightarrow> u16 \<Rightarrow> bool \<Rightarrow> 'w \<Rightarrow> RoundStats res \<times> 'w" where
  "run_round env rnd batch_size dst_port keep w =
     then_try (round_batch rnd batch_size dst_port [0 ..< batch_size], w) (\<lambda>(batch, expected_lens) w.
     then_try (re_try_clone env w) (\<lambda>_ w.
       let w = re_spawn_receiver env batch_size w;
           (start, w) = re_now env w;
           ((returned, filled), w) = re_send_many env batch (replicate (length batch) None) (3 * 10 ^ 9) keep w
       in if length returned \<noteq> batch_size
          then (Err (Custom OtherKind ''send_many returned an unexpected buffer count''), w)
          else then_try (round_bytes expected_lens filled 0 0, w) (\<lambda>bytes w.
            let (joined, w) = re_join env w in
            then_try (case joined of None \<Rightarrow> Err (Custom OtherKind ''receiver thread panicked'') | Some r \<Rightarrow> r, w) (\<lambda>received w.
              let (now, w) = re_now env w in
              (Ok \<lparr> rs_packets = batch_size, rs_received_packets = received, rs_bytes = bytes, rs_elapsed = now - start \<rparr>, w)))))"

text \<open>The warm-up rounds, and the measured ones with their totals.\<close>

fun warm_up :: "'w round_env \<Rightarrow> usize \<Rightarrow> u16 \<Rightarrow> bool \<Rightarrow> usize list \<Rightarrow> 'w \<Rightarrow> unit res \<times> 'w" where
  "warm_up env batch_size dst_port keep [] w = (Ok (), w)"
| "warm_up env batch_size dst_port keep (rnd # rounds) w =
     then_try (run_round env rnd batch_size dst_port keep w) (\<lambda>_ w. warm_up env batch_size dst_port keep rounds w)"

fun measure_rounds :: "'w round_env \<Rightarrow> usize \<Rightarrow> u16 \<Rightarrow> bool \<Rightarrow> usize list \<Rightarrow> usize \<times> usize \<times> nat list \<Rightarrow> 'w \<Rightarrow>
    (usize \<times> usize \<times> nat list) res \<times> 'w" where
  "measure_rounds env batch_size dst_port keep [] totals w = (Ok totals, w)"
| "measure_rounds env batch_size dst_port keep (rnd # rounds) (total_packets, total_bytes, round_times) w =
     then_try (run_round env rnd batch_size dst_port keep w) (\<lambda>stats w.
       measure_rounds env batch_size dst_port keep rounds
         (total_packets + rs_packets stats, total_bytes + rs_bytes stats, round_times @ [rs_elapsed stats]) w)"

text \<open>\<^verbatim>\<open>run\<close>: the totals and the summary it prints.\<close>

definition perf_run :: "'w round_env \<Rightarrow> string list \<Rightarrow> 'w \<Rightarrow> (usize \<times> usize \<times> RoundTimeSummary) res \<times> 'w" where
  "perf_run env args w =
     (let rounds = parse_usize_arg args ''--rounds'' 4;
          warmup_rounds = parse_usize_arg args ''--warmup-rounds'' 1;
          batch_size = parse_usize_arg args ''--batch-size'' 64;
          keep = (''--keep-order'' \<in> set args)
      in then_try (re_build_device env w) (\<lambda>_ w.
         then_try (re_bind env w) (\<lambda>_ w.
         then_try (set_recv_buffer_size env (16 * 1024 * 1024) w) (\<lambda>_ w.
         then_try (re_set_read_timeout env w) (\<lambda>_ w.
         then_try (warm_up env batch_size 18281 keep [0 ..< warmup_rounds] w) (\<lambda>_ w.
         then_try (measure_rounds env batch_size 18281 keep
             (map ((+) warmup_rounds) [0 ..< rounds]) (0, 0, []) w) (\<lambda>(total_packets, total_bytes, round_times) w.
         then_try (round_time_summary round_times, w) (\<lambda>round_summary w.
           (Ok (total_packets, total_bytes, round_summary), w)))))))))"

lemma round_bytes_sum: "round_bytes lens rs index sofar = Ok n \<Longrightarrow> n = sofar + sum_list lens"
proof (induction lens arbitrary: index sofar)
  case (Cons len lens)
  then show ?case by (fastforce simp: bind_res_Ok_iff split: if_splits)
qed simp

lemma round_packet_length: "round_packet rnd batch_size dst_port index = Ok p \<Longrightarrow> 28 \<le> length p"
  by (auto simp: round_packet_def build_ipv4_udp_packet_eq)

lemma round_batch_lens:
  "round_batch rnd batch_size dst_port indices = Ok (batch, lens) \<Longrightarrow>
   lens = map length batch \<and> length batch = length indices \<and> 28 * length indices \<le> sum_list lens"
proof (induction indices arbitrary: batch lens)
  case (Cons index indices)
  then show ?case using round_packet_length by (fastforce simp: bind_res_Ok_iff)
qed simp

text \<open>A round that succeeds has sent every packet of its batch whole.\<close>

lemma run_round_sent:
  assumes "run_round env rnd batch_size dst_port keep w = (Ok stats, w')"
  shows "rs_packets stats = batch_size \<and>
    (\<exists>batch. round_batch rnd batch_size dst_port [0 ..< batch_size] = Ok (batch, map length batch) \<and>
       rs_bytes stats = sum_list (map length batch) \<and> 28 * batch_size \<le> rs_bytes stats)"
proof -
  obtain batch lens w1 where b: "round_batch rnd batch_size dst_port [0 ..< batch_size] = Ok (batch, lens)"
    and rest: "then_try (re_try_clone env w) (\<lambda>_ w.
       let w = re_spawn_receiver env batch_size w;
           (start, w) = re_now env w;
           ((returned, filled), w) = re_send_many env batch (replicate (length batch) None) (3 * 10 ^ 9) keep w
       in if length returned \<noteq> batch_size
          then (Err (Custom OtherKind ''send_many returned an unexpected buffer count''), w)
          else then_try (round_bytes lens filled 0 0, w) (\<lambda>bytes w.
            let (joined, w) = re_join env w in
            then_try (case joined of None \<Rightarrow> Err (Custom OtherKind ''receiver thread panicked'') | Some r \<Rightarrow> r, w) (\<lambda>received w.
              let (now, w) = re_now env w in
              (Ok \<lparr> rs_packets = batch_size, rs_received_packets = received, rs_bytes = bytes, rs_elapsed = now - start \<rparr>, w)))) = (Ok stats, w1)"
    using assms unfolding run_round_def then_try_Ok_iff [of "(_, w)"] by auto
  have "rs_packets stats = batch_size" "\<exists>filled. round_bytes lens filled 0 0 = Ok (rs_bytes stats)"
    using rest by (auto simp: then_try_Ok_iff Let_def split_beta split: if_splits)
  then show ?thesis using round_batch_lens [OF b] b round_bytes_sum by fastforce
qed

lemma measure_rounds_totals:
  assumes "measure_rounds env batch_size dst_port keep rounds (p, b, ts) w = (Ok (p', b', ts'), w')"
  shows "p' = p + length rounds * batch_size \<and> b + 28 * (length rounds * batch_size) \<le> b' \<and> length ts' = length ts + length rounds"
  using assms
proof (induction rounds arbitrary: p b ts w)
  case (Cons rnd rounds)
  then obtain stats w1 where r: "run_round env rnd batch_size dst_port keep w = (Ok stats, w1)"
    and rest: "measure_rounds env batch_size dst_port keep rounds (p + rs_packets stats, b + rs_bytes stats, ts @ [rs_elapsed stats]) w1 =
      (Ok (p', b', ts'), w')"
    by (auto simp: then_try_Ok_iff)
  show ?case using Cons.IH [OF rest] run_round_sent [OF r] by (auto simp: algebra_simps)
qed simp

text \<open>
  What the smoke test reports is what it sent: when it succeeds, the packets are the measured rounds times the batch size,
  warm-up rounds not counted, the bytes are at least their headers, and the summary covers one time per measured round.
\<close>

lemma perf_run_reports:
  assumes "perf_run env args w = (Ok (total_packets, total_bytes, summary), w')"
  shows "total_packets = parse_usize_arg args ''--rounds'' 4 * parse_usize_arg args ''--batch-size'' 64 \<and>
    28 * total_packets \<le> total_bytes \<and>
    (\<exists>times. round_time_summary times = Ok summary \<and> length times = parse_usize_arg args ''--rounds'' 4)"
proof -
  obtain times w1 w2 where m: "measure_rounds env (parse_usize_arg args ''--batch-size'' 64) 18281 (''--keep-order'' \<in> set args)
      (map ((+) (parse_usize_arg args ''--warmup-rounds'' 1)) [0 ..< parse_usize_arg args ''--rounds'' 4]) (0, 0, []) w1 =
      (Ok (total_packets, total_bytes, times), w2)"
    and t: "round_time_summary times = Ok summary"
    using assms by (auto simp: perf_run_def then_try_Ok_iff Let_def)
  show ?thesis using measure_rounds_totals [OF m] t by auto
qed

section \<open>The two small examples\<close>

record 'w example_env =
  xe_build_device :: "'w \<Rightarrow> unit res \<times> 'w"
  xe_start_rx :: "'w \<Rightarrow> unit res \<times> 'w"
  xe_spawn_sender :: "bytes \<Rightarrow> 'w \<Rightarrow> 'w"
  xe_recv :: "'w \<Rightarrow> bytes res \<times> 'w"
  xe_stop_sender :: "'w \<Rightarrow> 'w"
  xe_join_sender :: "'w \<Rightarrow> unit res option \<times> 'w"
  xe_stop_rx :: "'w \<Rightarrow> unit res \<times> 'w"
  xe_bind :: "'w \<Rightarrow> unit res \<times> 'w"
  xe_set_read_timeout :: "'w \<Rightarrow> unit res \<times> 'w"
  xe_send_many :: "bytes list \<Rightarrow> usize res option list \<Rightarrow> nat \<Rightarrow> bool \<Rightarrow> 'w \<Rightarrow> (bytes list \<times> usize res option list) \<times> 'w"
  xe_socket_recv :: "'w \<Rightarrow> bytes res \<times> 'w"

text \<open>\<^verbatim>\<open>run\<close> of \<^verbatim>\<open>recv_manual_start.rs\<close>: the sender is stopped and joined also when \<^verbatim>\<open>recv\<close> failed.\<close>

definition recv_manual_start_run :: "'w example_env \<Rightarrow> 'w \<Rightarrow> unit res \<times> 'w" where
  "recv_manual_start_run env w =
     (let payload = string_bytes ''tun-rs-uring example recv'' in
      then_try (xe_build_device env w) (\<lambda>_ w.
      then_try (xe_start_rx env w) (\<lambda>_ w.
        let w = xe_spawn_sender env payload w;
            (received, w) = xe_recv env w;
            w = xe_stop_sender env w;
            (joined, w) = xe_join_sender env w
        in then_try (case joined of None \<Rightarrow> Panic | Some r \<Rightarrow> r, w) (\<lambda>_ w.
           then_try (received, w) (\<lambda>packet w.
           then_try (packet_has_ipv4_udp_payload packet payload, w) (\<lambda>found w.
             if \<not> found then (Err (Custom OtherKind ''received unexpected UDP payload''), w)
             else then_try (xe_stop_rx env w) (\<lambda>_ w. (Ok (), w))))))))"

lemma recv_manual_start_run_received:
  assumes "recv_manual_start_run env w = (Ok (), w')"
  shows "\<exists>v packet v'. xe_recv env v = (Ok packet, v') \<and>
    packet_has_ipv4_udp_payload packet (string_bytes ''tun-rs-uring example recv'') = Ok True"
proof -
  obtain v packet where "fst (xe_recv env v) = Ok packet" "packet_has_ipv4_udp_payload packet (string_bytes ''tun-rs-uring example recv'') = Ok True"
    using assms by (auto simp: recv_manual_start_run_def then_try_Ok_iff Let_def split_beta split: if_splits)
  then show ?thesis by (metis prod.collapse)
qed

text \<open>\<^verbatim>\<open>run\<close> of \<^verbatim>\<open>send_many.rs\<close>, with its check of the results.\<close>

fun check_results :: "usize list \<Rightarrow> usize res option list \<Rightarrow> nat \<Rightarrow> unit res" where
  "check_results [] rs index = Ok ()"
| "check_results (expected_len # lens) rs index =
     bind_res (idx rs index) (\<lambda>slot.
     bind_res (ok_or slot (Custom OtherKind ''missing send_many result'')) (\<lambda>r.
     bind_res r (\<lambda>actual.
       if actual \<noteq> expected_len then Err (Custom OtherKind ''unexpected send_many byte count'')
       else check_results lens rs (index + 1))))"

definition first_payload :: bytes where "first_payload = string_bytes ''example send_many first''"
definition second_payload :: bytes where "second_payload = string_bytes ''example send_many second''"

definition send_many_run :: "'w example_env \<Rightarrow> string list \<Rightarrow> 'w \<Rightarrow> (unit, 'w) call" where
  "send_many_run env args w =
     (let keep = (''--keep-order'' \<in> set args) in
      andthen (Some (xe_build_device env w)) (\<lambda>_ w.
      andthen (Some (xe_bind env w)) (\<lambda>_ w.
      andthen (Some (xe_set_read_timeout env w)) (\<lambda>_ w.
      andthen (Some (build_ipv4_udp_packet (10, 26, 1, 101) (10, 26, 1, 100) 40500 18180 first_payload, w)) (\<lambda>first_packet w.
      andthen (Some (build_ipv4_udp_packet (10, 26, 1, 101) (10, 26, 1, 100) 40501 18180 second_payload, w)) (\<lambda>second_packet w.
        let ((returned, filled), w) = xe_send_many env [first_packet, second_packet] [None, None] (3 * 10 ^ 9) keep w in
        if length returned \<noteq> 2 then Some (Panic, w)
        else andthen (Some (check_results [length first_packet, length second_packet] filled 0, w)) (\<lambda>_ w.
          receive_both (xe_socket_recv env) first_payload second_payload False False w)))))))"

text \<open>The example succeeds only if the kernel's socket received both payloads after the batch was sent, and nothing else.\<close>

lemma send_many_run_delivered:
  fixes log :: "'w \<Rightarrow> bytes list"
  assumes "\<And>w p w'. xe_socket_recv env w = (Ok p, w') \<Longrightarrow> log w' = log w @ [p]" "send_many_run env args w = Some (Ok (), w')"
  shows "\<exists>v ps. log w' = log v @ ps \<and> set ps = {first_payload, second_payload}"
proof -
  obtain v where "receive_both (xe_socket_recv env) first_payload second_payload False False v = Some (Ok (), w')"
    using assms(2) by (auto simp: send_many_run_def andthen_Ok_iff Let_def split_beta split: if_splits)
  from receive_both_delivered [where log = log, OF assms(1) this] obtain ps where
    "log w' = log v @ ps" "set ps \<subseteq> {first_payload, second_payload}" "first_payload \<in> set ps" "second_payload \<in> set ps"
    by auto
  then show ?thesis by (intro exI [of _ v] exI [of _ ps]) auto
qed

end
