(* ===== verification/Spec2Isabelle.thy ===== *)
theory Spec2Isabelle
  imports Gso_Correct Rx_Shutdown Rx_System Tx_System Tx_Thread Perf_Smoke
begin

text \<open>
  A verification library for \<^verbatim>\<open>tun-rs-uring\<close>, an asynchronous TUN device for Linux built on \<^verbatim>\<open>io_uring\<close>.

  \<^bold>\<open>The program.\<close>  A device (\<^verbatim>\<open>UringDevice\<close>, \<^verbatim>\<open>src/src/lib.rs\<close>) wraps a backend for an async runtime
  (\<^verbatim>\<open>src/src/backend\<close>) around a runtime-independent core (\<^verbatim>\<open>src/src/core\<close>).  The core owns two threads with
  an \<^verbatim>\<open>io_uring\<close> each.  The RX thread keeps one multishot read in flight; the kernel puts each packet
  into a buffer of a ring shared with the process, the thread queues it as a \<^verbatim>\<open>Packet\<close> and wakes the
  receiving task; dropping or detaching a packet gives its buffer back to the ring.  When the buffers run out
  RX faults, and an optional notifier resumes it after enough buffers came back.  The TX
  thread runs one batch of writes at a time for \<^verbatim>\<open>send_many\<close>: callers compete for a batch slot, the
  winner sends the thread a request with its buffers, and waits for the response; a deadline or
  dropping the call cancels the batch.  \<^verbatim>\<open>Packet\<close> also undoes generic segmentation offload: it
  parses the virtio header and splits one large TCP or UDP packet into segments.

  \<^bold>\<open>Conventions.\<close>  \<open>Uring_Prelude\<close> holds the machine integers, \<^verbatim>\<open>std::io::Error\<close>, the result type \<open>'a res\<close> with
  panics as values, slices whose accesses panic out of range, and shared list lemmas;
  \<open>Io_Error\<close> is \<^verbatim>\<open>core/error.rs\<close>.  Code outside the repository (the \<^verbatim>\<open>io_uring\<close>, \<^verbatim>\<open>tun-rs\<close>, \<^verbatim>\<open>async-channel\<close>, \<^verbatim>\<open>tokio\<close>
  and \<^verbatim>\<open>async-io\<close> crates, \<^verbatim>\<open>libc\<close>, the clock) is an environment record, a function on a world per call
  (\<open>uring_env\<close> in \<open>Uring_Env\<close>, extended by \<open>rx_env\<close>, \<open>rx_setup_env\<close>, \<open>tx_env\<close>, \<open>tx_call_env\<close>, and \<open>dev_env\<close>,
  \<open>io_env\<close>); the models are defined for every such environment.  What a theorem needs of it is a
  locale (\<open>rx_kernel\<close>, \<open>tx_recorder\<close>, \<open>tx_kernel\<close>, \<open>tx_joinable\<close>, \<open>tx_service\<close>, \<open>tx_quiet\<close>, \<open>tx_post\<close>, \<open>fd_table\<close>, \<open>packet_writer\<close>), interpreted on
  the concrete hosts \<open>Rx_Host\<close>, \<open>Tx_Host\<close>, and those at the end of \<open>Rx_Shutdown\<close>, \<open>Tx_Service\<close>, \<open>Device_Clone\<close> and \<open>Backend\<close>, on which
  the witnesses run.
  A method that may not return is a partial function into \<open>option\<close> (\<open>None\<close>: it does not return); no fuel is used.
  A mutex-protected method is one atomic step, an \<^verbatim>\<open>async fn\<close> is a state machine with one step per poll.

  \<^bold>\<open>Packets\<close> (\<^verbatim>\<open>core/packet.rs\<close>).  \<open>Packet\<close>: packets over ring memory, detaching, recycling, the virtio header.
  A slot is given back exactly once; detaching copies the bytes before; the lazily parsed offload
  information is stable; encoding and parsing a header round-trips.  \<open>Checksum\<close>: the 32-bit-at-a-time sum is the RFC 1071
  sum.  \<open>Gso_Split\<close>: \<^verbatim>\<open>split_into\<close> with every slice access and wrapping length.  \<open>Gso_Correct\<close>: on
  packets that meet the virtio contract splitting never panics, the payloads of the segments
  concatenate to the packet's payload, headers differ exactly in the rewritten fields, and every checksum
  verifies; it does not matter whether the packet was detached.

  \<^bold>\<open>Configuration\<close> (\<^verbatim>\<open>core/config.rs\<close>).  \<open>Uring_Config\<close>: \<^verbatim>\<open>validate\<close> accepts exactly the well-formed configurations.

  \<^bold>\<open>RX\<close> (\<^verbatim>\<open>core/rx.rs\<close>).  \<open>Fifo_Queue\<close> is the abstract queue (a locale) that \<open>Rx_Shared\<close> (\<^verbatim>\<open>RxShared\<close>, \<^verbatim>\<open>RxState\<close>, the
  waker slot) implements.  \<open>Rx_Consumer\<close>: \<^verbatim>\<open>recv\<close>, \<^verbatim>\<open>recv_many\<close> and \<^verbatim>\<open>readable\<close> interleaved with the driver; a receiver that could
  return is never left asleep.  \<open>Provided_Buffers\<close>: the shared buffer ring at its 16-bit width, refined to the list of
  published buffers; each buffer is published or held, never both, never twice.  \<open>Rx_Auto_Resume\<close>: the notifier at
  the granularity of its atomic operations.  \<open>Rx_Driver\<close>: commands, submissions, completions, faults and the loop;
  \<open>Rx_Driver_Correct\<close>: the driver's invariant, delivery of packets in completion order, what a stop waits for;
  \<open>Rx_Progress\<close>: the inner loops return.  \<open>Rx_Shutdown\<close>: after \<^verbatim>\<open>Shutdown\<close> the thread cancels its read, reaps it and ends, on a
  kernel that ends a cancelled read after finitely many completions; the measure is the commands still queued, then what is left to
  reap.  \<open>Rx_Controller\<close>: set-up and tear-down, start and stop against the
  contract of the trait \<^verbatim>\<open>RxDriverOps\<close> (a locale), which the driver thread meets.
  \<open>Rx_System\<close> joins kernel, ring, driver, queue and application and interleaves their actions in any order: each receive
  buffer has one owner, and what the application reads in a packet is what the kernel wrote, in the same order.

  \<^bold>\<open>TX\<close> (\<^verbatim>\<open>core/tx.rs\<close>).  \<open>Tx_Slot\<close>: the batch slot, mutual exclusion and wake-ups for any number of callers.  \<open>Tx_Batch\<close>:
  the bookkeeping of one batch and its invariant.  \<open>Tx_Driver\<close>: submission (chunked, or linked for \<^verbatim>\<open>keep_order\<close>),
  cancellation, waiting, the loop of a batch and of the thread.  \<open>Tx_Correct\<close>: every batch that ends is
  answered in full.  \<open>Tx_Log\<close>: the writes submitted are a prefix of the buffers, once each and in order.
  \<open>Tx_Live\<close>: a batch ends; the potential is what is left to submit and reap plus the wake-ups that
  are no completions.  \<open>Tx_Controller\<close>: \<^verbatim>\<open>send_many\<close> as a future, its polls are runs of the slot protocol, and all its
  outcomes.  \<open>Tx_Service\<close>: caller and driver together; a batch that was sent comes back with a result per buffer, a
  dropped call raises the batch's cancel flag.
  \<open>Tx_Quiet\<close>: what the calls of a batch leave alone of the world.  \<open>Tx_Thread\<close>: the thread's loop ends after finitely many commands.
  \<open>Tx_System\<close>: any number of calls and the driver thread interleaved one poll and one iteration at a time; one batch is under
  way at most, and every call gets back its own buffers and results.

  \<^bold>\<open>Device\<close> (\<^verbatim>\<open>core/mod.rs\<close>, \<^verbatim>\<open>backend\<close>, \<^verbatim>\<open>lib.rs\<close>).  \<open>Device_Clone\<close>: the multi-queue fallback of \<^verbatim>\<open>try_clone\<close> attaches to the same
  interface or fails, and leaks no descriptor.  \<open>Core_Device\<close>: \<^verbatim>\<open>CoreDevice::new\<close> establishes the invariants of both threads.
  \<open>Backend\<close>: the three implementations of \<^verbatim>\<open>BackendDevice\<close> as records of their methods, their selection, and the public
  operations over them; the two runtimes' send loops write a packet exactly once.

  \<^bold>\<open>Examples\<close> (\<^verbatim>\<open>examples\<close>).  \<open>Live_Examples\<close>: the UDP packets the examples build have valid headers and are the ones they
  recognise; the accounting of a round and the summary of the round times.  \<open>Perf_Smoke\<close>: which errors skip a live example, the
  command line (parsing a printed number gives it back), the sender thread, which ends by itself, and the \<^verbatim>\<open>run\<close> functions of the three
  programs: what they report is what was sent and received.

  \<^bold>\<open>Bounds.\<close>  \<^verbatim>\<open>usize\<close> is unbounded except where the code checks it; the index in a write's tag has 40 bits, so
  \<open>Tx_Live\<close> and \<open>Tx_Service\<close> assume at most \<open>2 ^ 40\<close> buffers in a batch.  Packet lengths are those of the 16-bit IP length
  fields.  Durations and instants are nanoseconds; an instant is below \<open>2 ^ 63\<close> seconds.

  \<^bold>\<open>Findings.\<close>  Theorems that show the code doing something it does not mean to do stand beside the component:
  \<open>split_malformed_panics\<close>, \<open>recycle_window_hands_out_held_buffer\<close>, \<open>stop_undone_by_auto_resume\<close>, \<open>shutdown_undone_by_auto_resume\<close>,
  \<open>stop_while_faulted_forgotten\<close>,
  \<open>short_packet_loses_buffers\<close>, \<open>failed_wait_returns_buffers_in_flight\<close>, \<open>stale_completions_answer_next_batch\<close>,
  \<open>closed_response_loses_buffers\<close>, \<open>failed_signal_two_batches\<close>, \<open>send_many_max_timeout_panics\<close>, \<open>effective_len_exceeds_u32\<close>.

  \<^bold>\<open>Not modelled.\<close>  The \<^verbatim>\<open>Debug\<close> formatters (text output only), poisoning of mutexes (no code panics while
  holding one), memory ordering of atomics (they are sequentially consistent here), the tests and their helpers, the
  printing and the \<^verbatim>\<open>main\<close> functions of the example programs, and the scripts.
\<close>

section \<open>The device as a whole\<close>



end
